(* ===== verification/Prelude.thy ===== *)
theory Prelude
  imports Main "HOL-Library.Word" "HOL-Library.Sublist" "HOL-Library.FSet"
    "HOL-Library.Finite_Map" "HOL-Library.Char_ord" "HOL-Library.List_Lexorder"
begin

text \<open>
  Shared vocabulary of the development: the machine integers of the crate, Rust's
  \<open>Result\<close> as a sum, the checked and saturating integer operations the sources call,
  the ordered iteration of a \<open>BTreeSet\<close>, and the generic list lemmas that the component
  theories share.  Nothing in here is specific to one component.
\<close>

section \<open>Types\<close>

type_synonym u8 = "8 word"
type_synonym u16 = "16 word"
type_synonym i32 = "32 word"
type_synonym u64 = "64 word"

text \<open>The crate is built for 64-bit hosts: \<open>usize\<close> and \<open>u64\<close> have the same width.\<close>

type_synonym usize = "64 word"
type_synonym bytes = "u8 list"

text \<open>
  \<open>Result<T, E>\<close> is the sum \<open>'e + 't\<close>.  A handler that mutates \<open>self\<close> returns the new
  state beside its result, so that the state left behind by an error is visible.
\<close>

abbreviation Ok :: "'t \<Rightarrow> 'e + 't" where "Ok \<equiv> Inr"
abbreviation Err :: "'e \<Rightarrow> 'e + 't" where "Err \<equiv> Inl"

definition is_ok :: "'e + 't \<Rightarrow> bool" where
  "is_ok r = (case r of Inl _ \<Rightarrow> False | Inr _ \<Rightarrow> True)"

definition map_err :: "('e \<Rightarrow> 'f) \<Rightarrow> 'e + 't \<Rightarrow> 'f + 't" where
  "map_err f r = (case r of Inl e \<Rightarrow> Inl (f e) | Inr v \<Rightarrow> Inr v)"

named_theorems result_simps \<open>evaluation of results\<close>

lemma is_ok_simps [simp, result_simps]:
  "is_ok (Inr v)" "\<not> is_ok (Inl e)"
  by (simp_all add: is_ok_def)

lemma is_ok_iff: "is_ok r \<longleftrightarrow> (\<exists>v. r = Inr v)"
  by (cases r) simp_all

lemma not_is_ok_iff: "\<not> is_ok r \<longleftrightarrow> (\<exists>e. r = Inl e)"
  by (cases r) simp_all

lemma map_err_simps [simp, result_simps]:
  "map_err f (Inl e) = Inl (f e)" "map_err f (Inr v) = Inr v"
  by (simp_all add: map_err_def)

lemma map_err_eq_Inr [simp]: "map_err f r = Inr v \<longleftrightarrow> r = Inr v"
  by (cases r) simp_all

section \<open>Integer arithmetic of the standard library\<close>

text \<open>
  \<open>usize::checked_add\<close> where the addend is the length of a vector: the length is a
  natural number of the model, and the sum is refused when it does not fit.
\<close>

definition checked_add_len :: "usize \<Rightarrow> nat \<Rightarrow> usize option" where
  "checked_add_len a n = (if unat a + n < 2 ^ 64 then Some (a + of_nat n) else None)"

definition saturating_mul :: "u64 \<Rightarrow> u64 \<Rightarrow> u64" where
  "saturating_mul a b = (if unat a * unat b < 2 ^ 64 then a * b else - 1)"

definition u64_max :: u64 where "u64_max = - 1"

lemma unat_u64_max: "unat (- 1 :: u64) = 18446744073709551615"
  by (simp add: unsigned_minus_1_eq_mask mask_eq_exp_minus_1)

lemma unat_lt_2_64: "unat (a :: 64 word) < 18446744073709551616"
  using unsigned_less [of a] by simp

lemma checked_add_len_Some:
  "checked_add_len a n = Some c \<longleftrightarrow> unat a + n < 2 ^ 64 \<and> c = a + of_nat n"
  by (auto simp: checked_add_len_def)

lemma unat_add_len:
  assumes "unat (a :: usize) + n < 2 ^ 64"
  shows "unat (a + of_nat n) = unat a + n"
  using assms by (simp add: unat_word_ariths unat_of_nat take_bit_eq_mod mod_add_right_eq)

lemma unat_sub_len:
  assumes "n \<le> unat (a :: usize)"
  shows "unat (a - of_nat n) = unat a - n"
proof -
  have "unat (of_nat n :: usize) = n"
    using assms unat_lt_2_64 [of a] by (simp add: unat_of_nat take_bit_eq_mod)
  then show ?thesis
    using assms by (simp add: unat_sub word_le_nat_alt)
qed

lemma unat_saturating_mul:
  "unat (saturating_mul a b) = min (unat a * unat b) (2 ^ 64 - 1)"
proof (cases "unat a * unat b < 2 ^ 64")
  case True
  then show ?thesis by (simp add: saturating_mul_def unat_word_ariths)
next
  case False
  then show ?thesis by (simp add: saturating_mul_def unat_u64_max)
qed

section \<open>Ordered sets\<close>

text \<open>
  A \<open>BTreeSet<T>\<close> is a finite set; iterating it yields the elements in increasing order.
  Strings are ordered byte by byte, as \<open>str\<close> is.
\<close>

abbreviation btree_iter :: "'a::linorder fset \<Rightarrow> 'a list" where
  "btree_iter \<equiv> sorted_list_of_fset"

lemma btree_iter_sorted: "sorted (btree_iter s)"
  by (simp add: sorted_list_of_fset.rep_eq)

lemma btree_iter_distinct: "distinct (btree_iter s)"
  by (simp add: sorted_list_of_fset.rep_eq)

lemma btree_iter_empty [simp]: "btree_iter {||} = []"
  by (simp add: sorted_list_of_fset.rep_eq)

lemma btree_iter_insert [simp]:
  "btree_iter (finsert x s) = insort x (btree_iter (s |-| {|x|}))"
  by (simp add: sorted_list_of_fset.rep_eq)

lemma btree_iter_Nil_iff [simp]: "btree_iter s = [] \<longleftrightarrow> s = {||}"
  by (metis btree_iter_empty fset_of_list_simps(1) sorted_list_of_fset_simps(2))

section \<open>Lists\<close>

lemma map_filter_append: "List.map_filter f (xs @ ys) = List.map_filter f xs @ List.map_filter f ys"
  by (induction xs) (auto simp: List.map_filter_simps split: option.splits)

lemma set_map_filter: "y \<in> set (List.map_filter f xs) \<longleftrightarrow> (\<exists>x \<in> set xs. f x = Some y)"
  by (induction xs) (auto simp: List.map_filter_simps split: option.splits)

lemma map_filter_Nil_iff: "List.map_filter f xs = [] \<longleftrightarrow> (\<forall>x \<in> set xs. f x = None)"
  by (induction xs) (auto simp: List.map_filter_simps split: option.splits)

lemma map_filter_cong:
  "\<forall>x \<in> set xs. f x = g x \<Longrightarrow> List.map_filter f xs = List.map_filter g xs"
  by (induction xs) (simp_all add: List.map_filter_simps split: option.splits)

text \<open>Keeping the newest entries of a bounded log.\<close>

definition last_n :: "nat \<Rightarrow> 'a list \<Rightarrow> 'a list" where
  "last_n n xs = drop (length xs - n) xs"

lemma length_last_n [simp]: "length (last_n n xs) = min n (length xs)"
  by (simp add: last_n_def)

lemma last_n_all: "length xs \<le> n \<Longrightarrow> last_n n xs = xs"
  by (simp add: last_n_def)

lemma last_n_snoc: "last_n n (last_n n xs @ [x]) = last_n n (xs @ [x])"
proof (cases "length xs \<le> n")
  case True
  then show ?thesis by (simp add: last_n_all)
next
  case False
  then obtain d where "length xs = n + Suc d"
    by (metis add_Suc_right less_iff_Suc_add not_le)
  then show ?thesis by (cases n) (simp_all add: last_n_def)
qed

lemma set_last_n: "set (last_n n xs) \<subseteq> set xs"
  by (simp add: last_n_def set_drop_subset)

end
