(* ===== verification/Rust_Text.thy ===== *)
theory Rust_Text
  imports Prelude
begin

text \<open>
  The part of \<open>std::str\<close> and \<open>std::char\<close> the sources use.  A \<open>String\<close> and an \<open>OsStr\<close> are
  both modelled by their bytes (an Isabelle \<open>char\<close> is a byte); \<open>utf8_next\<close> decodes the
  first character of a byte string with the table of well-formed UTF-8 sequences, so that
  \<open>OsStr::to_str\<close> (which fails on ill-formed bytes) and \<open>str::chars\<close> are functions of the
  bytes.  A Rust \<open>String\<close> is always well formed, so the replacement character that
  \<open>chars\<close> yields for an ill-formed byte is never produced for one.
\<close>

definition is_cont :: "char \<Rightarrow> bool" where
  "is_cont c = (128 \<le> (of_char c :: nat) \<and> of_char c \<le> (191 :: nat))"

definition cont_bits :: "char \<Rightarrow> nat" where
  "cont_bits c = of_char c - 128"

text \<open>
  The sequences of two, three and four bytes, given the value of the first byte and the
  bytes after it, and the first character of a byte string with the bytes after it.
\<close>

definition utf8_two :: "nat \<Rightarrow> string \<Rightarrow> (nat \<times> string) option" where
  "utf8_two b0 r = (case r of
     c1 # r1 \<Rightarrow>
       if is_cont c1 then Some ((b0 - 192) * 64 + cont_bits c1, r1) else None
   | _ \<Rightarrow> None)"

definition utf8_three :: "nat \<Rightarrow> string \<Rightarrow> (nat \<times> string) option" where
  "utf8_three b0 r = (case r of
     c1 # c2 # r2 \<Rightarrow>
       if is_cont c1 \<and> is_cont c2
          \<and> (b0 = 224 \<longrightarrow> 160 \<le> (of_char c1 :: nat))
          \<and> (b0 = 237 \<longrightarrow> (of_char c1 :: nat) \<le> 159)
       then Some ((b0 - 224) * 4096 + cont_bits c1 * 64 + cont_bits c2, r2) else None
   | _ \<Rightarrow> None)"

definition utf8_four :: "nat \<Rightarrow> string \<Rightarrow> (nat \<times> string) option" where
  "utf8_four b0 r = (case r of
     c1 # c2 # c3 # r3 \<Rightarrow>
       if is_cont c1 \<and> is_cont c2 \<and> is_cont c3
          \<and> (b0 = 240 \<longrightarrow> 144 \<le> (of_char c1 :: nat))
          \<and> (b0 = 244 \<longrightarrow> (of_char c1 :: nat) \<le> 143)
       then Some ((b0 - 240) * 262144 + cont_bits c1 * 4096 + cont_bits c2 * 64
                  + cont_bits c3, r3) else None
   | _ \<Rightarrow> None)"

definition utf8_next :: "string \<Rightarrow> (nat \<times> string) option" where
  "utf8_next s = (case s of
     [] \<Rightarrow> None
   | c0 # r \<Rightarrow>
      (let b0 = of_char c0 in
       if b0 < 128 then Some (b0, r)
       else if 194 \<le> b0 \<and> b0 \<le> 223 then utf8_two b0 r
       else if 224 \<le> b0 \<and> b0 \<le> 239 then utf8_three b0 r
       else if 240 \<le> b0 \<and> b0 \<le> 244 then utf8_four b0 r
       else None))"

text \<open>
  A multi-byte sequence contains no ASCII byte and does not decode to an ASCII character.
\<close>

definition multi_tail :: "nat \<Rightarrow> string \<Rightarrow> string \<Rightarrow> bool" where
  "multi_tail c r rest =
     (128 \<le> c \<and> (\<exists>p. r = p @ rest \<and> (\<forall>x \<in> set p. 128 \<le> (of_char x :: nat))))"

lemma multi_tailI:
  "r = p @ rest \<Longrightarrow> 128 \<le> c \<Longrightarrow> \<forall>x \<in> set p. is_cont x \<Longrightarrow> multi_tail c r rest"
  unfolding multi_tail_def is_cont_def by blast

lemma utf8_two_tail:
  "utf8_two b r = Some (c, rest) \<Longrightarrow> 194 \<le> b \<Longrightarrow> multi_tail c r rest"
  unfolding utf8_two_def
  by (cases r) (auto intro: multi_tailI [where p = "[hd r]"] split: if_splits)

lemma utf8_three_tail:
  assumes "utf8_three b r = Some (c, rest)" "224 \<le> b"
  shows "multi_tail c r rest"
proof -
  obtain c1 c2 where r: "r = c1 # c2 # rest" "is_cont c1" "is_cont c2"
    "b = 224 \<longrightarrow> 160 \<le> (of_char c1 :: nat)"
    "c = (b - 224) * 4096 + cont_bits c1 * 64 + cont_bits c2"
    using assms(1) unfolding utf8_three_def by (auto split: list.splits if_splits)
  have "128 \<le> c"
    using r(4,5) assms(2) by (cases "b = 224") (simp_all add: cont_bits_def)
  then show ?thesis using r by (intro multi_tailI [where p = "[c1, c2]"]) auto
qed

lemma utf8_four_tail:
  assumes "utf8_four b r = Some (c, rest)" "240 \<le> b"
  shows "multi_tail c r rest"
proof -
  obtain c1 c2 c3 where r: "r = c1 # c2 # c3 # rest" "is_cont c1" "is_cont c2" "is_cont c3"
    "b = 240 \<longrightarrow> 144 \<le> (of_char c1 :: nat)"
    "c = (b - 240) * 262144 + cont_bits c1 * 4096 + cont_bits c2 * 64 + cont_bits c3"
    using assms(1) unfolding utf8_four_def by (auto split: list.splits if_splits)
  have "128 \<le> c"
    using r(5,6) assms(2) by (cases "b = 240") (simp_all add: cont_bits_def)
  then show ?thesis using r by (intro multi_tailI [where p = "[c1, c2, c3]"]) auto
qed

lemma utf8_next_ascii:
  "(of_char b :: nat) < 128 \<Longrightarrow> utf8_next (b # bs) = Some (of_char b, bs)"
  by (simp add: utf8_next_def)

lemma utf8_next_multi:
  assumes "utf8_next (b # bs) = Some (c, r)" "\<not> (of_char b :: nat) < 128"
  shows "multi_tail c bs r"
  using assms utf8_two_tail utf8_three_tail utf8_four_tail
  by (auto simp: utf8_next_def Let_def split: if_splits)

lemma utf8_next_suffix:
  assumes "utf8_next (b # bs) = Some (c, r)"
  shows "\<exists>p. bs = p @ r"
  using assms utf8_next_ascii [of b bs] utf8_next_multi [OF assms]
  by (cases "(of_char b :: nat) < 128") (auto simp: multi_tail_def)

lemma utf8_next_length: "utf8_next s = Some (c, r) \<Longrightarrow> length r < length s"
proof (cases s)
  case (Cons b bs)
  assume "utf8_next s = Some (c, r)"
  then show ?thesis using utf8_next_suffix [of b bs c r] Cons by auto
qed (simp add: utf8_next_def)

lemma utf8_next_append:
  "utf8_next s = Some (c, r) \<Longrightarrow> utf8_next (s @ t) = Some (c, r @ t)"
proof (cases s)
  case (Cons b bs)
  have two: "utf8_two n bs = Some (c, r) \<Longrightarrow> utf8_two n (bs @ t) = Some (c, r @ t)" for n
    unfolding utf8_two_def by (auto split: list.splits if_splits)
  have three: "utf8_three n bs = Some (c, r) \<Longrightarrow> utf8_three n (bs @ t) = Some (c, r @ t)" for n
    unfolding utf8_three_def by (auto split: list.splits if_splits)
  have four: "utf8_four n bs = Some (c, r) \<Longrightarrow> utf8_four n (bs @ t) = Some (c, r @ t)" for n
    unfolding utf8_four_def by (auto split: list.splits if_splits)
  assume "utf8_next s = Some (c, r)"
  then show ?thesis
    using Cons two three four by (auto simp: utf8_next_def Let_def split: if_splits)
qed (simp add: utf8_next_def)

function chars :: "string \<Rightarrow> nat list" where
  "chars [] = []"
| "chars (b # bs) = (case utf8_next (b # bs) of
     None \<Rightarrow> 65533 # chars bs
   | Some (c, rest) \<Rightarrow> c # chars rest)"
  by pat_completeness auto
termination
  by (relation "measure length") (use utf8_next_length in force)+

function utf8_valid :: "string \<Rightarrow> bool" where
  "utf8_valid [] = True"
| "utf8_valid (b # bs) = (case utf8_next (b # bs) of
     None \<Rightarrow> False
   | Some (_, rest) \<Rightarrow> utf8_valid rest)"
  by pat_completeness auto
termination
  by (relation "measure length") (use utf8_next_length in force)+

text \<open>\<open>OsStr::to_str\<close>.\<close>

definition to_str :: "string \<Rightarrow> string option" where
  "to_str s = (if utf8_valid s then Some s else None)"

text \<open>\<open>char::is_whitespace\<close>: the characters with the property White_Space.\<close>

definition is_whitespace :: "nat \<Rightarrow> bool" where
  "is_whitespace c = (9 \<le> c \<and> c \<le> 13 \<or> c = 32 \<or> c = 133 \<or> c = 160 \<or> c = 5760
     \<or> 8192 \<le> c \<and> c \<le> 8202 \<or> c = 8232 \<or> c = 8233 \<or> c = 8239 \<or> c = 8287 \<or> c = 12288)"

section \<open>Characters and bytes\<close>

text \<open>An ASCII character occurs in a string exactly where its byte does.\<close>

lemma chars_ascii_iff:
  assumes "a < 128"
  shows "a \<in> set (chars s) \<longleftrightarrow> (\<exists>b \<in> set s. of_char b = a)"
proof (induction s rule: chars.induct)
  case 1
  then show ?case by simp
next
  case (2 b bs)
  show ?case
  proof (cases "utf8_next (b # bs)")
    case None
    then have "\<not> (of_char b :: nat) < 128"
      using utf8_next_ascii by force
    with None 2(1) assms show ?thesis by auto
  next
    case (Some cr)
    obtain c r where cr: "cr = (c, r)" by (cases cr)
    have step: "chars (b # bs) = c # chars r" using Some cr by simp
    have IH: "a \<in> set (chars r) \<longleftrightarrow> (\<exists>b \<in> set r. of_char b = a)"
      using 2(2) [OF Some] cr by simp
    show ?thesis
    proof (cases "(of_char b :: nat) < 128")
      case True
      then have "c = of_char b" "r = bs" using Some cr by (simp_all add: utf8_next_ascii)
      then show ?thesis using step IH by (simp del: chars.simps) (metis)
    next
      case False
      with Some cr obtain p where p: "bs = p @ r" "128 \<le> c"
        "\<forall>x \<in> set (b # p). 128 \<le> (of_char x :: nat)"
        using utf8_next_multi [of b bs c r] by (auto simp: multi_tail_def)
      have "\<forall>x \<in> set (b # p). (of_char x :: nat) \<noteq> a" "c \<noteq> a"
        using p(2,3) assms by fastforce+
      then show ?thesis using step IH p(1) by (auto simp del: chars.simps)
    qed
  qed
qed

lemma chars_Nil_iff [simp]: "chars s = [] \<longleftrightarrow> s = []"
  by (cases s) (auto split: option.splits prod.splits)

lemma utf8_valid_ascii:
  "\<forall>b \<in> set s. (of_char b :: nat) < 128 \<Longrightarrow> utf8_valid s"
  by (induction s) (auto simp: utf8_next_ascii)

lemma utf8_valid_append:
  "utf8_valid s \<Longrightarrow> utf8_valid t \<Longrightarrow> utf8_valid (s @ t)"
proof (induction s rule: utf8_valid.induct)
  case (2 b bs)
  then obtain c r where cr: "utf8_next (b # bs) = Some (c, r)" "utf8_valid r"
    by (auto split: option.splits)
  then have "utf8_next ((b # bs) @ t) = Some (c, r @ t)"
    using utf8_next_append by blast
  with 2 cr show ?case by auto
qed simp

section \<open>Splitting well-formed text\<close>

lemma utf8_next_split:
  assumes "utf8_next ((x # xs) @ c # b) = Some (n, r)" "(of_char c :: nat) < 128"
  shows "\<exists>r'. r = r' @ c # b \<and> utf8_next (x # xs) = Some (n, r')"
proof -
  have nc: "\<not> is_cont c" using assms(2) by (simp add: is_cont_def)
  have two: "utf8_two k (xs @ c # b) = Some (n, r) \<Longrightarrow>
      \<exists>r'. r = r' @ c # b \<and> utf8_two k xs = Some (n, r')" for k
    using nc unfolding utf8_two_def by (cases xs) (auto split: if_splits)
  have three: "utf8_three k (xs @ c # b) = Some (n, r) \<Longrightarrow>
      \<exists>r'. r = r' @ c # b \<and> utf8_three k xs = Some (n, r')" for k
    using nc unfolding utf8_three_def
    by (cases xs; cases "tl xs") (auto split: list.splits if_splits)
  have four: "utf8_four k (xs @ c # b) = Some (n, r) \<Longrightarrow>
      \<exists>r'. r = r' @ c # b \<and> utf8_four k xs = Some (n, r')" for k
    using nc unfolding utf8_four_def
    by (cases xs; cases "tl xs"; cases "tl (tl xs)") (auto split: list.splits if_splits)
  show ?thesis
    using assms(1) two three four by (auto simp: utf8_next_def Let_def split: if_splits)
qed

lemma utf8_valid_split:
  "utf8_valid (a @ c # b) \<Longrightarrow> (of_char c :: nat) < 128 \<Longrightarrow> utf8_valid a \<and> utf8_valid b"
proof (induction a rule: utf8_valid.induct)
  case 1
  then show ?case by (simp add: utf8_next_ascii)
next
  case (2 x xs)
  then obtain n r where r: "utf8_next ((x # xs) @ c # b) = Some (n, r)" "utf8_valid r"
    by (auto split: option.splits)
  then obtain r' where "r = r' @ c # b" "utf8_next (x # xs) = Some (n, r')"
    using utf8_next_split "2.prems"(2) by blast
  then show ?case using "2.IH" [of "(n, r')" n r'] r(2) "2.prems"(2) by simp
qed

end
