(* ===== verification/Rust_Path.thy ===== *)
theory Rust_Path
  imports Rust_Text
begin

text \<open>
  The part of \<open>std::path\<close> the sources use, on Unix.  A \<open>PathBuf\<close> is its byte string; every
  operation works on those bytes the way the library does, and \<open>components\<close> is the
  normalised view the library compares paths by (repeated separators and \<open>.\<close> segments
  after the start vanish).  A path is split into its head and the segments between the
  separators of its body, and put together again.
\<close>

type_synonym path = string

datatype path_component = RootDir | CurDir | ParentDir | Normal string

text \<open>The start of a path: a leading separator, a leading \<open>.\<close> segment, or neither.\<close>

datatype path_head = Rooted | Dotted | Plain

abbreviation sep :: char where "sep \<equiv> CHR ''/''"

section \<open>Segments\<close>

fun split_sep :: "string \<Rightarrow> string list" where
  "split_sep [] = [[]]"
| "split_sep (c # cs) =
     (if c = sep then [] # split_sep cs
      else (case split_sep cs of s # ss \<Rightarrow> (c # s) # ss | [] \<Rightarrow> [[c]]))"

fun join_sep :: "string list \<Rightarrow> string" where
  "join_sep [] = []"
| "join_sep [s] = s"
| "join_sep (s # t # ss) = s @ sep # join_sep (t # ss)"

definition path_split :: "path \<Rightarrow> path_head \<times> string list" where
  "path_split p = (case p of
     [] \<Rightarrow> (Plain, [[]])
   | c # cs \<Rightarrow>
       if c = sep then (Rooted, split_sep cs)
       else (case split_sep p of s # ss \<Rightarrow> if s = ''.'' then (Dotted, ss) else (Plain, s # ss)
             | [] \<Rightarrow> (Plain, [])))"

definition path_unsplit :: "path_head \<Rightarrow> string list \<Rightarrow> path" where
  "path_unsplit h segs = (case h of
     Rooted \<Rightarrow> sep # join_sep segs
   | Dotted \<Rightarrow> (if segs = [] then ''.'' else ''.'' @ sep # join_sep segs)
   | Plain \<Rightarrow> join_sep segs)"

text \<open>A body segment is a component unless it is empty or a \<open>.\<close>.\<close>

definition body_component :: "string \<Rightarrow> path_component option" where
  "body_component s =
     (if s = '''' \<or> s = ''.'' then None
      else if s = ''..'' then Some ParentDir else Some (Normal s))"

abbreviation junk :: "string \<Rightarrow> bool" where
  "junk s \<equiv> body_component s = None"

definition head_components :: "path_head \<Rightarrow> path_component list" where
  "head_components h = (case h of Rooted \<Rightarrow> [RootDir] | Dotted \<Rightarrow> [CurDir] | Plain \<Rightarrow> [])"

definition ltrim :: "string list \<Rightarrow> string list" where
  "ltrim segs = dropWhile (\<lambda>s. junk s) segs"

definition rtrim :: "string list \<Rightarrow> string list" where
  "rtrim segs = rev (dropWhile (\<lambda>s. junk s) (rev segs))"

section \<open>The library's operations\<close>

definition components :: "path \<Rightarrow> path_component list" where
  "components p = (case path_split p of (h, segs) \<Rightarrow>
     head_components h @ List.map_filter body_component segs)"

definition is_absolute :: "path \<Rightarrow> bool" where
  "is_absolute p = (case p of [] \<Rightarrow> False | c # _ \<Rightarrow> c = sep)"

definition path_starts_with :: "path \<Rightarrow> path \<Rightarrow> bool" where
  "path_starts_with p base = prefix (components base) (components p)"

text \<open>The body of a path after its first \<open>n\<close> body components.\<close>

fun drop_components :: "nat \<Rightarrow> string list \<Rightarrow> string list" where
  "drop_components 0 segs = segs"
| "drop_components (Suc n) [] = []"
| "drop_components (Suc n) (s # ss) =
     (if junk s then drop_components (Suc n) ss else drop_components n ss)"

text \<open>\<open>Path::strip_prefix\<close>: the bytes left when the components of the base are consumed.\<close>

definition path_strip_prefix :: "path \<Rightarrow> path \<Rightarrow> path option" where
  "path_strip_prefix p base =
     (if path_starts_with p base then
        (case path_split p of (h, segs) \<Rightarrow>
          let n = length (components base); k = length (head_components h) in
          if n = 0 then Some (path_unsplit h (rtrim segs))
          else Some (join_sep (rtrim (ltrim (drop_components (n - k) segs)))))
      else None)"

definition path_file_name :: "path \<Rightarrow> string option" where
  "path_file_name p = (case path_split p of (h, segs) \<Rightarrow>
     let body = rtrim segs in
     if body = [] then None
     else (case body_component (last body) of Some (Normal s) \<Rightarrow> Some s | _ \<Rightarrow> None))"

text \<open>
  \<open>PathBuf::pop\<close> truncates the path to its parent; \<open>None\<close> is the \<open>false\<close> it returns for a
  path that has no parent.
\<close>

definition path_pop :: "path \<Rightarrow> path option" where
  "path_pop p = (case path_split p of (h, segs) \<Rightarrow>
     let body = rtrim segs in
     if body = [] then (case h of Dotted \<Rightarrow> Some '''' | _ \<Rightarrow> None)
     else Some (path_unsplit h (rtrim (butlast body))))"

text \<open>\<open>PathBuf::push\<close> and \<open>Path::join\<close>.\<close>

definition path_push :: "path \<Rightarrow> path \<Rightarrow> path" where
  "path_push p q =
     (if is_absolute q then q
      else if p \<noteq> [] \<and> last p \<noteq> sep then p @ sep # q else p @ q)"

section \<open>Splitting and joining\<close>

lemma split_sep_not_Nil [simp]: "split_sep p \<noteq> []"
  by (induction p) (auto split: list.splits)

lemma split_sep_no_sep: "\<forall>s \<in> set (split_sep p). sep \<notin> set s"
  by (induction p) (auto split: list.splits)

lemma split_sep_append: "split_sep (p @ sep # q) = split_sep p @ split_sep q"
  by (induction p) (auto split: list.splits)

lemma split_sep_single: "sep \<notin> set s \<Longrightarrow> split_sep s = [s]"
  by (induction s) auto

lemma join_sep_Cons_char: "join_sep ((c # s) # ss) = c # join_sep (s # ss)"
  by (cases ss) simp_all

lemma join_split_sep [simp]: "join_sep (split_sep p) = p"
proof (induction p)
  case (Cons c p)
  then show ?case
    by (cases "split_sep p") (auto simp: neq_Nil_conv join_sep_Cons_char split: list.splits)
qed simp

lemma join_sep_Cons: "ss \<noteq> [] \<Longrightarrow> join_sep (s # ss) = s @ sep # join_sep ss"
  by (cases ss) simp_all

lemma split_join_sep:
  "ss \<noteq> [] \<Longrightarrow> \<forall>s \<in> set ss. sep \<notin> set s \<Longrightarrow> split_sep (join_sep ss) = ss"
proof (induction ss)
  case (Cons s ss)
  then show ?case
    by (cases "ss = []") (auto simp: split_sep_single join_sep_Cons split_sep_append)
qed simp

lemma body_component_simps [simp]:
  "body_component [] = None" "body_component ''.'' = None" "body_component ''..'' = Some ParentDir"
  by (simp_all add: body_component_def)

lemma body_component_cases: "body_component s = Some c \<Longrightarrow> c = ParentDir \<or> c = Normal s"
  by (auto simp: body_component_def split: if_splits)

lemma body_component_Normal: "body_component s = Some (Normal t) \<longleftrightarrow> s = t \<and> s \<notin> {'''', ''.'', ''..''}"
  by (auto simp: body_component_def)

lemma map_filter_dropWhile_junk:
  "List.map_filter body_component (dropWhile (\<lambda>s. junk s) segs) = List.map_filter body_component segs"
  by (induction segs) (auto simp: List.map_filter_simps)

lemma map_filter_rev: "List.map_filter f (rev xs) = rev (List.map_filter f xs)"
  by (induction xs) (auto simp: List.map_filter_simps map_filter_append split: option.splits)

lemma map_filter_ltrim [simp]:
  "List.map_filter body_component (ltrim segs) = List.map_filter body_component segs"
  by (simp add: ltrim_def map_filter_dropWhile_junk)

lemma map_filter_rtrim [simp]:
  "List.map_filter body_component (rtrim segs) = List.map_filter body_component segs"
  by (simp add: rtrim_def map_filter_rev map_filter_dropWhile_junk)

lemma set_ltrim: "set (ltrim segs) \<subseteq> set segs"
  by (auto simp: ltrim_def dest: set_dropWhileD)

lemma set_rtrim: "set (rtrim segs) \<subseteq> set segs"
  by (auto simp: rtrim_def dest: set_dropWhileD)

lemma rtrim_last: "rtrim segs \<noteq> [] \<Longrightarrow> \<not> junk (last (rtrim segs))"
proof -
  assume "rtrim segs \<noteq> []"
  then have "dropWhile (\<lambda>s. junk s) (rev segs) \<noteq> []" by (simp add: rtrim_def)
  then have "\<not> junk (hd (dropWhile (\<lambda>s. junk s) (rev segs)))" by (rule hd_dropWhile)
  then show ?thesis by (simp add: rtrim_def last_rev)
qed

lemma rtrim_Nil_iff: "rtrim segs = [] \<longleftrightarrow> List.map_filter body_component segs = []"
  by (auto simp: rtrim_def map_filter_Nil_iff dropWhile_eq_Nil_conv)

lemma set_drop_components: "set (drop_components n segs) \<subseteq> set segs"
  by (induction n segs rule: drop_components.induct) auto

lemma map_filter_drop_components:
  "List.map_filter body_component (drop_components n segs)
     = drop n (List.map_filter body_component segs)"
  by (induction n segs rule: drop_components.induct) (auto simp: List.map_filter_simps)

section \<open>Components of split, pushed and stripped paths\<close>

lemma path_split_sep [simp]: "path_split (sep # cs) = (Rooted, split_sep cs)"
  by (simp add: path_split_def)

lemma path_unsplit_split: "path_split p = (h, segs) \<Longrightarrow> path_unsplit h segs = p"
proof (cases p)
  case (Cons c cs)
  assume h: "path_split p = (h, segs)"
  have j: "join_sep (split_sep p) = p" by simp
  obtain s ss where ss: "split_sep p = s # ss" by (metis split_sep_not_Nil neq_Nil_conv)
  show ?thesis
  proof (cases "c = sep")
    case True
    with h Cons show ?thesis by (auto simp: path_split_def path_unsplit_def)
  next
    case False
    with h Cons ss j show ?thesis
      by (auto simp: path_split_def path_unsplit_def join_sep_Cons simp del: split_sep.simps
          split: if_splits)
  qed
qed (auto simp: path_split_def path_unsplit_def)

lemma path_split_no_sep: "path_split p = (h, segs) \<Longrightarrow> \<forall>s \<in> set segs. sep \<notin> set s"
proof (cases p)
  case (Cons c cs)
  assume h: "path_split p = (h, segs)"
  obtain s ss where ss: "split_sep p = s # ss" by (metis split_sep_not_Nil neq_Nil_conv)
  have "segs = split_sep cs \<or> segs = ss \<or> segs = s # ss"
    using h Cons ss by (auto simp: path_split_def simp del: split_sep.simps split: if_splits)
  then show ?thesis using ss split_sep_no_sep [of p] split_sep_no_sep [of cs] by auto
qed (auto simp: path_split_def)

lemma is_absolute_iff: "is_absolute p \<longleftrightarrow> (\<exists>segs. path_split p = (Rooted, segs))"
  by (auto simp: is_absolute_def path_split_def simp del: split_sep.simps split: list.splits)

lemma is_absolute_sep [simp]: "is_absolute (sep # p)"
  by (simp add: is_absolute_def)

lemma not_absolute_Nil [simp]: "\<not> is_absolute []"
  by (simp add: is_absolute_def)

lemma components_sep: "components (sep # p) = RootDir # List.map_filter body_component (split_sep p)"
  by (simp add: components_def head_components_def)

lemma components_Rooted:
  assumes "\<forall>s \<in> set segs. sep \<notin> set s"
  shows "components (sep # join_sep segs) = RootDir # List.map_filter body_component segs"
  using assms
  by (cases "segs = []") (simp_all add: components_sep split_join_sep List.map_filter_simps)

lemma absolute_components:
  assumes "is_absolute p"
  obtains cs where "components p = RootDir # cs" "RootDir \<notin> set cs" "CurDir \<notin> set cs"
proof -
  obtain segs where "path_split p = (Rooted, segs)"
    using assms is_absolute_iff by blast
  then show ?thesis
    by (intro that) (auto simp: components_def head_components_def set_map_filter
        dest: body_component_cases)
qed

lemma absolute_no_curdir: "is_absolute p \<Longrightarrow> CurDir \<notin> set (components p)"
  by (elim absolute_components) auto

lemma not_absolute_components: "\<not> is_absolute p \<Longrightarrow> RootDir \<notin> set (components p)"
  by (cases "path_split p")
    (auto simp: components_def head_components_def set_map_filter is_absolute_iff
      dest: body_component_cases split: path_head.splits)

lemma starts_with_absolute:
  "path_starts_with p base \<Longrightarrow> is_absolute base \<Longrightarrow> is_absolute p"
  by (metis absolute_components list.set_intros(1) not_absolute_components path_starts_with_def
      set_mono_prefix subsetD)

lemma path_split_push:
  assumes "p \<noteq> []" "path_split p = (h, segs)"
  shows "path_split (p @ sep # q) = (h, segs @ split_sep q)"
proof (cases p)
  case (Cons c cs)
  show ?thesis
  proof (cases "c = sep")
    case True
    with Cons assms show ?thesis by (simp add: split_sep_append)
  next
    case False
    obtain s ss where "split_sep p = s # ss" by (metis split_sep_not_Nil neq_Nil_conv)
    moreover have "split_sep (p @ sep # q) = split_sep p @ split_sep q"
      by (rule split_sep_append)
    ultimately show ?thesis
      using assms False Cons by (auto simp: path_split_def simp del: split_sep.simps)
  qed
qed (use assms in simp)

lemma components_append_sep:
  "p \<noteq> [] \<Longrightarrow> components (p @ sep # q)
     = components p @ List.map_filter body_component (split_sep q)"
  by (cases "path_split p") (simp add: components_def path_split_push map_filter_append)

text \<open>A relative path whose first segment is not a \<open>.\<close>.\<close>

definition plain_relative :: "path \<Rightarrow> bool" where
  "plain_relative q = (fst (path_split q) = Plain)"

lemma plain_relative_not_absolute: "plain_relative q \<Longrightarrow> \<not> is_absolute q"
  by (auto simp: plain_relative_def is_absolute_iff)

lemma plain_relative_components:
  "plain_relative q \<Longrightarrow> components q = List.map_filter body_component (split_sep q)"
  by (cases q; cases "split_sep q")
    (auto simp: plain_relative_def components_def head_components_def path_split_def
      simp del: split_sep.simps(2) split: if_splits)

lemma components_push:
  assumes "p \<noteq> []" "plain_relative q"
  shows "components (path_push p q) = components p @ components q"
proof (cases "last p = sep")
  case False
  then show ?thesis using assms
    by (simp add: path_push_def plain_relative_not_absolute components_append_sep
        plain_relative_components)
next
  case True
  then obtain p' where p': "p = p' @ [sep]" using assms(1) by (metis append_butlast_last_id)
  have q: "components q = List.map_filter body_component (split_sep q)"
    using assms(2) by (rule plain_relative_components)
  have push: "path_push p q = p' @ sep # q"
    using assms True p' by (simp add: path_push_def plain_relative_not_absolute)
  show ?thesis
  proof (cases "p' = []")
    case True
    then show ?thesis using p' push q by (simp add: components_sep List.map_filter_simps)
  next
    case False
    then show ?thesis using p' push q components_append_sep [of p' q] components_append_sep [of p' "[]"]
      by (simp add: List.map_filter_simps)
  qed
qed

lemma plain_relative_join:
  assumes "segs \<noteq> [] \<Longrightarrow> \<not> junk (hd segs)" "\<forall>s \<in> set segs. sep \<notin> set s"
  shows "plain_relative (join_sep segs)"
    and "components (join_sep segs) = List.map_filter body_component segs"
proof -
  have *: "fst (path_split (join_sep segs)) = Plain \<and>
     components (join_sep segs) = List.map_filter body_component segs"
  proof (cases segs)
    case Nil
    then show ?thesis
      by (simp add: components_def head_components_def path_split_def List.map_filter_simps)
  next
    case (Cons s ss)
    then have s: "s \<noteq> []" "s \<noteq> ''.''" "sep \<notin> set s" using assms by auto
    then obtain c cs where c: "s = c # cs" "c \<noteq> sep" by (cases s) auto
    have "join_sep segs = c # tl (join_sep segs)" using Cons c by (simp add: join_sep_Cons_char)
    moreover have "split_sep (join_sep segs) = s # ss" using Cons assms(2) split_join_sep by simp
    ultimately have "path_split (join_sep segs) = (Plain, s # ss)"
      using s c by (auto simp: path_split_def simp del: split_sep.simps split: list.splits)
    then show ?thesis using Cons by (simp add: components_def head_components_def)
  qed
  then show "plain_relative (join_sep segs)"
    and "components (join_sep segs) = List.map_filter body_component segs"
    by (simp_all add: plain_relative_def)
qed

text \<open>Stripping an absolute base leaves exactly the components below it.\<close>

lemma strip_prefix_absolute:
  assumes "path_starts_with p base" "is_absolute base"
  obtains q where "path_strip_prefix p base = Some q" "plain_relative q"
    "components q = drop (length (components base)) (components p)"
proof -
  obtain segs where split: "path_split p = (Rooted, segs)"
    using assms starts_with_absolute is_absolute_iff by blast
  obtain cs where cs: "components base = RootDir # cs"
    using assms(2) by (rule absolute_components)
  let ?ts = "rtrim (ltrim (drop_components (length cs) segs))"
  have ns: "\<forall>s \<in> set ?ts. sep \<notin> set s"
    using path_split_no_sep [OF split] set_rtrim set_ltrim set_drop_components by blast
  have "?ts \<noteq> [] \<Longrightarrow> \<not> junk (hd ?ts)"
  proof -
    assume ne: "?ts \<noteq> []"
    let ?l = "ltrim (drop_components (length cs) segs)"
    have "prefix ?ts ?l"
      by (metis rtrim_def rev_rev_ident suffix_dropWhile suffix_to_prefix)
    then obtain zs where "?l = ?ts @ zs" by (auto simp: prefix_def)
    then have "hd ?l = hd (?ts @ zs)" "?l \<noteq> []" using ne by auto
    then have l: "hd ?ts = hd ?l" "?l \<noteq> []" using hd_append2 [OF ne, of zs] by metis+
    have "\<not> junk (hd ?l)" using l(2) unfolding ltrim_def by (rule hd_dropWhile)
    then show ?thesis using l(1) by simp
  qed
  note pr = plain_relative_join [OF this ns]
  show ?thesis
  proof (rule that)
    show "path_strip_prefix p base = Some (join_sep ?ts)"
      using assms(1) split cs by (simp add: path_strip_prefix_def head_components_def)
    show "plain_relative (join_sep ?ts)" by (rule pr(1))
    show "components (join_sep ?ts) = drop (length (components base)) (components p)"
      using split cs pr(2)
      by (simp add: components_def head_components_def map_filter_drop_components)
  qed
qed

section \<open>Parents\<close>

lemma rtrim_prefix: "prefix (rtrim segs) segs"
  by (metis rtrim_def rev_rev_ident suffix_dropWhile suffix_to_prefix)

lemma join_sep_append:
  "xs \<noteq> [] \<Longrightarrow> ys \<noteq> [] \<Longrightarrow> join_sep (xs @ ys) = join_sep xs @ sep # join_sep ys"
  by (induction xs rule: join_sep.induct) (auto simp: join_sep_Cons)

lemma length_join_prefix: "prefix xs ys \<Longrightarrow> length (join_sep xs) \<le> length (join_sep ys)"
proof -
  assume "prefix xs ys"
  then obtain zs where "ys = xs @ zs" by (auto simp: prefix_def)
  then show ?thesis by (cases "xs = []"; cases "zs = []") (simp_all add: join_sep_append)
qed

lemma length_join_prefix_less:
  assumes "prefix xs ys" "ys \<noteq> []" "last ys \<noteq> []" "xs \<noteq> ys"
  shows "length (join_sep xs) < length (join_sep ys)"
proof -
  obtain zs where zs: "ys = xs @ zs" "zs \<noteq> []" using assms by (auto simp: prefix_def)
  show ?thesis
  proof (cases "xs = []")
    case False
    then show ?thesis using zs by (simp add: join_sep_append)
  next
    case True
    have "join_sep zs \<noteq> []"
      using zs(2) assms(3) zs(1) by (cases zs rule: join_sep.cases) auto
    then show ?thesis using True zs by simp
  qed
qed

lemma length_unsplit_less:
  assumes "length (join_sep xs) < length (join_sep ys)"
  shows "length (path_unsplit h xs) < length (path_unsplit h ys)"
  using assms by (cases h) (auto simp: path_unsplit_def)

lemma length_unsplit_prefix:
  assumes "prefix xs ys"
  shows "length (path_unsplit h xs) \<le> length (path_unsplit h ys)"
  using length_join_prefix [OF assms] assms by (cases h) (auto simp: path_unsplit_def)

text \<open>A path with a file name has a parent, and the parent is a shorter byte string.\<close>

lemma pop_file_name:
  assumes "path_file_name p = Some n"
  obtains q where "path_pop p = Some q" "length q < length p"
proof -
  obtain h segs where split: "path_split p = (h, segs)" by (cases "path_split p")
  let ?b = "rtrim segs"
  have ne: "?b \<noteq> []" using assms split by (auto simp: path_file_name_def)
  have last: "last ?b \<noteq> []" using rtrim_last [OF ne] by auto
  have pre: "prefix (rtrim (butlast ?b)) ?b"
    by (meson prefixeq_butlast prefix_order.order_trans rtrim_prefix)
  have "rtrim (butlast ?b) \<noteq> ?b"
  proof
    assume "rtrim (butlast ?b) = ?b"
    then have "length ?b \<le> length (butlast ?b)"
      using prefix_length_le [OF rtrim_prefix [of "butlast ?b"]] by metis
    then show False using length_greater_0_conv [of "?b"] ne unfolding length_butlast by linarith
  qed
  then have "length (join_sep (rtrim (butlast ?b))) < length (join_sep ?b)"
    using length_join_prefix_less pre ne last by blast
  then have "length (path_unsplit h (rtrim (butlast ?b))) < length (path_unsplit h ?b)"
    by (rule length_unsplit_less)
  also have "\<dots> \<le> length (path_unsplit h segs)"
    by (rule length_unsplit_prefix [OF rtrim_prefix])
  also have "\<dots> = length p" using path_unsplit_split [OF split] by simp
  finally show ?thesis using that split ne by (simp add: path_pop_def)
qed

lemma file_name_last:
  assumes "path_split p = (h, segs)" "path_file_name p = Some n"
  shows "rtrim segs \<noteq> []" "body_component (last (rtrim segs)) = Some (Normal n)"
    "last (rtrim segs) = n"
  using assms
  by (auto simp: path_file_name_def body_component_Normal Let_def
      split: if_splits option.splits path_component.splits)

text \<open>On an absolute path, taking the file name and popping undo a push.\<close>

lemma pop_components:
  assumes "is_absolute p" "path_file_name p = Some n" "path_pop p = Some q"
  shows "is_absolute q" "components p = components q @ [Normal n]"
proof -
  obtain segs where split: "path_split p = (Rooted, segs)" using assms(1) is_absolute_iff by blast
  let ?b = "rtrim segs"
  note last = file_name_last [OF split assms(2)]
  have q: "q = sep # join_sep (rtrim (butlast ?b))"
    using assms(3) split last(1) by (simp add: path_pop_def path_unsplit_def)
  then show "is_absolute q" by simp
  have "set (rtrim (butlast ?b)) \<subseteq> set segs"
    by (meson in_set_butlastD set_rtrim subsetD subsetI)
  then have "\<forall>s \<in> set (rtrim (butlast ?b)). sep \<notin> set s"
    using path_split_no_sep [OF split] by blast
  then have cq: "components q = RootDir # List.map_filter body_component (butlast ?b)"
    using q components_Rooted by simp
  have "List.map_filter body_component segs
      = List.map_filter body_component (butlast ?b @ [last ?b])"
    using last(1) by simp
  also have "\<dots> = List.map_filter body_component (butlast ?b) @ [Normal n]"
    using last(2) by (simp only: map_filter_append) (simp add: List.map_filter_simps)
  finally show "components p = components q @ [Normal n]"
    using split cq by (simp add: components_def head_components_def)
qed

lemma file_name_plain:
  assumes "path_file_name p = Some n"
  shows "plain_relative n" "components n = [Normal n]"
proof -
  obtain h segs where split: "path_split p = (h, segs)" by (cases "path_split p")
  note last = file_name_last [OF split assms]
  have "sep \<notin> set n"
    using path_split_no_sep [OF split] last(1,3) last_in_set set_rtrim by blast
  then show "plain_relative n" "components n = [Normal n]"
    using plain_relative_join [of "[n]"] last by (simp_all add: List.map_filter_simps)
qed

section \<open>Text\<close>

lemma utf8_valid_sep: "utf8_valid (a @ sep # b) \<longleftrightarrow> utf8_valid a \<and> utf8_valid b"
proof
  assume "utf8_valid (a @ sep # b)"
  then show "utf8_valid a \<and> utf8_valid b" using utf8_valid_split [of a sep b] by simp
next
  assume "utf8_valid a \<and> utf8_valid b"
  moreover have "utf8_valid (sep # b) = utf8_valid b" by (simp add: utf8_next_ascii)
  ultimately show "utf8_valid (a @ sep # b)" using utf8_valid_append by blast
qed

lemma utf8_valid_join: "utf8_valid (join_sep ss) \<longleftrightarrow> (\<forall>s \<in> set ss. utf8_valid s)"
  by (induction ss rule: join_sep.induct) (auto simp: utf8_valid_sep)

text \<open>Stripping and pushing keep a path well-formed text.\<close>

lemma strip_prefix_utf8:
  assumes "path_strip_prefix p base = Some q" "is_absolute p" "is_absolute base" "utf8_valid p"
  shows "utf8_valid q"
proof -
  obtain segs where split: "path_split p = (Rooted, segs)"
    using assms(2) is_absolute_iff by blast
  then have "p = [] @ sep # join_sep segs"
    using path_unsplit_split [OF split] by (simp add: path_unsplit_def)
  then have "utf8_valid (join_sep segs)" using assms(4) utf8_valid_sep by metis
  then have segs: "\<forall>s \<in> set segs. utf8_valid s" by (simp add: utf8_valid_join)
  obtain cs where "components base = RootDir # cs"
    using assms(3) by (rule absolute_components)
  then have "q = join_sep (rtrim (ltrim (drop_components (length cs) segs)))"
    using assms(1) split by (simp add: path_strip_prefix_def head_components_def split: if_splits)
  moreover have "set (rtrim (ltrim (drop_components (length cs) segs))) \<subseteq> set segs"
    using set_rtrim set_ltrim set_drop_components by (metis subset_trans)
  ultimately show ?thesis using segs by (auto simp: utf8_valid_join)
qed

lemma path_push_utf8: "utf8_valid p \<Longrightarrow> utf8_valid q \<Longrightarrow> utf8_valid (path_push p q)"
  by (simp add: path_push_def utf8_valid_sep utf8_valid_append)

end
