(* ===== verification/Capability.thy ===== *)
theory Capability
  imports Rust_Path
begin

text \<open>
  \<open>capability.rs\<close>: the authority granted to one session.  Records and datatypes are the
  structs and enums of the file; the builder methods that take \<open>self\<close> by value return the
  new grant, or the error they refuse with.  \<open>fs::canonicalize\<close> asks the operating system,
  so it is an argument \<open>canonicalize :: path \<Rightarrow> path option\<close> of the definitions that call
  it, with \<open>None\<close> for any I/O error.
\<close>

section \<open>Data\<close>

datatype capability_error =
    InvalidPath path
  | InvalidLimit string
  | InvalidEnvironmentName string
  | InvalidLoopbackPort u16

datatype filesystem_access = Read | ReadWrite

record filesystem_grant =
  fg_root :: path
  fg_access :: filesystem_access

record resource_limits =
  rl_max_output_bytes :: usize
  rl_timeout_seconds :: u64
  rl_max_memory_bytes :: usize
  rl_max_fuel :: u64

record capability_grant =
  cg_filesystems :: "filesystem_grant list"
  cg_environment :: "string fset"
  cg_loopback_ports :: "u16 fset"
  cg_loopback_bind_ports :: "u16 fset"
  cg_native_execution :: bool
  cg_limits :: resource_limits

section \<open>Paths\<close>

definition is_safe_absolute_path :: "path \<Rightarrow> bool" where
  "is_safe_absolute_path p =
     (is_absolute p \<and> list_all (\<lambda>c. \<not> (c = ParentDir \<or> c = CurDir)) (components p))"

definition validate_path :: "path \<Rightarrow> capability_error + unit" where
  "validate_path p = (if \<not> is_safe_absolute_path p then Err (InvalidPath p) else Ok ())"

definition filesystem_grant_new ::
    "path \<Rightarrow> filesystem_access \<Rightarrow> capability_error + filesystem_grant" where
  "filesystem_grant_new root access = (case validate_path root of
     Inl e \<Rightarrow> Err e
   | Inr _ \<Rightarrow> Ok \<lparr>fg_root = root, fg_access = access\<rparr>)"

definition fg_allows :: "filesystem_grant \<Rightarrow> path \<Rightarrow> bool" where
  "fg_allows g p = (is_safe_absolute_path p \<and> path_starts_with p (fg_root g))"

definition guest_path_for :: "filesystem_grant \<Rightarrow> path \<Rightarrow> string \<Rightarrow> string option" where
  "guest_path_for g p guest_root =
     (if \<not> fg_allows g p then None
      else (case path_strip_prefix p (fg_root g) of
        None \<Rightarrow> None
      | Some relative \<Rightarrow>
          to_str (if relative = '''' then guest_root else path_push guest_root relative)))"

section \<open>Resource limits\<close>

definition DEFAULT_LIMITS :: resource_limits where
  "DEFAULT_LIMITS = \<lparr>
     rl_max_output_bytes = 1048576,
     rl_timeout_seconds = 30,
     rl_max_memory_bytes = 64 * 1024 * 1024,
     rl_max_fuel = 1000000\<rparr>"

definition limits_new :: "usize \<Rightarrow> u64 \<Rightarrow> capability_error + resource_limits" where
  "limits_new max_output timeout =
     (if max_output = 0 then Err (InvalidLimit ''max_output_bytes'')
      else if timeout = 0 then Err (InvalidLimit ''timeout_seconds'')
      else Ok \<lparr>
        rl_max_output_bytes = max_output,
        rl_timeout_seconds = timeout,
        rl_max_memory_bytes = rl_max_memory_bytes DEFAULT_LIMITS,
        rl_max_fuel = rl_max_fuel DEFAULT_LIMITS\<rparr>)"

definition with_fuel :: "resource_limits \<Rightarrow> u64 \<Rightarrow> capability_error + resource_limits" where
  "with_fuel l fuel =
     (if fuel = 0 then Err (InvalidLimit ''max_fuel'') else Ok (l\<lparr>rl_max_fuel := fuel\<rparr>))"

definition with_unlimited_fuel :: "resource_limits \<Rightarrow> resource_limits" where
  "with_unlimited_fuel l = l\<lparr>rl_max_fuel := u64_max\<rparr>"

definition with_memory_bytes ::
    "resource_limits \<Rightarrow> usize \<Rightarrow> capability_error + resource_limits" where
  "with_memory_bytes l n =
     (if n = 0 then Err (InvalidLimit ''max_memory_bytes'')
      else Ok (l\<lparr>rl_max_memory_bytes := n\<rparr>))"

section \<open>Grants\<close>

definition grant_empty :: capability_grant where
  "grant_empty = \<lparr>
     cg_filesystems = [],
     cg_environment = {||},
     cg_loopback_ports = {||},
     cg_loopback_bind_ports = {||},
     cg_native_execution = False,
     cg_limits = DEFAULT_LIMITS\<rparr>"

definition grant_workspace ::
    "path \<Rightarrow> filesystem_access \<Rightarrow> capability_error + capability_grant" where
  "grant_workspace root access = (case filesystem_grant_new root access of
     Inl e \<Rightarrow> Err e
   | Inr fs \<Rightarrow> Ok (grant_empty\<lparr>cg_filesystems := cg_filesystems grant_empty @ [fs]\<rparr>))"

definition allow_environment ::
    "capability_grant \<Rightarrow> string \<Rightarrow> capability_error + capability_grant" where
  "allow_environment g name =
     (if name = '''' \<or> CHR ''='' \<in> set name
         \<or> list_ex (\<lambda>c. c = 0 \<or> is_whitespace c) (chars name)
      then Err (InvalidEnvironmentName name)
      else Ok (g\<lparr>cg_environment := finsert name (cg_environment g)\<rparr>))"

definition allow_loopback_port ::
    "capability_grant \<Rightarrow> u16 \<Rightarrow> capability_error + capability_grant" where
  "allow_loopback_port g port =
     (if port = 0 then Err (InvalidLoopbackPort port)
      else Ok (g\<lparr>cg_loopback_ports := finsert port (cg_loopback_ports g)\<rparr>))"

definition allow_loopback_bind_port ::
    "capability_grant \<Rightarrow> u16 \<Rightarrow> capability_error + capability_grant" where
  "allow_loopback_bind_port g port =
     (if port = 0 then Err (InvalidLoopbackPort port)
      else Ok (g\<lparr>cg_loopback_bind_ports := finsert port (cg_loopback_bind_ports g)\<rparr>))"

definition allow_native_execution :: "capability_grant \<Rightarrow> capability_grant" where
  "allow_native_execution g = g\<lparr>cg_native_execution := True\<rparr>"

definition with_limits :: "capability_grant \<Rightarrow> resource_limits \<Rightarrow> capability_grant" where
  "with_limits g l = g\<lparr>cg_limits := l\<rparr>"

definition allows_path :: "capability_grant \<Rightarrow> path \<Rightarrow> bool" where
  "allows_path g p = list_ex (\<lambda>fs. fg_allows fs p) (cg_filesystems g)"

text \<open>
  The loop of \<open>canonicalize_with_existing_parent\<close>: \<open>current\<close> is climbed until the
  operating system resolves it; \<open>names\<close> holds the suffix, the names removed, deepest first.
\<close>

function canonicalize_loop ::
    "(path \<Rightarrow> path option) \<Rightarrow> path \<Rightarrow> path list \<Rightarrow> path option" where
  "canonicalize_loop canonicalize current names =
     (case canonicalize current of
        Some resolved \<Rightarrow> Some (fold (\<lambda>c r. path_push r c) (rev names) resolved)
      | None \<Rightarrow>
          (case path_file_name current of
             None \<Rightarrow> None
           | Some file_name \<Rightarrow>
               (case path_pop current of
                  None \<Rightarrow> None
                | Some parent \<Rightarrow> canonicalize_loop canonicalize parent (names @ [file_name]))))"
  by pat_completeness auto
termination
  by (relation "measure (\<lambda>(_, current, _). length current)")
    (auto elim!: pop_file_name)

declare canonicalize_loop.simps [simp del]

definition canonicalize_with_existing_parent ::
    "(path \<Rightarrow> path option) \<Rightarrow> path \<Rightarrow> path option" where
  "canonicalize_with_existing_parent canonicalize p = canonicalize_loop canonicalize p []"

text \<open>The accessors through which the other modules read the three types.\<close>

definition fs_root :: "filesystem_grant \<Rightarrow> path" where
  [simp]: "fs_root fs = fg_root fs"

definition fs_access :: "filesystem_grant \<Rightarrow> filesystem_access" where
  [simp]: "fs_access fs = fg_access fs"

definition limits_max_output_bytes :: "resource_limits \<Rightarrow> usize" where
  [simp]: "limits_max_output_bytes l = rl_max_output_bytes l"

definition limits_timeout_seconds :: "resource_limits \<Rightarrow> u64" where
  [simp]: "limits_timeout_seconds l = rl_timeout_seconds l"

definition limits_max_fuel :: "resource_limits \<Rightarrow> u64" where
  [simp]: "limits_max_fuel l = rl_max_fuel l"

definition limits_max_memory_bytes :: "resource_limits \<Rightarrow> usize" where
  [simp]: "limits_max_memory_bytes l = rl_max_memory_bytes l"

definition filesystem_grants :: "capability_grant \<Rightarrow> filesystem_grant list" where
  [simp]: "filesystem_grants g = cg_filesystems g"

definition loopback_ports :: "capability_grant \<Rightarrow> u16 fset" where
  [simp]: "loopback_ports g = cg_loopback_ports g"

definition loopback_bind_ports :: "capability_grant \<Rightarrow> u16 fset" where
  [simp]: "loopback_bind_ports g = cg_loopback_bind_ports g"

definition grant_limits :: "capability_grant \<Rightarrow> resource_limits" where
  [simp]: "grant_limits g = cg_limits g"

definition allows_existing_path ::
    "(path \<Rightarrow> path option) \<Rightarrow> capability_grant \<Rightarrow> path \<Rightarrow> bool" where
  "allows_existing_path canonicalize g p =
     (if \<not> allows_path g p then False
      else (case canonicalize_with_existing_parent canonicalize p of
        None \<Rightarrow> False
      | Some resolved_path \<Rightarrow>
          list_ex (\<lambda>fs. case canonicalize (fs_root fs) of
              None \<Rightarrow> False
            | Some resolved_root \<Rightarrow> path_starts_with resolved_path resolved_root)
            (cg_filesystems g)))"

definition allows_environment :: "capability_grant \<Rightarrow> string \<Rightarrow> bool" where
  "allows_environment g name = (name |\<in>| cg_environment g)"

definition environment_names :: "capability_grant \<Rightarrow> string list" where
  "environment_names g = btree_iter (cg_environment g)"

definition allows_loopback_port :: "capability_grant \<Rightarrow> u16 \<Rightarrow> bool" where
  "allows_loopback_port g port = (port |\<in>| cg_loopback_ports g)"

definition allows_loopback_bind_port :: "capability_grant \<Rightarrow> u16 \<Rightarrow> bool" where
  "allows_loopback_bind_port g port = (port |\<in>| cg_loopback_bind_ports g)"

definition allows_native_execution :: "capability_grant \<Rightarrow> bool" where
  "allows_native_execution g = cg_native_execution g"

section \<open>Safe paths\<close>

named_theorems capability_defs \<open>definitions of the builder methods\<close>

lemmas [capability_defs] =
  validate_path_def filesystem_grant_new_def limits_new_def with_fuel_def with_unlimited_fuel_def
  with_memory_bytes_def grant_workspace_def allow_environment_def allow_loopback_port_def
  allow_loopback_bind_port_def allow_native_execution_def with_limits_def

lemma is_safe_absolute_path_iff:
  "is_safe_absolute_path p \<longleftrightarrow> is_absolute p \<and> ParentDir \<notin> set (components p)"
  by (auto simp: is_safe_absolute_path_def list_all_iff dest: absolute_no_curdir)

lemma safe_components:
  assumes "is_safe_absolute_path p"
  obtains names where "components p = RootDir # map Normal names"
proof -
  obtain cs where cs: "components p = RootDir # cs" "RootDir \<notin> set cs" "CurDir \<notin> set cs"
    using assms absolute_components is_safe_absolute_path_iff by metis
  moreover have "ParentDir \<notin> set cs" using assms cs is_safe_absolute_path_iff by simp
  ultimately have "\<forall>c \<in> set cs. \<exists>n. c = Normal n" by (metis path_component.exhaust)
  then obtain names where "cs = map Normal names" by (metis ex_map_conv)
  with cs that show ?thesis by blast
qed

lemma safe_below:
  assumes "is_safe_absolute_path p" "is_safe_absolute_path root"
    "prefix (components root) (components p)"
  obtains names where "components p = components root @ map Normal names"
proof -
  obtain ps where ps: "components p = RootDir # map Normal ps"
    using assms(1) by (rule safe_components)
  obtain rs where rs: "components root = RootDir # map Normal rs"
    using assms(2) by (rule safe_components)
  have "prefix (map Normal rs) (map Normal ps)" using assms(3) ps rs by simp
  then obtain zs where "map Normal ps = map Normal rs @ zs" by (auto simp: prefix_def)
  then have "map Normal ps = map Normal rs @ map Normal (drop (length rs) ps)"
    by (metis append_take_drop_id append_same_eq append_eq_conv_conj drop_map length_map)
  then show ?thesis using that ps rs by auto
qed

lemma fg_allows_below:
  assumes "fg_allows fs p" "is_safe_absolute_path (fg_root fs)"
  obtains names where "components p = components (fg_root fs) @ map Normal names"
  using assms safe_below unfolding fg_allows_def path_starts_with_def by metis

lemma filesystem_grant_new_Inr:
  "filesystem_grant_new root access = Inr fs
     \<longleftrightarrow> is_safe_absolute_path root \<and> fs = \<lparr>fg_root = root, fg_access = access\<rparr>"
  by (auto simp: capability_defs)

lemma grant_workspace_Inr:
  "grant_workspace root access = Inr g
     \<longleftrightarrow> is_safe_absolute_path root
       \<and> g = grant_empty\<lparr>cg_filesystems := [\<lparr>fg_root = root, fg_access = access\<rparr>]\<rparr>"
  by (auto simp: capability_defs grant_empty_def)

section \<open>What the public constructors can build\<close>

text \<open>
  The fields of these structs are private: a value exists only if a constructor or a
  builder method returned it.
\<close>

inductive limits_built :: "resource_limits \<Rightarrow> bool" where
  new: "limits_new n t = Inr l \<Longrightarrow> limits_built l"
| fuel: "limits_built l \<Longrightarrow> with_fuel l f = Inr l' \<Longrightarrow> limits_built l'"
| unlimited: "limits_built l \<Longrightarrow> limits_built (with_unlimited_fuel l)"
| memory: "limits_built l \<Longrightarrow> with_memory_bytes l n = Inr l' \<Longrightarrow> limits_built l'"

inductive grant_built :: "capability_grant \<Rightarrow> bool" where
  empty: "grant_built grant_empty"
| workspace: "grant_workspace root access = Inr g \<Longrightarrow> grant_built g"
| env: "grant_built g \<Longrightarrow> allow_environment g name = Inr g' \<Longrightarrow> grant_built g'"
| connect: "grant_built g \<Longrightarrow> allow_loopback_port g port = Inr g' \<Longrightarrow> grant_built g'"
| bind: "grant_built g \<Longrightarrow> allow_loopback_bind_port g port = Inr g' \<Longrightarrow> grant_built g'"
| native: "grant_built g \<Longrightarrow> grant_built (allow_native_execution g)"
| limits: "grant_built g \<Longrightarrow> limits_built l \<Longrightarrow> grant_built (with_limits g l)"

definition limits_wf :: "resource_limits \<Rightarrow> bool" where
  "limits_wf l = (rl_max_output_bytes l \<noteq> 0 \<and> rl_timeout_seconds l \<noteq> 0
     \<and> rl_max_memory_bytes l \<noteq> 0 \<and> rl_max_fuel l \<noteq> 0)"

definition env_name_ok :: "string \<Rightarrow> bool" where
  "env_name_ok name = (name \<noteq> '''' \<and> CHR ''='' \<notin> set name \<and> CHR 0x00 \<notin> set name
     \<and> list_all (\<lambda>c. \<not> is_whitespace c) (chars name))"

definition grant_wf :: "capability_grant \<Rightarrow> bool" where
  "grant_wf g =
     (list_all (\<lambda>fs. is_safe_absolute_path (fg_root fs)) (cg_filesystems g)
      \<and> length (cg_filesystems g) \<le> 1
      \<and> fBall (cg_environment g) env_name_ok
      \<and> 0 |\<notin>| cg_loopback_ports g \<and> 0 |\<notin>| cg_loopback_bind_ports g
      \<and> limits_wf (cg_limits g))"

lemma of_char_zero_iff: "(of_char c :: nat) = 0 \<longleftrightarrow> c = CHR 0x00"
  using of_char_eq_iff [of c "CHR 0x00", where 'a = nat] by simp

lemma allow_environment_Inr:
  "allow_environment g name = Inr g'
     \<longleftrightarrow> env_name_ok name \<and> g' = g\<lparr>cg_environment := finsert name (cg_environment g)\<rparr>"
proof -
  have "0 \<in> set (chars name) \<longleftrightarrow> CHR 0x00 \<in> set name"
    using chars_ascii_iff [of 0 name] of_char_zero_iff by auto
  then show ?thesis
    by (auto simp: capability_defs env_name_ok_def list_ex_iff list_all_iff)
qed

lemma limits_built_wf: "limits_built l \<Longrightarrow> limits_wf l"
  by (induction rule: limits_built.induct)
    (auto simp: capability_defs limits_wf_def DEFAULT_LIMITS_def u64_max_def split: if_splits)

lemma limits_wf_default: "limits_wf DEFAULT_LIMITS"
  by (simp add: limits_wf_def DEFAULT_LIMITS_def)

lemma grant_built_wf_lemma: "grant_built g \<Longrightarrow> grant_wf g"
proof (induction rule: grant_built.induct)
  case empty
  then show ?case by (simp add: grant_wf_def grant_empty_def limits_wf_default)
next
  case (workspace root access g)
  then show ?case
    by (simp add: grant_workspace_Inr grant_wf_def grant_empty_def limits_wf_default)
next
  case (env g name g')
  then show ?case by (auto simp: allow_environment_Inr grant_wf_def)
next
  case (limits g l)
  then show ?case by (simp add: grant_wf_def capability_defs limits_built_wf)
qed (auto simp: capability_defs grant_wf_def split: if_splits)

section \<open>Climbing to an existing ancestor\<close>

text \<open>The \<open>k\<close>-th ancestor of a path, and the names pushed back below a resolved one.\<close>

fun climb :: "nat \<Rightarrow> path \<Rightarrow> path option" where
  "climb 0 p = Some p"
| "climb (Suc k) p = Option.bind (path_pop p) (climb k)"

definition push_names :: "path \<Rightarrow> string list \<Rightarrow> path" where
  "push_names p names = fold (\<lambda>c r. path_push r c) names p"

text \<open>
  The result of climbing: the nearest ancestor that resolves, its resolution, and the
  names of the path below it.
\<close>

definition nearest_existing ::
    "(path \<Rightarrow> path option) \<Rightarrow> path \<Rightarrow> nat \<Rightarrow> path \<Rightarrow> path \<Rightarrow> string list \<Rightarrow> bool" where
  "nearest_existing canonicalize p k anc resolved names =
     (climb k p = Some anc \<and> canonicalize anc = Some resolved
      \<and> (\<forall>j<k. \<forall>q. climb j p = Some q \<longrightarrow> canonicalize q = None)
      \<and> length names = k \<and> components p = components anc @ map Normal names
      \<and> list_all (\<lambda>n. plain_relative n \<and> components n = [Normal n]) names)"

lemma push_names_append: "push_names (push_names p xs) ys = push_names p (xs @ ys)"
  by (simp add: push_names_def)

lemma path_push_not_Nil: "p \<noteq> [] \<Longrightarrow> plain_relative q \<Longrightarrow> path_push p q \<noteq> []"
  by (simp add: path_push_def plain_relative_not_absolute)

lemma push_names_components:
  "p \<noteq> [] \<Longrightarrow> list_all (\<lambda>n. plain_relative n \<and> components n = [Normal n]) names
     \<Longrightarrow> components (push_names p names) = components p @ map Normal names"
proof (induction names arbitrary: p)
  case (Cons n names)
  then show ?case
    using Cons.IH [of "path_push p n"]
    by (simp add: push_names_def components_push path_push_not_Nil)
qed (simp add: push_names_def)

lemma canonicalize_loop_unfold:
  "canonicalize_loop canonicalize current names =
     (case canonicalize current of
        Some resolved \<Rightarrow> Some (push_names resolved (rev names))
      | None \<Rightarrow>
          (case path_file_name current of
             None \<Rightarrow> None
           | Some n \<Rightarrow>
               (case path_pop current of
                  None \<Rightarrow> None
                | Some parent \<Rightarrow> canonicalize_loop canonicalize parent (names @ [n]))))"
  unfolding push_names_def by (rule canonicalize_loop.simps)

text \<open>A safe path without a file name is the root, which has no parent.\<close>

lemma safe_no_file_name:
  assumes "is_safe_absolute_path p" "path_file_name p = None"
  shows "path_pop p = None"
proof -
  obtain segs where split: "path_split p = (Rooted, segs)"
    using assms is_safe_absolute_path_iff is_absolute_iff by blast
  have "rtrim segs = []"
  proof (rule ccontr)
    assume ne: "rtrim segs \<noteq> []"
    then obtain c where c: "body_component (last (rtrim segs)) = Some c"
      using rtrim_last by blast
    moreover have "last (rtrim segs) \<in> set segs" using ne last_in_set set_rtrim by blast
    ultimately have "c \<in> set (components p)"
      using split by (auto simp: components_def set_map_filter)
    then have "c = Normal (last (rtrim segs))"
      using c body_component_cases assms(1) is_safe_absolute_path_iff by blast
    then show False using c ne split assms(2) by (simp add: path_file_name_def)
  qed
  then show ?thesis using split by (simp add: path_pop_def)
qed

lemma nearest_existing_0:
  "canonicalize p = Some c \<Longrightarrow> nearest_existing canonicalize p 0 p c []"
  by (simp add: nearest_existing_def)

lemma nearest_existing_Suc:
  assumes "canonicalize p = None" "path_pop p = Some q" "path_file_name p = Some n"
    "components p = components q @ [Normal n]" "nearest_existing canonicalize q k anc c names"
  shows "nearest_existing canonicalize p (Suc k) anc c (names @ [n])"
  using assms file_name_plain [OF assms(3)]
  by (auto simp: nearest_existing_def less_Suc_eq_0_disj)

lemma canonicalize_loop_spec:
  assumes "is_safe_absolute_path current"
  shows "case canonicalize_loop canonicalize current names of
      None \<Rightarrow> \<forall>k q. climb k current = Some q \<longrightarrow> canonicalize q = None
    | Some r \<Rightarrow> \<exists>k anc c ns. nearest_existing canonicalize current k anc c ns
                  \<and> r = push_names c (ns @ rev names)"
  using assms
proof (induction canonicalize current names rule: canonicalize_loop.induct)
  case (1 canonicalize current names)
  obtain segs where abs: "is_absolute current" "path_split current = (Rooted, segs)"
    using "1.prems" is_safe_absolute_path_iff is_absolute_iff by blast
  show ?case
  proof (cases "canonicalize current")
    case (Some c)
    then show ?thesis
      using nearest_existing_0 [of canonicalize current c]
      by (subst canonicalize_loop_unfold) fastforce
  next
    case None
    show ?thesis
    proof (cases "path_file_name current")
      case fn: None
      have "path_pop current = None"
        using "1.prems" fn by (rule safe_no_file_name)
      then have "climb k current = Some q \<Longrightarrow> canonicalize q = None" for k q
        using None by (cases k) auto
      then show ?thesis using None fn by (subst canonicalize_loop_unfold) simp
    next
      case (Some n)
      then obtain q where q: "path_pop current = Some q" using pop_file_name by metis
      have comps: "is_absolute q" "components current = components q @ [Normal n]"
        using pop_components [OF abs(1) Some q] by auto
      then have "is_safe_absolute_path q"
        using "1.prems" is_safe_absolute_path_iff by auto
      note IH = "1.IH" [OF None Some q this]
      show ?thesis
      proof (cases "canonicalize_loop canonicalize q (names @ [n])")
        case r: None
        then have "climb k current = Some p \<Longrightarrow> canonicalize p = None" for k p
          using IH None q by (cases k) auto
        then show ?thesis using None Some q r by (subst canonicalize_loop_unfold) simp
      next
        case r: (Some r)
        then obtain k anc c ns where
          "nearest_existing canonicalize q k anc c ns" "r = push_names c (ns @ rev (names @ [n]))"
          using IH by auto
        then have "nearest_existing canonicalize current (Suc k) anc c (ns @ [n])
            \<and> r = push_names c ((ns @ [n]) @ rev names)"
          using nearest_existing_Suc [of canonicalize current q n k anc c ns] None q Some comps(2)
          by simp
        then show ?thesis using None Some q r by (subst canonicalize_loop_unfold) force
      qed
    qed
  qed
qed

section \<open>Lookups on a grant\<close>

lemma allows_path_iff: "allows_path g p \<longleftrightarrow> (\<exists>fs \<in> set (cg_filesystems g). fg_allows fs p)"
  by (simp add: allows_path_def list_ex_iff)

lemma allows_path_safe: "allows_path g p \<Longrightarrow> is_safe_absolute_path p"
  by (auto simp: allows_path_iff fg_allows_def)

lemma grant_wf_root: "grant_wf g \<Longrightarrow> fs \<in> set (cg_filesystems g) \<Longrightarrow> is_safe_absolute_path (fg_root fs)"
  by (simp add: grant_wf_def list_all_iff)

lemma allows_existing_path_iff:
  "allows_existing_path canonicalize g p \<longleftrightarrow>
     allows_path g p
     \<and> (\<exists>r. canonicalize_with_existing_parent canonicalize p = Some r
         \<and> (\<exists>fs \<in> set (cg_filesystems g). \<exists>rr. canonicalize (fg_root fs) = Some rr
               \<and> path_starts_with r rr))"
  by (auto simp: allows_existing_path_def list_ex_iff split: option.splits)

lemma nearest_existing_components:
  assumes "nearest_existing canonicalize p k anc c names" "c \<noteq> []"
  shows "components (push_names c names) = components c @ map Normal names"
  using assms push_names_components unfolding nearest_existing_def by blast

lemma canonicalize_with_existing_parent_Some:
  assumes "is_safe_absolute_path p" "canonicalize_with_existing_parent canonicalize p = Some r"
  obtains k anc c names where "nearest_existing canonicalize p k anc c names"
    "r = push_names c names"
  using canonicalize_loop_spec [OF assms(1), of canonicalize "[]"] assms(2)
  by (auto simp: canonicalize_with_existing_parent_def)

lemma guest_path_for_Some:
  assumes "guest_path_for fs p guest_root = Some g" "is_safe_absolute_path (fg_root fs)"
    "guest_root \<noteq> ''''"
  obtains names where "components p = components (fg_root fs) @ map Normal names"
    "components g = components guest_root @ map Normal names"
proof -
  have allows: "fg_allows fs p" using assms(1) by (simp add: guest_path_for_def split: if_splits)
  obtain names where names: "components p = components (fg_root fs) @ map Normal names"
    using allows assms(2) by (rule fg_allows_below)
  obtain q where q: "path_strip_prefix p (fg_root fs) = Some q" "plain_relative q"
    "components q = drop (length (components (fg_root fs))) (components p)"
    using allows assms(2) unfolding fg_allows_def is_safe_absolute_path_iff
    by (metis strip_prefix_absolute)
  have "g = (if q = '''' then guest_root else path_push guest_root q)"
    using assms(1) allows q(1) by (auto simp: guest_path_for_def to_str_def split: if_splits)
  moreover have "components '''' = []"
    by (simp add: components_def path_split_def head_components_def List.map_filter_simps)
  ultimately have "components g = components guest_root @ map Normal names"
    using q names components_push [OF assms(3) q(2)] by auto
  with names that show ?thesis by blast
qed

lemma guest_path_for_utf8:
  assumes "fg_allows fs p" "is_safe_absolute_path (fg_root fs)" "utf8_valid p"
    "utf8_valid guest_root"
  shows "\<exists>g. guest_path_for fs p guest_root = Some g"
proof -
  have "is_absolute p" "is_absolute (fg_root fs)"
    using assms(1,2) by (auto simp: fg_allows_def is_safe_absolute_path_iff)
  moreover obtain q where "path_strip_prefix p (fg_root fs) = Some q"
    using assms(1,2) unfolding fg_allows_def is_safe_absolute_path_iff
    by (metis strip_prefix_absolute)
  ultimately show ?thesis
    using assms strip_prefix_utf8 path_push_utf8 by (simp add: guest_path_for_def to_str_def)
qed

section \<open>Properties\<close>

text \<open>
  C40. Every grant the public constructors and builder methods can produce is well formed:
  its roots are absolute and free of \<open>..\<close>, there is at most one root, every allowlisted
  environment name is a possible one, port 0 is on neither allowlist, and no limit is zero.
\<close>

theorem grant_built_well_formed: "grant_built g \<Longrightarrow> grant_wf g"
  by (rule grant_built_wf_lemma)

theorem grant_built_well_formed_witness:
  "grant_wf (allow_native_execution
     (grant_empty\<lparr>cg_filesystems := [\<lparr>fg_root = ''/ws'', fg_access = ReadWrite\<rparr>]\<rparr>))"
  (is "grant_wf (allow_native_execution ?g)")
proof (rule grant_built_well_formed [OF grant_built.native])
  have "is_safe_absolute_path ''/ws''" by code_simp
  then have "grant_workspace ''/ws'' ReadWrite = Inr ?g" by (simp add: grant_workspace_Inr)
  then show "grant_built ?g" by (rule grant_built.workspace)
qed

text \<open>
  No path escapes lexically: a path a built grant allows consists of the components of
  one granted root followed by ordinary names only, so neither a sibling directory whose
  name extends the root's nor a \<open>..\<close> segment can pass.
\<close>

theorem allows_path_confined:
  assumes "grant_built g" and "allows_path g p"
  shows "\<exists>fs \<in> set (cg_filesystems g). \<exists>names.
           components p = components (fg_root fs) @ map Normal names"
  using assms(2) fg_allows_below grant_wf_root [OF grant_built_wf_lemma [OF assms(1)]]
  unfolding allows_path_iff by metis

theorem allows_path_confined_witness:
  "\<exists>fs \<in> set [\<lparr>fg_root = ''/ws'', fg_access = Read\<rparr>]. \<exists>names.
     components ''/ws/./src//a'' = components (fg_root fs) @ map Normal names"
proof -
  let ?g = "grant_empty\<lparr>cg_filesystems := [\<lparr>fg_root = ''/ws'', fg_access = Read\<rparr>]\<rparr>"
  have "is_safe_absolute_path ''/ws''" by code_simp
  then have "grant_workspace ''/ws'' Read = Inr ?g" by (simp add: grant_workspace_Inr)
  then have "grant_built ?g" by (rule grant_built.workspace)
  moreover have "allows_path ?g ''/ws/./src//a''" by code_simp
  ultimately show ?thesis using allows_path_confined [of ?g "''/ws/./src//a''"] by simp
qed

text \<open>
  \<open>canonicalize_with_existing_parent\<close> finds the nearest ancestor that exists: on a safe
  absolute path the result is the resolution of the first path on the way up that resolves,
  with the names below it pushed back in order, and there is no result exactly when nothing
  on the way up resolves.
\<close>

theorem canonicalize_nearest_ancestor:
  assumes "is_safe_absolute_path p"
  shows "case canonicalize_with_existing_parent canonicalize p of
      None \<Rightarrow> \<forall>k q. climb k p = Some q \<longrightarrow> canonicalize q = None
    | Some r \<Rightarrow> \<exists>k anc c names. nearest_existing canonicalize p k anc c names
                  \<and> r = push_names c names"
  using canonicalize_loop_spec [OF assms, of canonicalize "[]"]
  by (simp add: canonicalize_with_existing_parent_def split: option.splits)

theorem canonicalize_nearest_ancestor_witness:
  "\<exists>k anc c names. nearest_existing (\<lambda>p. if p = ''/ws/link'' then Some ''/out'' else None)
      ''/ws/link/new'' k anc c names
    \<and> ''/out/new'' = push_names c names"
proof -
  let ?f = "\<lambda>p. if p = ''/ws/link'' then Some ''/out'' else None"
  have "is_safe_absolute_path ''/ws/link/new''" by code_simp
  moreover have "canonicalize_with_existing_parent ?f ''/ws/link/new'' = Some ''/out/new''"
    by code_simp
  ultimately show ?thesis
    using canonicalize_nearest_ancestor [of "''/ws/link/new''" ?f] by simp
qed

text \<open>
  C18. The symlink-resolving check confines an existing path.  If the operating system only
  returns absolute paths, a path the check accepts is allowed lexically, its nearest
  existing ancestor resolves to some \<open>c\<close>, and \<open>c\<close> with the remaining names lies below the
  resolution of a granted root; a grant none of whose roots resolves accepts nothing.
\<close>

theorem allows_existing_path_confined:
  assumes "\<forall>q r. canonicalize q = Some r \<longrightarrow> is_absolute r"
    and "allows_existing_path canonicalize g p"
  shows "allows_path g p \<and>
    (\<exists>fs \<in> set (cg_filesystems g). \<exists>root k anc c names.
        canonicalize (fg_root fs) = Some root
        \<and> nearest_existing canonicalize p k anc c names
        \<and> prefix (components root) (components c @ map Normal names))"
proof -
  obtain r fs root where r: "allows_path g p"
    "canonicalize_with_existing_parent canonicalize p = Some r"
    "fs \<in> set (cg_filesystems g)" "canonicalize (fg_root fs) = Some root"
    "path_starts_with r root"
    using assms(2) allows_existing_path_iff by blast
  obtain k anc c names where n: "nearest_existing canonicalize p k anc c names"
    "r = push_names c names"
    using canonicalize_with_existing_parent_Some [OF allows_path_safe [OF r(1)] r(2)] by metis
  then have "c \<noteq> []" using assms(1) not_absolute_Nil unfolding nearest_existing_def by metis
  then have "prefix (components root) (components c @ map Normal names)"
    using nearest_existing_components [OF n(1)] n(2) r(5) by (simp add: path_starts_with_def)
  with r n show ?thesis by blast
qed

theorem allows_existing_path_confined_witness:
  "allows_existing_path (\<lambda>p. if p = ''/ws'' then Some ''/real'' else
        if p = ''/ws/link'' then Some ''/out'' else None)
      (grant_empty\<lparr>cg_filesystems := [\<lparr>fg_root = ''/ws'', fg_access = Read\<rparr>]\<rparr>)
      ''/ws/link/secret'' = False
   \<and> (\<exists>root k anc c names.
        nearest_existing (\<lambda>p. if p = ''/ws'' then Some ''/real'' else
          if p = ''/ws/link'' then Some ''/out'' else None) ''/ws/src/a'' k anc c names
        \<and> prefix (components root) (components c @ map Normal names))"
proof
  let ?f = "\<lambda>p. if p = ''/ws'' then Some ''/real'' else
        if p = ''/ws/link'' then Some ''/out'' else None"
  let ?g = "grant_empty\<lparr>cg_filesystems := [\<lparr>fg_root = ''/ws'', fg_access = Read\<rparr>]\<rparr>"
  show "allows_existing_path ?f ?g ''/ws/link/secret'' = False" by code_simp
  have "\<forall>q r. ?f q = Some r \<longrightarrow> is_absolute r" by (simp add: is_absolute_def)
  moreover have "allows_existing_path ?f ?g ''/ws/src/a''" by code_simp
  ultimately show "\<exists>root k anc c names. nearest_existing ?f ''/ws/src/a'' k anc c names
        \<and> prefix (components root) (components c @ map Normal names)"
    using allows_existing_path_confined [of ?f ?g "''/ws/src/a''"] by blast
qed

text \<open>
  The guest sees a granted host path at the same place below its guest root: for a path
  that is well-formed text, \<open>guest_path_for\<close> returns a guest path exactly when the grant
  allows the host path, and the two then continue their roots with the same ordinary names.
\<close>

theorem guest_path_for_same_suffix:
  assumes "filesystem_grant_new root access = Ok fs" and "guest_root \<noteq> ''''"
    and "utf8_valid guest_root" and "utf8_valid p"
  shows "case guest_path_for fs p guest_root of
      None \<Rightarrow> \<not> fg_allows fs p
    | Some g \<Rightarrow> fg_allows fs p \<and> (\<exists>names. components p = components root @ map Normal names
           \<and> components g = components guest_root @ map Normal names)"
proof -
  have root: "is_safe_absolute_path (fg_root fs)" "fg_root fs = root"
    using assms(1) by (auto simp: filesystem_grant_new_Inr)
  show ?thesis
  proof (cases "guest_path_for fs p guest_root")
    case None
    then show ?thesis using guest_path_for_utf8 [OF _ root(1) assms(4,3)] by auto
  next
    case (Some g)
    then have "fg_allows fs p" by (simp add: guest_path_for_def split: if_splits)
    then show ?thesis
      using guest_path_for_Some [OF Some root(1) assms(2)] Some root(2) by auto
  qed
qed

theorem guest_path_for_same_suffix_witness:
  "\<exists>names. components ''/ws/src//a'' = components ''/ws'' @ map Normal names
     \<and> components ''/workspace/src//a'' = components ''/workspace'' @ map Normal names"
proof -
  let ?fs = "\<lparr>fg_root = ''/ws'', fg_access = Read\<rparr>"
  have "filesystem_grant_new ''/ws'' Read = Ok ?fs" by code_simp
  moreover have "guest_path_for ?fs ''/ws/src//a'' ''/workspace'' = Some ''/workspace/src//a''"
    by code_simp
  moreover have "utf8_valid ''/workspace''" "utf8_valid ''/ws/src//a''" by code_simp+
  ultimately show ?thesis
    using guest_path_for_same_suffix [of "''/ws''" Read ?fs "''/workspace''" "''/ws/src//a''"] by simp
qed

text \<open>
  \<open>allow_environment\<close> accepts exactly the non-empty names without \<open>=\<close>, NUL byte or
  Unicode white space; it then adds that one name and changes nothing else, and otherwise
  reports the name it was given.
\<close>

theorem allow_environment_spec:
  "allow_environment g name =
     (if name \<noteq> '''' \<and> CHR ''='' \<notin> set name \<and> CHR 0x00 \<notin> set name
         \<and> list_all (\<lambda>c. \<not> is_whitespace c) (chars name)
      then Ok (g\<lparr>cg_environment := finsert name (cg_environment g)\<rparr>)
      else Err (InvalidEnvironmentName name))"
proof (cases "env_name_ok name")
  case True
  then show ?thesis
    using allow_environment_Inr [of g name] by (auto simp: env_name_ok_def list_all_iff)
next
  case False
  then have "\<not> is_ok (allow_environment g name)"
    using allow_environment_Inr [of g name] is_ok_iff by metis
  then have "allow_environment g name = Err (InvalidEnvironmentName name)"
    by (auto simp: allow_environment_def split: if_splits)
  with False show ?thesis by (auto simp: env_name_ok_def list_all_iff)
qed


text \<open>
  C30. Host and guest paths translate back and forth: the guest path of a host path under one
  grant is itself a path of the guest's root, and translating it back to the host's root
  gives a path with exactly the components the host path had.
\<close>

theorem guest_path_round_trip:
  assumes "filesystem_grant_new root access = Ok fs" and "filesystem_grant_new guest_root access' = Ok gs"
    and "utf8_valid root" and "guest_path_for fs p guest_root = Some g"
  shows "\<exists>q. guest_path_for gs g root = Some q \<and> components q = components p"
proof -
  have root: "is_safe_absolute_path root" "fg_root fs = root"
    and guest: "is_safe_absolute_path guest_root" "fg_root gs = guest_root"
    using assms(1,2) by (auto simp: filesystem_grant_new_Inr)
  have nonempty: "root \<noteq> ''''" "guest_root \<noteq> ''''"
    using root guest by (auto simp: is_safe_absolute_path_iff)
  obtain names where names: "components p = components root @ map Normal names"
    "components g = components guest_root @ map Normal names"
    using guest_path_for_Some [OF assms(4), unfolded root(2), OF root(1) nonempty(2)] by metis
  have below: "path_starts_with g guest_root" by (simp add: path_starts_with_def names(2))
  then have "is_safe_absolute_path g"
    using guest(1) names(2) starts_with_absolute [of g guest_root] by (auto simp: is_safe_absolute_path_iff)
  then have allows: "fg_allows gs g" using below guest(2) by (simp add: fg_allows_def)
  have "utf8_valid g" using assms(4) by (auto simp: guest_path_for_def to_str_def split: if_splits option.splits)
  then obtain q where q: "guest_path_for gs g root = Some q"
    using guest_path_for_utf8 [OF allows _ _ assms(3)] guest by auto
  obtain names' where "components g = components guest_root @ map Normal names'"
    "components q = components root @ map Normal names'"
    using guest_path_for_Some [OF q, unfolded guest(2), OF guest(1) nonempty(1)] by metis
  then have "components q = components p" using names by simp
  then show ?thesis using q by blast
qed

theorem guest_path_round_trip_witness:
  "\<exists>q. guest_path_for \<lparr>fg_root = ''/workspace'', fg_access = Read\<rparr> ''/workspace/src//a'' ''/ws'' = Some q
     \<and> components q = components ''/ws/src//a''"
proof -
  have "filesystem_grant_new ''/ws'' Read = Ok \<lparr>fg_root = ''/ws'', fg_access = Read\<rparr>"
    "filesystem_grant_new ''/workspace'' Read = Ok \<lparr>fg_root = ''/workspace'', fg_access = Read\<rparr>"
    "utf8_valid ''/ws''"
    "guest_path_for \<lparr>fg_root = ''/ws'', fg_access = Read\<rparr> ''/ws/src//a'' ''/workspace'' = Some ''/workspace/src//a''"
    by code_simp+
  from guest_path_round_trip [OF this] show ?thesis .
qed

end
