(* ===== verification/Command.thy ===== *)
theory Command
  imports Capability
begin

text \<open>
  \<open>command.rs\<close>: the command request and the terminal-session state machine.
  \<open>SessionState::accept\<close> takes \<open>&mut self\<close>, so the model returns the state beside the
  result: that a rejected event leaves the state alone is then a theorem.
\<close>

section \<open>Data\<close>

datatype actor = Human | Agent | Subagent | Skill

datatype execution_mode = Wasi | Native

record command_request =
  cr_id :: u64
  cr_actor :: actor
  cr_mode :: execution_mode
  cr_program :: string
  cr_args :: "string list"
  cr_cwd :: path
  cr_grant :: capability_grant

datatype command_error =
    InvalidProgram
  | InvalidArgument
  | NativeNotGranted
  | WorkingDirectoryDenied path
  | InvalidTransition string
  | OutputLimit

datatype approval_reason = FilesystemWrite | NetworkAccess | EnvironmentAccess | NativeExecution

datatype stream = Stdout | Stderr

datatype session_event =
    Started
  | PendingApproval approval_reason
  | Output stream bytes
  | Exited "i32 option"
  | Cancelled
  | Denied
  | Unsupported

datatype lifecycle = Created | WaitingApproval | Running | Finished

record session_state =
  ss_id :: u64
  ss_limits :: resource_limits
  ss_output_bytes :: usize
  ss_lifecycle :: lifecycle

section \<open>Requests\<close>

definition contains_nul :: "string \<Rightarrow> bool" where
  "contains_nul v = list_ex (\<lambda>c. c = 0) (chars v)"

definition validate :: "command_request \<Rightarrow> command_error + unit" where
  "validate r =
     (if cr_program r = '''' \<or> contains_nul (cr_program r) then Err InvalidProgram
      else if list_ex contains_nul (cr_args r) then Err InvalidArgument
      else if cr_mode r = Native \<and> \<not> allows_native_execution (cr_grant r)
        then Err NativeNotGranted
      else if \<not> allows_path (cr_grant r) (cr_cwd r)
        then Err (WorkingDirectoryDenied (cr_cwd r))
      else Ok ())"

definition command_request_new ::
    "u64 \<Rightarrow> actor \<Rightarrow> execution_mode \<Rightarrow> string \<Rightarrow> string list \<Rightarrow> path \<Rightarrow> capability_grant
       \<Rightarrow> command_error + command_request" where
  "command_request_new i a m program args cwd grant =
     (let request = \<lparr>cr_id = i, cr_actor = a, cr_mode = m, cr_program = program,
                     cr_args = args, cr_cwd = cwd, cr_grant = grant\<rparr>
      in case validate request of Inl e \<Rightarrow> Err e | Inr _ \<Rightarrow> Ok request)"

section \<open>The session state machine\<close>

definition session_new :: "u64 \<Rightarrow> resource_limits \<Rightarrow> session_state" where
  "session_new i l = \<lparr>ss_id = i, ss_limits = l, ss_output_bytes = 0, ss_lifecycle = Created\<rparr>"

definition session_id :: "session_state \<Rightarrow> u64" where
  "session_id s = ss_id s"

definition session_output_bytes :: "session_state \<Rightarrow> usize" where
  "session_output_bytes s = ss_output_bytes s"

abbreviation with_lifecycle :: "session_state \<Rightarrow> lifecycle \<Rightarrow> session_state" where
  "with_lifecycle s l \<equiv> s\<lparr>ss_lifecycle := l\<rparr>"

definition accept :: "session_state \<Rightarrow> session_event \<Rightarrow> session_state \<times> (command_error + unit)" where
  "accept s event = (case (ss_lifecycle s, event) of
     (Created, Started) \<Rightarrow> (with_lifecycle s Running, Ok ())
   | (Created, PendingApproval _) \<Rightarrow> (with_lifecycle s WaitingApproval, Ok ())
   | (WaitingApproval, Started) \<Rightarrow> (with_lifecycle s Running, Ok ())
   | (WaitingApproval, Denied) \<Rightarrow> (with_lifecycle s Finished, Ok ())
   | (WaitingApproval, Unsupported) \<Rightarrow> (with_lifecycle s Finished, Ok ())
   | (Running, Output _ b) \<Rightarrow>
       (case checked_add_len (ss_output_bytes s) (length b) of
          None \<Rightarrow> (s, Err OutputLimit)
        | Some next \<Rightarrow>
            if limits_max_output_bytes (ss_limits s) < next then (s, Err OutputLimit)
            else (s\<lparr>ss_output_bytes := next\<rparr>, Ok ()))
   | (Running, Exited _) \<Rightarrow> (with_lifecycle s Finished, Ok ())
   | (Running, Cancelled) \<Rightarrow> (with_lifecycle s Finished, Ok ())
   | (Created, Denied) \<Rightarrow> (with_lifecycle s Finished, Ok ())
   | (Created, Unsupported) \<Rightarrow> (with_lifecycle s Finished, Ok ())
   | (Created, _) \<Rightarrow> (s, Err (InvalidTransition ''session has not started''))
   | (WaitingApproval, _) \<Rightarrow> (s, Err (InvalidTransition ''session is awaiting approval''))
   | (Running, Started) \<Rightarrow> (s, Err (InvalidTransition ''session already started''))
   | (Running, PendingApproval _) \<Rightarrow>
       (s, Err (InvalidTransition ''running session cannot await approval''))
   | (Running, Denied) \<Rightarrow> (s, Err (InvalidTransition ''running session cannot be denied''))
   | (Running, Unsupported) \<Rightarrow> (s, Err (InvalidTransition ''running session cannot be denied''))
   | (Finished, _) \<Rightarrow> (s, Err (InvalidTransition ''session is finished'')))"

text \<open>
  A session fed a sequence of events: \<open>feed\<close> goes on after a rejected event, as a caller
  that ignores the result does; \<open>accept_all\<close> asks every event to be accepted.
\<close>

definition feed :: "session_state \<Rightarrow> session_event list \<Rightarrow> session_state" where
  "feed s es = foldl (\<lambda>s e. fst (accept s e)) s es"

fun accept_all :: "session_state \<Rightarrow> session_event list \<Rightarrow> session_state option" where
  "accept_all s [] = Some s"
| "accept_all s (e # es) = (case accept s e of
     (s', Inl _) \<Rightarrow> None
   | (s', Inr _) \<Rightarrow> accept_all s' es)"

section \<open>The abstract protocol\<close>

text \<open>The lifecycle without the output budget.\<close>

fun lifecycle_next :: "lifecycle \<Rightarrow> session_event \<Rightarrow> lifecycle option" where
  "lifecycle_next Created Started = Some Running"
| "lifecycle_next Created (PendingApproval _) = Some WaitingApproval"
| "lifecycle_next Created Denied = Some Finished"
| "lifecycle_next Created Unsupported = Some Finished"
| "lifecycle_next WaitingApproval Started = Some Running"
| "lifecycle_next WaitingApproval Denied = Some Finished"
| "lifecycle_next WaitingApproval Unsupported = Some Finished"
| "lifecycle_next Running (Output _ _) = Some Running"
| "lifecycle_next Running (Exited _) = Some Finished"
| "lifecycle_next Running Cancelled = Some Finished"
| "lifecycle_next _ _ = None"

fun event_bytes :: "session_event \<Rightarrow> nat" where
  "event_bytes (Output _ b) = length b"
| "event_bytes _ = 0"

definition total_bytes :: "session_event list \<Rightarrow> nat" where
  "total_bytes es = sum_list (map event_bytes es)"

text \<open>
  The event sequences of a session as a grammar: an optional wait for approval, then either
  a refusal or a start, output chunks, and at most one end.
\<close>

fun running_trace :: "session_event list \<Rightarrow> bool" where
  "running_trace [] = True"
| "running_trace (Output _ _ # es) = running_trace es"
| "running_trace [Exited _] = True"
| "running_trace [Cancelled] = True"
| "running_trace _ = False"

fun started_trace :: "session_event list \<Rightarrow> bool" where
  "started_trace [] = True"
| "started_trace (Started # es) = running_trace es"
| "started_trace [Denied] = True"
| "started_trace [Unsupported] = True"
| "started_trace _ = False"

fun session_trace :: "session_event list \<Rightarrow> bool" where
  "session_trace (PendingApproval _ # es) = started_trace es"
| "session_trace es = started_trace es"

section \<open>Lemmas\<close>

lemma total_bytes_simps [simp]:
  "total_bytes [] = 0" "total_bytes (e # es) = event_bytes e + total_bytes es"
  by (simp_all add: total_bytes_def)

lemma contains_nul_iff: "contains_nul v \<longleftrightarrow> CHR 0x00 \<in> set v"
  using chars_ascii_iff [of 0 v] of_char_zero_iff by (auto simp: contains_nul_def list_ex_iff)

lemma accept_Inl_state: "accept s e = (s', Inl err) \<Longrightarrow> s' = s"
  by (auto simp: accept_def split: lifecycle.splits session_event.splits option.splits if_splits)

lemma accept_frame:
  "ss_id (fst (accept s e)) = ss_id s" "ss_limits (fst (accept s e)) = ss_limits s"
  by (auto simp: accept_def split: lifecycle.splits session_event.splits option.splits if_splits)

text \<open>An event is accepted when the lifecycle admits it and its bytes fit the budget.\<close>

lemma accept_Inr_iff:
  "accept s e = (s', Inr u) \<longleftrightarrow>
     (\<exists>l. lifecycle_next (ss_lifecycle s) e = Some l
        \<and> (\<forall>st b. e = Output st b \<longrightarrow>
             unat (ss_output_bytes s) + length b \<le> unat (rl_max_output_bytes (ss_limits s)))
        \<and> s' = s\<lparr>ss_lifecycle := l,
                 ss_output_bytes := ss_output_bytes s + of_nat (event_bytes e)\<rparr>)"
proof (cases e)
  case (Output st b)
  show ?thesis
  proof (cases "ss_lifecycle s = Running")
    case True
    have lt: "unat (rl_max_output_bytes (ss_limits s)) < 2 ^ 64"
      using unat_lt_2_64 by simp
    show ?thesis
    proof (cases "unat (ss_output_bytes s) + length b < 2 ^ 64")
      case fits: True
      then have "\<not> rl_max_output_bytes (ss_limits s) < ss_output_bytes s + of_nat (length b)
          \<longleftrightarrow> unat (ss_output_bytes s) + length b \<le> unat (rl_max_output_bytes (ss_limits s))"
        by (simp add: word_less_nat_alt unat_add_len not_less)
      then show ?thesis using True fits Output
        by (auto simp: accept_def checked_add_len_def)
    next
      case False
      then have "\<not> unat (ss_output_bytes s) + length b \<le> unat (rl_max_output_bytes (ss_limits s))"
        using lt by linarith
      then show ?thesis using True False Output
        by (auto simp: accept_def checked_add_len_def)
    qed
  next
    case False
    then show ?thesis using Output
      by (cases "ss_lifecycle s") (auto simp: accept_def)
  qed
qed (cases "ss_lifecycle s"; auto simp: accept_def)+

lemma accept_cases:
  obtains (rejected) err where "accept s e = (s, Inl err)"
  | (accepted) s' where "accept s e = (s', Inr ())"
  using accept_Inl_state by (cases "accept s e"; cases "snd (accept s e)") fastforce+

lemma accept_Inr_bytes:
  assumes "accept s e = (s', Inr u)"
    and "unat (ss_output_bytes s) \<le> unat (rl_max_output_bytes (ss_limits s))"
  shows "unat (ss_output_bytes s') = unat (ss_output_bytes s) + event_bytes e"
    and "unat (ss_output_bytes s') \<le> unat (rl_max_output_bytes (ss_limits s))"
proof -
  have le: "unat (ss_output_bytes s) + event_bytes e \<le> unat (rl_max_output_bytes (ss_limits s))"
    using assms by (cases e) (auto simp: accept_Inr_iff)
  then have "unat (ss_output_bytes s) + event_bytes e < 2 ^ 64"
    using unat_lt_2_64 [of "rl_max_output_bytes (ss_limits s)"] by simp
  then show "unat (ss_output_bytes s') = unat (ss_output_bytes s) + event_bytes e"
    using assms(1) by (auto simp: accept_Inr_iff unat_add_len)
  with le show "unat (ss_output_bytes s') \<le> unat (rl_max_output_bytes (ss_limits s))" by simp
qed

lemma accept_all_Cons:
  "accept_all s (e # es) = Some t \<longleftrightarrow> (\<exists>s'. accept s e = (s', Inr ()) \<and> accept_all s' es = Some t)"
  by (auto split: prod.splits sum.splits)

declare accept_all.simps(2) [simp del]

lemma accept_all_Finished:
  "ss_lifecycle s = Finished \<Longrightarrow> (\<exists>t. accept_all s es = Some t) \<longleftrightarrow> es = []"
  by (cases es) (auto simp: accept_all_Cons accept_Inr_iff)

lemma accept_all_Running:
  "ss_lifecycle s = Running
     \<Longrightarrow> unat (ss_output_bytes s) \<le> unat (rl_max_output_bytes (ss_limits s))
     \<Longrightarrow> (\<exists>t. accept_all s es = Some t) \<longleftrightarrow>
          running_trace es
          \<and> unat (ss_output_bytes s) + total_bytes es \<le> unat (rl_max_output_bytes (ss_limits s))"
proof (induction es arbitrary: s)
  case (Cons e es)
  show ?case
  proof (cases "\<exists>s'. accept s e = (s', Inr ())")
    case False
    then have "\<not> (\<exists>t. accept_all s (e # es) = Some t)" by (simp only: accept_all_Cons) blast
    moreover from False have "\<not> running_trace (e # es)
        \<or> unat (rl_max_output_bytes (ss_limits s)) < unat (ss_output_bytes s) + event_bytes e"
      using Cons.prems by (cases e) (auto simp: accept_Inr_iff)
    ultimately show ?thesis by auto
  next
    case True
    then obtain s' where s': "accept s e = (s', Inr ())" by blast
    note bytes = accept_Inr_bytes [OF s' Cons.prems(2)]
    have lim: "ss_limits s' = ss_limits s" using accept_frame(2) [of s e] s' by simp
    have step: "(\<exists>t. accept_all s (e # es) = Some t) \<longleftrightarrow> (\<exists>t. accept_all s' es = Some t)"
      using s' by (simp only: accept_all_Cons) simp
    obtain l where l: "lifecycle_next Running e = Some l" "ss_lifecycle s' = l"
      using s' Cons.prems(1) by (auto simp: accept_Inr_iff)
    show ?thesis
    proof (cases e)
      case (Output st b)
      then have "ss_lifecycle s' = Running" using l by simp
      then show ?thesis using Cons.IH [of s'] bytes lim step Output by (simp add: add.assoc)
    next
      case (Exited c)
      then have "ss_lifecycle s' = Finished" using l by simp
      then show ?thesis using accept_all_Finished [of s' es] bytes lim step Exited
        by (cases es) auto
    next
      case Cancelled
      then have "ss_lifecycle s' = Finished" using l by simp
      then show ?thesis using accept_all_Finished [of s' es] bytes lim step Cancelled
        by (cases es) auto
    qed (use l in auto)
  qed
qed simp

text \<open>Before the start no bytes are accepted, so the budget is untouched.\<close>

definition fresh_session :: "lifecycle \<Rightarrow> session_state \<Rightarrow> bool" where
  "fresh_session l s = (ss_lifecycle s = l \<and> ss_output_bytes s = 0)"

lemma accept_all_WaitingApproval:
  assumes "fresh_session l s" "l = Created \<or> l = WaitingApproval" "l = Created \<Longrightarrow> es = [] \<or> (\<forall>r. hd es \<noteq> PendingApproval r)"
  shows "(\<exists>t. accept_all s es = Some t) \<longleftrightarrow>
     started_trace es \<and> total_bytes es \<le> unat (rl_max_output_bytes (ss_limits s))"
proof (cases es)
  case (Cons e es')
  show ?thesis
  proof (cases "\<exists>s'. accept s e = (s', Inr ())")
    case False
    then have "\<not> (\<exists>t. accept_all s es = Some t)" unfolding Cons by (simp only: accept_all_Cons) blast
    moreover have "\<not> started_trace es"
      using False assms Cons unfolding fresh_session_def
      by (cases e; cases es') (auto simp: accept_Inr_iff)
    ultimately show ?thesis by simp
  next
    case True
    then obtain s' where s': "accept s e = (s', Inr ())" by blast
    have lim: "ss_limits s' = ss_limits s" using accept_frame(2) [of s e] s' by simp
    have step: "(\<exists>t. accept_all s es = Some t) \<longleftrightarrow> (\<exists>t. accept_all s' es' = Some t)"
      unfolding Cons using s' by (simp only: accept_all_Cons) simp
    obtain k where k: "lifecycle_next l e = Some k" "ss_lifecycle s' = k"
      using s' assms(1) by (auto simp: accept_Inr_iff fresh_session_def)
    consider "e = Started" | "e = Denied" | "e = Unsupported"
      using k assms(2,3) Cons by (cases e) auto
    then show ?thesis
    proof cases
      case 1
      then have "ss_lifecycle s' = Running" "ss_output_bytes s' = 0"
        using k assms(1,2) s' by (auto simp: fresh_session_def accept_Inr_iff)
      then show ?thesis using accept_all_Running [of s' es'] lim step 1 Cons by simp
    next
      case 2
      then have "ss_lifecycle s' = Finished" using k assms(2) by auto
      then show ?thesis using accept_all_Finished [of s' es'] step 2 Cons by (cases es') auto
    next
      case 3
      then have "ss_lifecycle s' = Finished" using k assms(2) by auto
      then show ?thesis using accept_all_Finished [of s' es'] step 3 Cons by (cases es') auto
    qed
  qed
qed simp

lemma session_trace_cases:
  "session_trace es =
     (case es of PendingApproval _ # es' \<Rightarrow> started_trace es' | _ \<Rightarrow> started_trace es)"
  by (cases es rule: session_trace.cases) auto

lemma accept_all_language:
  "(\<exists>t. accept_all (session_new i l) es = Some t) \<longleftrightarrow>
     session_trace es \<and> total_bytes es \<le> unat (rl_max_output_bytes l)"
proof (cases "\<exists>r es'. es = PendingApproval r # es'")
  case True
  then obtain r es' where es: "es = PendingApproval r # es'" by blast
  let ?s = "(session_new i l)\<lparr>ss_lifecycle := WaitingApproval\<rparr>"
  have "accept (session_new i l) (PendingApproval r) = (?s, Inr ())"
    by (simp add: accept_def session_new_def)
  moreover have "fresh_session WaitingApproval ?s"
    by (simp add: fresh_session_def session_new_def)
  ultimately show ?thesis
    using accept_all_WaitingApproval [of WaitingApproval ?s es'] es
    by (simp add: session_new_def accept_all_Cons)
next
  case False
  then have "es = [] \<or> (\<forall>r. hd es \<noteq> PendingApproval r)" by (cases es) auto
  moreover have "fresh_session Created (session_new i l)"
    by (simp add: fresh_session_def session_new_def)
  moreover have "session_trace es = started_trace es"
    using False by (auto simp: session_trace_cases split: list.splits session_event.splits)
  ultimately show ?thesis
    using accept_all_WaitingApproval [of Created "session_new i l" es]
    by (simp add: session_new_def)
qed

text \<open>The bytes of the accepted output events of a sequence.\<close>

fun accepted_bytes :: "session_state \<Rightarrow> session_event list \<Rightarrow> nat" where
  "accepted_bytes s [] = 0"
| "accepted_bytes s (e # es) =
     (if is_ok (snd (accept s e)) then event_bytes e else 0) + accepted_bytes (fst (accept s e)) es"

lemma feed_simps [simp]: "feed s [] = s" "feed s (e # es) = feed (fst (accept s e)) es"
  by (simp_all add: feed_def)

lemma feed_bytes:
  "unat (ss_output_bytes s) \<le> unat (rl_max_output_bytes (ss_limits s)) \<Longrightarrow>
     unat (ss_output_bytes (feed s es)) = unat (ss_output_bytes s) + accepted_bytes s es
     \<and> unat (ss_output_bytes (feed s es)) \<le> unat (rl_max_output_bytes (ss_limits s))"
proof (induction es arbitrary: s)
  case (Cons e es)
  show ?case
  proof (cases rule: accept_cases [of s e])
    case rejected
    then show ?thesis using Cons.IH [OF Cons.prems] by simp
  next
    case (accepted s')
    note bytes = accept_Inr_bytes [OF accepted Cons.prems]
    have "ss_limits s' = ss_limits s" using accept_frame(2) [of s e] accepted by simp
    then show ?thesis using Cons.IH [of s'] bytes accepted by (simp add: add.assoc)
  qed
qed simp

lemma validate_Inr:
  "validate r = Inr u \<longleftrightarrow>
     cr_program r \<noteq> '''' \<and> (\<forall>s \<in> set (cr_program r # cr_args r). CHR 0x00 \<notin> set s)
     \<and> (cr_mode r = Native \<longrightarrow> allows_native_execution (cr_grant r))
     \<and> allows_path (cr_grant r) (cr_cwd r)"
  by (auto simp: validate_def contains_nul_iff list_ex_iff)

section \<open>Properties\<close>

text \<open>
  C23. The state machine accepts exactly the session protocol: a fresh session accepts every
  event of a sequence, in order, if and only if the sequence is an optional wait for
  approval, then a refusal or a start with output chunks and at most one exit or
  cancellation, and the output fits the byte budget.
\<close>

theorem accept_all_iff_protocol:
  "accept_all (session_new i l) es \<noteq> None \<longleftrightarrow>
     session_trace es \<and> total_bytes es \<le> unat (rl_max_output_bytes l)"
  using accept_all_language [of i l es] by simp

text \<open>
  Whatever events are offered, accepted or not, the output count of a session is the
  number of bytes of the chunks it accepted and never exceeds the byte budget; the 64-bit
  counter cannot wrap.
\<close>

theorem session_output_within_budget:
  "unat (ss_output_bytes (feed (session_new i l) es)) = accepted_bytes (session_new i l) es
   \<and> accepted_bytes (session_new i l) es \<le> unat (rl_max_output_bytes l)"
  using feed_bytes [of "session_new i l" es] by (simp add: session_new_def)

text \<open>
  \<open>accept\<close> refines the abstract lifecycle: a rejected event leaves the whole state as
  it was, an accepted one takes exactly the abstract transition, changes the byte count by
  the chunk's length and nothing else, and a finished session rejects everything.
\<close>

theorem accept_refines_lifecycle:
  "case accept s e of
     (s', Inl err) \<Rightarrow> s' = s
   | (s', Inr _) \<Rightarrow> ss_lifecycle s \<noteq> Finished
       \<and> lifecycle_next (ss_lifecycle s) e = Some (ss_lifecycle s')
       \<and> ss_output_bytes s' = ss_output_bytes s + of_nat (event_bytes e)
       \<and> ss_id s' = ss_id s \<and> ss_limits s' = ss_limits s"
proof (cases rule: accept_cases [of s e])
  case rejected
  then show ?thesis by simp
next
  case (accepted s')
  then obtain l where "lifecycle_next (ss_lifecycle s) e = Some l"
    "s' = s\<lparr>ss_lifecycle := l, ss_output_bytes := ss_output_bytes s + of_nat (event_bytes e)\<rparr>"
    using accept_Inr_iff by blast
  then show ?thesis using accepted by (cases e) auto
qed

text \<open>
  A request that passes validation has a non-empty program, no NUL byte in the program
  or an argument, the native grant if it is native, and a working directory inside a
  granted root; the constructor returns it with every argument unchanged.
\<close>

theorem command_request_new_valid:
  assumes "command_request_new i a m program args cwd grant = Ok r"
  shows "program \<noteq> '''' \<and> (\<forall>s \<in> set (program # args). CHR 0x00 \<notin> set s)
    \<and> (m = Native \<longrightarrow> allows_native_execution grant)
    \<and> allows_path grant cwd
    \<and> r = \<lparr>cr_id = i, cr_actor = a, cr_mode = m, cr_program = program,
           cr_args = args, cr_cwd = cwd, cr_grant = grant\<rparr>"
  using assms
  by (auto simp: command_request_new_def validate_Inr Let_def split: sum.splits)

theorem command_request_new_valid_witness:
  "allows_path (grant_empty\<lparr>cg_filesystems := [\<lparr>fg_root = ''/ws'', fg_access = Read\<rparr>]\<rparr>) ''/ws/a''"
proof -
  let ?g = "grant_empty\<lparr>cg_filesystems := [\<lparr>fg_root = ''/ws'', fg_access = Read\<rparr>]\<rparr>"
  have "is_ok (command_request_new 7 Agent Wasi ''tool'' [''x''] ''/ws/a'' ?g)" by code_simp
  then obtain r where "command_request_new 7 Agent Wasi ''tool'' [''x''] ''/ws/a'' ?g = Ok r"
    unfolding is_ok_iff by blast
  from command_request_new_valid [OF this] show ?thesis by blast
qed

end
