(* ===== verification/Cancel.thy ===== *)
theory Cancel
  imports Prelude
begin

text \<open>
  \<open>cancel.rs\<close>: the one-shot cancellation signal.  A \<open>CancelHandle\<close> is an \<open>Arc<AtomicBool>\<close>,
  so a clone and the original share one cell; the model keeps the cells in an explicit
  store and a handle is the address of its cell.  The laws the broker and the runtime rely
  on are the locale \<open>one_shot_signal\<close>, interpreted on these definitions.
\<close>

section \<open>The signal\<close>

datatype cancel_handle = CancelHandle nat

record cancel_store =
  cs_cells :: "nat \<Rightarrow> bool"
  cs_next :: nat

definition cancel_store_init :: cancel_store where
  "cancel_store_init = \<lparr>cs_cells = (\<lambda>_. False), cs_next = 0\<rparr>"

definition cancel_handle_new :: "cancel_store \<Rightarrow> cancel_handle \<times> cancel_store" where
  "cancel_handle_new m =
     (CancelHandle (cs_next m),
      m\<lparr>cs_cells := (cs_cells m)(cs_next m := False), cs_next := Suc (cs_next m)\<rparr>)"

text \<open>\<open>Arc::clone\<close> copies the pointer.\<close>

definition cancel_handle_clone :: "cancel_handle \<Rightarrow> cancel_handle" where
  "cancel_handle_clone h = h"

definition cancel_handle_cancel :: "cancel_store \<Rightarrow> cancel_handle \<Rightarrow> cancel_store" where
  "cancel_handle_cancel m h =
     (case h of CancelHandle a \<Rightarrow> m\<lparr>cs_cells := (cs_cells m)(a := True)\<rparr>)"

definition is_cancelled :: "cancel_store \<Rightarrow> cancel_handle \<Rightarrow> bool" where
  "is_cancelled m h = (case h of CancelHandle a \<Rightarrow> cs_cells m a)"

text \<open>A handle is live in a store that has allocated its cell.\<close>

definition handle_live :: "cancel_store \<Rightarrow> cancel_handle \<Rightarrow> bool" where
  "handle_live m h = (case h of CancelHandle a \<Rightarrow> a < cs_next m)"

section \<open>The interface\<close>

text \<open>
  What the clients rely on: a fresh signal is not raised and shares nothing with the
  signals that exist, raising one signal raises exactly it, and no operation lowers one.
\<close>

locale one_shot_signal =
  fixes fresh :: "'m \<Rightarrow> 'h \<times> 'm"
    and raise_signal :: "'m \<Rightarrow> 'h \<Rightarrow> 'm"
    and raised :: "'m \<Rightarrow> 'h \<Rightarrow> bool"
    and live :: "'m \<Rightarrow> 'h \<Rightarrow> bool"
  assumes fresh_lowered: "fresh m = (h, m') \<Longrightarrow> \<not> raised m' h"
    and fresh_live: "fresh m = (h, m') \<Longrightarrow> live m' h"
    and fresh_new: "fresh m = (h, m') \<Longrightarrow> \<not> live m h"
    and fresh_keeps_live: "fresh m = (h, m') \<Longrightarrow> live m q \<Longrightarrow> live m' q"
    and fresh_keeps: "fresh m = (h, m') \<Longrightarrow> live m q \<Longrightarrow> raised m' q = raised m q"
    and raise_raises: "raised (raise_signal m h) q \<longleftrightarrow> q = h \<or> raised m q"
    and raise_live: "live (raise_signal m h) q = live m q"
begin

text \<open>The evolutions of a store under the operations of any number of clients.\<close>

inductive evolves :: "'m \<Rightarrow> 'm \<Rightarrow> bool" where
  evolves_refl: "evolves m m"
| evolves_fresh: "evolves m m' \<Longrightarrow> fresh m' = (h, m'') \<Longrightarrow> evolves m m''"
| evolves_raise: "evolves m m' \<Longrightarrow> evolves m (raise_signal m' h)"

lemma evolves_live: "evolves m m' \<Longrightarrow> live m h \<Longrightarrow> live m' h"
  by (induction rule: evolves.induct) (auto simp: raise_live dest: fresh_keeps_live)

lemma raised_stays: "evolves m m' \<Longrightarrow> live m h \<Longrightarrow> raised m h \<Longrightarrow> raised m' h"
proof (induction rule: evolves.induct)
  case (evolves_fresh m m' h' m'')
  then show ?case using evolves_live fresh_keeps by blast
qed (auto simp: raise_raises)

lemma raise_idem: "raised (raise_signal (raise_signal m h) h) q = raised (raise_signal m h) q"
  by (auto simp: raise_raises)

lemma raise_other: "q \<noteq> h \<Longrightarrow> raised (raise_signal m h) q = raised m q"
  by (simp add: raise_raises)

end

interpretation signal: one_shot_signal cancel_handle_new cancel_handle_cancel is_cancelled handle_live
  by unfold_locales
    (auto simp: cancel_handle_new_def cancel_handle_cancel_def is_cancelled_def handle_live_def
      split: cancel_handle.splits)

section \<open>Properties\<close>

text \<open>
  A cancelled session stays cancelled: once a live handle is cancelled, every clone of
  it reads cancelled in every later store, whatever handles are created or cancelled in
  between, and cancelling leaves every other handle as it was.
\<close>

theorem cancelled_stays_cancelled:
  assumes "handle_live m h" and "signal.evolves (cancel_handle_cancel m h) m'"
  shows "is_cancelled m' (cancel_handle_clone h)
    \<and> (\<forall>q. q \<noteq> h \<longrightarrow> is_cancelled (cancel_handle_cancel m h) q = is_cancelled m q)"
  using assms signal.raised_stays [of "cancel_handle_cancel m h" m' h]
  by (simp add: signal.raise_live signal.raise_raises cancel_handle_clone_def)

theorem cancelled_stays_cancelled_witness:
  "is_cancelled (cancel_handle_cancel (snd (cancel_handle_new cancel_store_init)) (CancelHandle 0))
     (cancel_handle_clone (CancelHandle 0))"
proof -
  let ?m = "snd (cancel_handle_new cancel_store_init)"
  have "handle_live ?m (CancelHandle 0)"
    by (simp add: cancel_handle_new_def handle_live_def cancel_store_init_def)
  then show ?thesis using cancelled_stays_cancelled [OF _ signal.evolves_refl] by blast
qed

end
