(* ===== verification/Native.thy ===== *)
theory Native
  imports Command
begin

text \<open>
  \<open>native.rs\<close>: the native backend boundary, which refuses every request until a platform
  adapter exists.
\<close>

datatype native_backend = NativeBackend

datatype native_error = NativeWrongMode | NativeErrorNotGranted | UnsupportedOnHost

definition native_backend_new :: native_backend where
  "native_backend_new = NativeBackend"

definition native_start :: "native_backend \<Rightarrow> command_request \<Rightarrow> native_error + unit" where
  "native_start b r =
     (if cr_mode r \<noteq> Native then Err NativeWrongMode
      else if \<not> allows_native_execution (cr_grant r) then Err NativeErrorNotGranted
      else Err UnsupportedOnHost)"

text \<open>
  The native backend fails closed: it starts no request, and a validated native request
  is refused as unsupported on the host, never for want of a grant.
\<close>

theorem native_start_fails_closed:
  "\<not> is_ok (native_start b r)
   \<and> (validate r = Ok () \<and> cr_mode r = Native \<longrightarrow> native_start b r = Err UnsupportedOnHost)"
  by (auto simp: native_start_def validate_def split: if_splits)

theorem native_start_fails_closed_witness:
  "native_start native_backend_new
     \<lparr>cr_id = 1, cr_actor = Human, cr_mode = Native, cr_program = ''cargo'', cr_args = [''test''],
      cr_cwd = ''/ws'', cr_grant = allow_native_execution
        (grant_empty\<lparr>cg_filesystems := [\<lparr>fg_root = ''/ws'', fg_access = Read\<rparr>]\<rparr>)\<rparr>
     = Err UnsupportedOnHost"
proof -
  let ?r = "\<lparr>cr_id = 1, cr_actor = Human, cr_mode = Native, cr_program = ''cargo'',
      cr_args = [''test''], cr_cwd = ''/ws'', cr_grant = allow_native_execution
        (grant_empty\<lparr>cg_filesystems := [\<lparr>fg_root = ''/ws'', fg_access = Read\<rparr>]\<rparr>)\<rparr>"
  have "validate ?r = Ok ()" by code_simp
  moreover have "cr_mode ?r = Native" by simp
  ultimately show ?thesis using native_start_fails_closed by blast
qed

end
