(* ===== verification/Policy.thy ===== *)
theory Policy
  imports Command "HOL-Library.State_Monad"
begin

text \<open>
  \<open>policy.rs\<close>: the network posture, the environment selection and the risk class derived
  from a grant.  \<open>WasiCtxBuilder\<close> is the runtime library's, so a builder is the sequence
  of calls the code makes on it (\<open>builder_call\<close>); what the library does with them is not
  modelled.  \<open>SocketAddrUse\<close> is the library's enum too: the uses the code names, and
  \<open>OtherUse\<close> for every other kind, present or future.
\<close>

section \<open>Addresses\<close>

datatype ip_addr = V4 "32 word" | V6 "128 word"

record socket_addr =
  sa_ip :: ip_addr
  sa_port :: u16

datatype socket_addr_use = TcpConnect | TcpBind | UdpConnect | UdpBind | OtherUse nat

text \<open>\<open>IpAddr::is_loopback\<close>: \<open>127.0.0.0/8\<close> and \<open>::1\<close>.\<close>

definition is_loopback :: "ip_addr \<Rightarrow> bool" where
  "is_loopback ip = (case ip of V4 a \<Rightarrow> drop_bit 24 a = 127 | V6 a \<Rightarrow> a = 1)"

section \<open>The network policy\<close>

record network_policy =
  np_tcp :: bool
  np_allowed_connect_ports :: "u16 fset"
  np_allowed_bind_ports :: "u16 fset"
  np_udp :: bool

definition from_grant :: "capability_grant \<Rightarrow> network_policy" where
  "from_grant g =
     (let connect = loopback_ports g; bind = loopback_bind_ports g
      in \<lparr>np_tcp = (connect \<noteq> {||} \<or> bind \<noteq> {||}),
          np_allowed_connect_ports = connect,
          np_allowed_bind_ports = bind,
          np_udp = False\<rparr>)"

definition permits :: "network_policy \<Rightarrow> socket_addr \<Rightarrow> socket_addr_use \<Rightarrow> bool" where
  "permits pol addr kind = (case kind of
     TcpConnect \<Rightarrow> np_tcp pol \<and> is_loopback (sa_ip addr)
                   \<and> sa_port addr |\<in>| np_allowed_connect_ports pol
   | TcpBind \<Rightarrow> np_tcp pol \<and> is_loopback (sa_ip addr)
                   \<and> sa_port addr |\<in>| np_allowed_bind_ports pol
   | _ \<Rightarrow> False)"

text \<open>Permissions of a preopened directory: \<open>DirPerms\<close> and \<open>FilePerms\<close> are sets of bits.\<close>

datatype perms = PermsRead | PermsAll

text \<open>
  The calls the sources make on a \<open>WasiCtxBuilder\<close>.  The closure passed to
  \<open>socket_addr_check\<close> evaluates \<open>permits\<close> of the policy it captured, so the call records
  that policy.
\<close>

datatype builder_call =
    BArgs "string list"
  | BInitialCwd string
  | BStdout
  | BStderr
  | BEnv string string
  | BAllowIpNameLookup bool
  | BAllowUdp bool
  | BAllowTcp bool
  | BSocketAddrCheck network_policy
  | BPreopenedDir path string perms perms

type_synonym wasi_builder = "builder_call list"

definition policy_apply :: "network_policy \<Rightarrow> wasi_builder \<Rightarrow> wasi_builder" where
  "policy_apply pol b =
     b @ [BAllowIpNameLookup False, BAllowUdp (np_udp pol), BAllowTcp (np_tcp pol)]
       @ (if np_tcp pol then [BSocketAddrCheck pol] else [])"

section \<open>The environment\<close>

definition selected_environment ::
    "capability_grant \<Rightarrow> (string \<Rightarrow> string option) \<Rightarrow> (string \<times> string) list" where
  "selected_environment g provider =
     List.map_filter (\<lambda>name. map_option (\<lambda>v. (name, v)) (provider name)) (environment_names g)"

text \<open>
  The provider is an arbitrary closure and may have effects of its own: as a computation of
  the state monad, run by the iterator once for each name it is asked for.
\<close>

fun select_from ::
    "(string \<Rightarrow> ('s, string option) state) \<Rightarrow> string list \<Rightarrow> ('s, (string \<times> string) list) state" where
  "select_from provider [] = State_Monad.return []"
| "select_from provider (name # names) = do {
     value \<leftarrow> provider name;
     rest \<leftarrow> select_from provider names;
     State_Monad.return ((case value of None \<Rightarrow> [] | Some v \<Rightarrow> [(name, v)]) @ rest)
   }"

definition selected_environment_in ::
    "capability_grant \<Rightarrow> (string \<Rightarrow> ('s, string option) state) \<Rightarrow> ('s, (string \<times> string) list) state" where
  "selected_environment_in g provider = select_from provider (environment_names g)"

text \<open>The closure of the test: it notes each name it is asked for, and answers.\<close>

definition recording :: "(string \<Rightarrow> string option) \<Rightarrow> string \<Rightarrow> (string list, string option) state" where
  "recording provider name = do {
     _ \<leftarrow> State_Monad.update (\<lambda>queried. queried @ [name]);
     State_Monad.return (provider name)
   }"

section \<open>Risk\<close>

datatype risk = AutoApprove | RequiresApproval approval_reason

definition classify_risk :: "command_request \<Rightarrow> risk" where
  "classify_risk r =
     (if cr_mode r = Native \<or> allows_native_execution (cr_grant r)
        then RequiresApproval NativeExecution
      else if list_ex (\<lambda>fs. fs_access fs = ReadWrite) (filesystem_grants (cr_grant r))
        then RequiresApproval FilesystemWrite
      else if loopback_ports (cr_grant r) \<noteq> {||} \<or> loopback_bind_ports (cr_grant r) \<noteq> {||}
        then RequiresApproval NetworkAccess
      else if environment_names (cr_grant r) \<noteq> [] then RequiresApproval EnvironmentAccess
      else AutoApprove)"

section \<open>Lemmas\<close>

lemma permits_from_grant:
  "permits (from_grant g) a k \<longleftrightarrow>
     is_loopback (sa_ip a)
     \<and> (k = TcpConnect \<and> allows_loopback_port g (sa_port a)
        \<or> k = TcpBind \<and> allows_loopback_bind_port g (sa_port a))"
  by (cases k)
    (auto simp: permits_def from_grant_def allows_loopback_port_def allows_loopback_bind_port_def
      Let_def)

lemma environment_names_mem: "name \<in> set (environment_names g) \<longleftrightarrow> allows_environment g name"
  by (simp add: environment_names_def allows_environment_def)

lemma environment_names_Nil [simp]: "environment_names g = [] \<longleftrightarrow> cg_environment g = {||}"
  by (simp add: environment_names_def)

lemma map_fst_selected:
  "map fst (selected_environment g provider)
     = filter (\<lambda>n. provider n \<noteq> None) (environment_names g)"
proof -
  have "map fst (List.map_filter (\<lambda>n. map_option (\<lambda>v. (n, v)) (provider n)) ns)
      = filter (\<lambda>n. provider n \<noteq> None) ns" for ns
    by (induction ns) (auto simp: List.map_filter_simps split: option.splits)
  then show ?thesis by (simp add: selected_environment_def)
qed

lemma classify_AutoApprove:
  "classify_risk r = AutoApprove \<longleftrightarrow>
     cr_mode r = Wasi \<and> \<not> cg_native_execution (cr_grant r)
     \<and> (\<forall>fs \<in> set (cg_filesystems (cr_grant r)). fg_access fs = Read)
     \<and> cg_loopback_ports (cr_grant r) = {||} \<and> cg_loopback_bind_ports (cr_grant r) = {||}
     \<and> cg_environment (cr_grant r) = {||}"
proof -
  have "cr_mode r \<noteq> Native \<longleftrightarrow> cr_mode r = Wasi" by (cases "cr_mode r") auto
  moreover have "fg_access fs \<noteq> ReadWrite \<longleftrightarrow> fg_access fs = Read" for fs :: filesystem_grant
    by (cases "fg_access fs") auto
  ultimately show ?thesis
    by (auto simp: classify_risk_def allows_native_execution_def list_ex_iff)
qed

section \<open>Properties\<close>

text \<open>
  The network posture is exactly the allowlists: a policy derived from a grant permits a
  use of an address if and only if the address is loopback and the use is a TCP connect to
  a port on the connect list or a TCP bind of a port on the bind list.  So neither list
  implies the other, no UDP or other use passes, and an empty grant permits nothing.
\<close>

theorem permits_exactly_allowlisted:
  "(permits (from_grant g) a k \<longleftrightarrow>
     is_loopback (sa_ip a)
     \<and> (k = TcpConnect \<and> allows_loopback_port g (sa_port a)
        \<or> k = TcpBind \<and> allows_loopback_bind_port g (sa_port a)))
   \<and> \<not> permits (from_grant grant_empty) a k"
  unfolding permits_from_grant
  by (simp add: grant_empty_def allows_loopback_port_def allows_loopback_bind_port_def)

text \<open>
  Allowing a port to connect permits no bind, and allowing one to bind permits no
  connect: after either builder method the permitted uses are the old ones and the one
  named use of the one port, on loopback addresses.
\<close>

theorem port_builders_separate:
  assumes "allow_loopback_port g p = Ok g1" and "allow_loopback_bind_port g p = Ok g2"
  shows "(permits (from_grant g1) a k \<longleftrightarrow> permits (from_grant g) a k
            \<or> (k = TcpConnect \<and> sa_port a = p \<and> is_loopback (sa_ip a)))
    \<and> (permits (from_grant g2) a k \<longleftrightarrow> permits (from_grant g) a k
            \<or> (k = TcpBind \<and> sa_port a = p \<and> is_loopback (sa_ip a)))"
  using assms unfolding permits_from_grant
  by (auto simp: allow_loopback_port_def allow_loopback_bind_port_def allows_loopback_port_def
      allows_loopback_bind_port_def split: if_splits)

theorem port_builders_separate_witness:
  "permits (from_grant (grant_empty\<lparr>cg_loopback_ports := {|3000|}\<rparr>))
     \<lparr>sa_ip = V4 0x7F000001, sa_port = 3000\<rparr> TcpConnect
   \<and> \<not> permits (from_grant (grant_empty\<lparr>cg_loopback_ports := {|3000|}\<rparr>))
     \<lparr>sa_ip = V4 0x7F000001, sa_port = 3000\<rparr> TcpBind"
proof -
  have 1: "allow_loopback_port grant_empty 3000 = Ok (grant_empty\<lparr>cg_loopback_ports := {|3000|}\<rparr>)"
    by (simp add: allow_loopback_port_def grant_empty_def)
  have 2: "allow_loopback_bind_port grant_empty 3000
      = Ok (grant_empty\<lparr>cg_loopback_bind_ports := {|3000|}\<rparr>)"
    by (simp add: allow_loopback_bind_port_def grant_empty_def)
  have "is_loopback (V4 0x7F000001)" by (simp add: is_loopback_def)
  then show ?thesis
    using port_builders_separate [OF 1 2, of "\<lparr>sa_ip = V4 0x7F000001, sa_port = 3000\<rparr>" TcpConnect]
      port_builders_separate [OF 1 2, of "\<lparr>sa_ip = V4 0x7F000001, sa_port = 3000\<rparr>" TcpBind]
    by (simp add: permits_from_grant grant_empty_def allows_loopback_bind_port_def)
qed

text \<open>
  The guest's environment is the allowlist resolved through the provider: a pair is
  selected if and only if its name is allowlisted and the provider gives that value, the
  names come out sorted without repetition, and a provider that differs only on names that
  are not allowlisted selects the same list, so those names are never consulted.
\<close>

theorem selected_environment_spec:
  "((name, v) \<in> set (selected_environment g provider)
       \<longleftrightarrow> allows_environment g name \<and> provider name = Some v)
   \<and> sorted (map fst (selected_environment g provider))
   \<and> distinct (map fst (selected_environment g provider))
   \<and> ((\<forall>n. allows_environment g n \<longrightarrow> provider n = provider' n)
        \<longrightarrow> selected_environment g provider = selected_environment g provider')"
proof (intro conjI impI)
  show "(name, v) \<in> set (selected_environment g provider)
       \<longleftrightarrow> allows_environment g name \<and> provider name = Some v"
    by (auto simp: selected_environment_def set_map_filter environment_names_mem)
  show "sorted (map fst (selected_environment g provider))"
    "distinct (map fst (selected_environment g provider))"
    unfolding map_fst_selected environment_names_def
    using sorted_wrt_filter [OF btree_iter_sorted] distinct_filter [OF btree_iter_distinct]
    by blast+
  assume "\<forall>n. allows_environment g n \<longrightarrow> provider n = provider' n"
  then have "\<forall>n \<in> set (environment_names g). provider n = provider' n"
    by (simp add: environment_names_mem)
  then show "selected_environment g provider = selected_environment g provider'"
    unfolding selected_environment_def by (intro map_filter_cong) simp
qed

theorem selected_environment_spec_witness:
  "selected_environment (grant_empty\<lparr>cg_environment := {|''PATH''|}\<rparr>)
       (\<lambda>n. if n = ''PATH'' then Some ''/bin'' else Some ''secret'')
     = selected_environment (grant_empty\<lparr>cg_environment := {|''PATH''|}\<rparr>)
       (\<lambda>n. if n = ''PATH'' then Some ''/bin'' else None)"
  (is "selected_environment ?g ?p = selected_environment ?g ?q")
proof -
  have "\<forall>n. allows_environment ?g n \<longrightarrow> ?p n = ?q n"
    by (simp add: allows_environment_def)
  then show ?thesis
    using selected_environment_spec [of "''PATH''" "''/bin''" ?g ?p ?q] by (elim conjE) (rule mp)
qed

text \<open>
  C36. Exactly the allowlisted names are queried: whatever the provider does to its own state, the
  run asks it for the allowed names only, each once and in order, and one that only keeps a
  log of its queries gets the list that \<open>selected_environment\<close> builds.
\<close>

theorem selection_queries_allowlist:
  "run_state (selected_environment_in g (recording provider)) queried
     = (selected_environment g provider, queried @ environment_names g)
   \<and> ((\<forall>n. allows_environment g n \<longrightarrow> effect n = effect' n)
        \<longrightarrow> selected_environment_in g effect = selected_environment_in g effect')"
proof
  have "run_state (select_from (recording provider) names) queried
      = (List.map_filter (\<lambda>name. map_option (\<lambda>v. (name, v)) (provider name)) names, queried @ names)"
    for names
    by (induction names arbitrary: queried)
      (auto simp: recording_def State_Monad.update_def List.map_filter_simps split: option.split)
  then show "run_state (selected_environment_in g (recording provider)) queried
     = (selected_environment g provider, queried @ environment_names g)"
    by (simp add: selected_environment_in_def selected_environment_def)
  have "(\<forall>n \<in> set names. effect n = effect' n) \<Longrightarrow> select_from effect names = select_from effect' names"
    for names by (induction names) simp_all
  then show "(\<forall>n. allows_environment g n \<longrightarrow> effect n = effect' n)
        \<longrightarrow> selected_environment_in g effect = selected_environment_in g effect'"
    by (simp add: selected_environment_in_def environment_names_mem)
qed

theorem selection_queries_allowlist_witness:
  "selected_environment_in (grant_empty\<lparr>cg_environment := {|''PATH''|}\<rparr>) (recording (\<lambda>_. Some ''/bin''))
     = selected_environment_in (grant_empty\<lparr>cg_environment := {|''PATH''|}\<rparr>)
         (recording (\<lambda>m. if m = ''PATH'' then Some ''/bin'' else None))"
  (is "selected_environment_in ?g ?p = selected_environment_in ?g ?q")
proof -
  have "\<forall>n. allows_environment ?g n \<longrightarrow> ?p n = ?q n"
    by (simp add: allows_environment_def recording_def)
  then show ?thesis
    using selection_queries_allowlist [of ?g "\<lambda>_. None" "[]" ?p ?q] by (elim conjE) (rule mp)
qed

text \<open>
  Only a purely read-only WASI command runs unapproved: the risk class is
  \<open>AutoApprove\<close> if and only if the request is a WASI one whose grant carries no native
  execution, no writable root, no loopback port of either kind and no environment name.
\<close>

theorem auto_approve_iff_read_only:
  "classify_risk r = AutoApprove \<longleftrightarrow>
     cr_mode r = Wasi \<and> \<not> allows_native_execution (cr_grant r)
     \<and> \<not> list_ex (\<lambda>fs. fg_access fs = ReadWrite) (cg_filesystems (cr_grant r))
     \<and> (\<forall>a k. \<not> permits (from_grant (cr_grant r)) a k)
     \<and> (\<forall>name. \<not> allows_environment (cr_grant r) name)"
proof -
  have "(\<forall>a k. \<not> permits (from_grant g) a k) \<longleftrightarrow>
      cg_loopback_ports g = {||} \<and> cg_loopback_bind_ports g = {||}" (is "?L \<longleftrightarrow> ?R") for g
  proof
    assume ?L
    have lo: "is_loopback (V6 1)" by (simp add: is_loopback_def)
    have "p |\<notin>| cg_loopback_ports g \<and> p |\<notin>| cg_loopback_bind_ports g" for p
      using \<open>?L\<close> [rule_format, of "\<lparr>sa_ip = V6 1, sa_port = p\<rparr>" TcpConnect]
        \<open>?L\<close> [rule_format, of "\<lparr>sa_ip = V6 1, sa_port = p\<rparr>" TcpBind] lo
      by (simp add: permits_from_grant allows_loopback_port_def allows_loopback_bind_port_def)
    then show ?R by auto
  next
    assume ?R
    then show ?L
      by (simp add: permits_from_grant allows_loopback_port_def allows_loopback_bind_port_def)
  qed
  moreover have "(\<forall>name. \<not> allows_environment g name) \<longleftrightarrow> cg_environment g = {||}" for g
    by (auto simp: allows_environment_def)
  moreover have "\<not> list_ex (\<lambda>fs. fg_access fs = ReadWrite) fss
      \<longleftrightarrow> (\<forall>fs \<in> set fss. fg_access fs = Read)" for fss :: "filesystem_grant list"
  proof -
    have "fg_access fs \<noteq> ReadWrite \<longleftrightarrow> fg_access fs = Read" for fs :: filesystem_grant
      by (cases "fg_access fs") simp_all
    then show ?thesis by (simp add: list_ex_iff)
  qed
  ultimately show ?thesis
    unfolding classify_AutoApprove allows_native_execution_def by simp
qed

end
