(* ===== verification/Pipe.thy ===== *)
theory Pipe
  imports Prelude
begin

text \<open>
  \<open>pipe.rs\<close>: the bounded output pipe whose reader drains incrementally.  Every method
  locks the state for its whole body, so each is one atomic operation on the record
  \<open>stream_pipe\<close> (the shared \<open>StreamState\<close> with the pipe's capacity); clones share it.
  \<open>wait_and_drain\<close> is modelled on the state at which its wait ends, and \<open>wait_ends\<close> says
  when that is.  The laws the reader of a session relies on are the locale \<open>byte_pipe\<close>,
  interpreted once for the synchronous and once for the asynchronous writer.
\<close>

section \<open>State\<close>

record stream_state =
  st_buffer :: bytes
  st_read_pos :: nat
  st_eof :: bool
  st_closed :: bool

record stream_pipe = stream_state +
  sp_capacity :: usize

text \<open>The errors the two writer interfaces report.\<close>

datatype stream_error = Closed | Trap string

datatype io_error = WriteZero string

section \<open>Operations\<close>

definition pipe_new :: "usize \<Rightarrow> stream_pipe" where
  "pipe_new capacity = \<lparr>st_buffer = [], st_read_pos = 0, st_eof = False, st_closed = False,
     sp_capacity = capacity\<rparr>"

text \<open>The wait ends when its predicate is false, or when the timeout has passed.\<close>

definition wait_ends :: "stream_pipe \<Rightarrow> bool \<Rightarrow> bool" where
  "wait_ends p timed_out =
     (\<not> (st_read_pos p = length (st_buffer p) \<and> \<not> st_eof p) \<or> timed_out)"

definition wait_and_drain :: "stream_pipe \<Rightarrow> (bytes \<times> bool) \<times> stream_pipe" where
  "wait_and_drain p =
     ((drop (st_read_pos p) (st_buffer p), st_eof p),
      p\<lparr>st_read_pos := length (st_buffer p)\<rparr>)"

definition pipe_contents :: "stream_pipe \<Rightarrow> bytes" where
  "pipe_contents p = st_buffer p"

definition set_eof :: "stream_pipe \<Rightarrow> stream_pipe" where
  "set_eof p = p\<lparr>st_eof := True\<rparr>"

definition pipe_close :: "stream_pipe \<Rightarrow> stream_pipe" where
  "pipe_close p = p\<lparr>st_closed := True\<rparr>"

text \<open>The free space; \<open>usize\<close> subtraction, which wraps if the buffer is over capacity.\<close>

definition free_space :: "stream_pipe \<Rightarrow> usize" where
  "free_space p = sp_capacity p - of_nat (length (st_buffer p))"

definition pipe_write :: "stream_pipe \<Rightarrow> bytes \<Rightarrow> stream_pipe \<times> (stream_error + unit)" where
  "pipe_write p b =
     (if st_closed p then (p, Err Closed)
      else if unat (free_space p) < length b
        then (p, Err (Trap ''write beyond capacity of StreamOutputPipe''))
      else (p\<lparr>st_buffer := st_buffer p @ b\<rparr>, Ok ()))"

definition pipe_flush :: "stream_pipe \<Rightarrow> stream_error + unit" where
  "pipe_flush p = Ok ()"

definition check_write :: "stream_pipe \<Rightarrow> stream_error + usize" where
  "check_write p =
     (if st_closed p then Err Closed
      else if length (st_buffer p) < unat (sp_capacity p) then Ok (free_space p)
      else Err Closed)"

definition is_terminal :: "stream_pipe \<Rightarrow> bool" where
  "is_terminal p = False"

definition poll_write :: "stream_pipe \<Rightarrow> bytes \<Rightarrow> stream_pipe \<times> (io_error + nat)" where
  "poll_write p b =
     (if st_closed p \<or> unat (sp_capacity p) \<le> length (st_buffer p)
        then (p, Err (WriteZero ''StreamOutputPipe is closed or full''))
      else (let amt = min (length b) (unat (free_space p))
            in (p\<lparr>st_buffer := st_buffer p @ take amt b\<rparr>, Ok amt)))"

definition poll_flush :: "stream_pipe \<Rightarrow> io_error + unit" where
  "poll_flush p = Ok ()"

definition poll_shutdown :: "stream_pipe \<Rightarrow> stream_pipe \<times> (io_error + unit)" where
  "poll_shutdown p = (set_eof p, Ok ())"

section \<open>The invariant\<close>

definition pipe_wf :: "stream_pipe \<Rightarrow> bool" where
  "pipe_wf p = (st_read_pos p \<le> length (st_buffer p)
     \<and> length (st_buffer p) \<le> unat (sp_capacity p))"

text \<open>The bytes the reader has been given.\<close>

definition delivered :: "stream_pipe \<Rightarrow> bytes" where
  "delivered p = take (st_read_pos p) (st_buffer p)"

named_theorems pipe_defs \<open>definitions of the pipe operations\<close>

lemmas [pipe_defs] =
  pipe_new_def wait_and_drain_def pipe_contents_def set_eof_def pipe_close_def pipe_write_def
  check_write_def poll_write_def poll_shutdown_def delivered_def

lemma unat_free_space:
  "pipe_wf p \<Longrightarrow> unat (free_space p) = unat (sp_capacity p) - length (st_buffer p)"
  by (simp add: pipe_wf_def free_space_def unat_sub_len)

lemma pipe_new_wf: "pipe_wf (pipe_new c)"
  by (simp add: pipe_wf_def pipe_new_def)

section \<open>The interface\<close>

text \<open>
  An append-only byte queue with a capacity: \<open>written\<close> is everything in it,
  \<open>given\<close> everything drained from it, and \<open>accepted\<close> what the writer is told a put has
  taken.  A put appends exactly that.
\<close>

datatype pipe_op = PutOp bytes | DrainOp | CloseOp | EofOp

locale byte_pipe =
  fixes invar :: "'p \<Rightarrow> bool"
    and cap :: "'p \<Rightarrow> nat"
    and written :: "'p \<Rightarrow> bytes"
    and given :: "'p \<Rightarrow> bytes"
    and closed :: "'p \<Rightarrow> bool"
    and put :: "'p \<Rightarrow> bytes \<Rightarrow> 'p"
    and accepted :: "'p \<Rightarrow> bytes \<Rightarrow> bytes"
    and drain :: "'p \<Rightarrow> (bytes \<times> bool) \<times> 'p"
    and close_pipe :: "'p \<Rightarrow> 'p"
    and end_pipe :: "'p \<Rightarrow> 'p"
  assumes invar_put: "invar p \<Longrightarrow> invar (put p b)"
    and invar_drain: "invar p \<Longrightarrow> invar (snd (drain p))"
    and invar_close: "invar p \<Longrightarrow> invar (close_pipe p)"
    and invar_end: "invar p \<Longrightarrow> invar (end_pipe p)"
    and bounded: "invar p \<Longrightarrow> length (written p) \<le> cap p"
    and given_prefix: "invar p \<Longrightarrow> prefix (given p) (written p)"
    and put_appends: "invar p \<Longrightarrow> written (put p b) = written p @ accepted p b"
    and put_given: "invar p \<Longrightarrow> given (put p b) = given p"
    and put_frame: "cap (put p b) = cap p" "closed (put p b) = closed p"
    and put_closed: "closed p \<Longrightarrow> written (put p b) = written p" "closed p \<Longrightarrow> accepted p b = []"
    and drain_written: "written (snd (drain p)) = written p"
    and drain_given: "given (snd (drain p)) = written p"
    and drain_bytes: "invar p \<Longrightarrow> given p @ fst (fst (drain p)) = written p"
    and drain_frame: "cap (snd (drain p)) = cap p" "closed (snd (drain p)) = closed p"
    and close_frame: "written (close_pipe p) = written p" "given (close_pipe p) = given p"
      "cap (close_pipe p) = cap p" "closed (close_pipe p)"
    and end_frame: "written (end_pipe p) = written p" "given (end_pipe p) = given p"
      "cap (end_pipe p) = cap p" "closed (end_pipe p) = closed p"
begin

text \<open>A pipe under a sequence of operations, with the chunks its reader received.\<close>

fun step :: "'p \<Rightarrow> pipe_op \<Rightarrow> bytes \<times> 'p" where
  "step p (PutOp b) = ([], put p b)"
| "step p DrainOp = (fst (fst (drain p)), snd (drain p))"
| "step p CloseOp = ([], close_pipe p)"
| "step p EofOp = ([], end_pipe p)"

fun run :: "'p \<Rightarrow> pipe_op list \<Rightarrow> bytes \<times> 'p" where
  "run p [] = ([], p)"
| "run p (x # xs) = (fst (step p x) @ fst (run (snd (step p x)) xs), snd (run (snd (step p x)) xs))"

text \<open>The history of the writers: what they were told was accepted, in order.\<close>

fun history :: "'p \<Rightarrow> pipe_op list \<Rightarrow> bytes" where
  "history p [] = []"
| "history p (PutOp b # xs) = accepted p b @ history (put p b) xs"
| "history p (x # xs) = history (snd (step p x)) xs"

lemma step_invar: "invar p \<Longrightarrow> invar (snd (step p x))"
  by (cases x) (simp_all add: invar_put invar_drain invar_close invar_end)

lemma step_given: "invar p \<Longrightarrow> given (snd (step p x)) = given p @ fst (step p x)"
  by (cases x) (simp_all add: put_given close_frame end_frame drain_given drain_bytes)

lemma step_frame: "cap (snd (step p x)) = cap p" "closed p \<Longrightarrow> closed (snd (step p x))"
  by (cases x; simp add: put_frame drain_frame close_frame end_frame)+

lemma step_closed: "closed p \<Longrightarrow> written (snd (step p x)) = written p"
  by (cases x) (simp_all add: put_closed(1) drain_written close_frame end_frame)

lemma run_invar: "invar p \<Longrightarrow> invar (snd (run p xs))"
  by (induction xs arbitrary: p) (simp_all add: step_invar)

lemma run_given: "invar p \<Longrightarrow> given (snd (run p xs)) = given p @ fst (run p xs)"
  by (induction xs arbitrary: p) (simp_all add: step_invar step_given)

lemma run_history: "invar p \<Longrightarrow> written (snd (run p xs)) = written p @ history p xs"
proof (induction xs arbitrary: p)
  case (Cons x xs)
  from Cons.IH [OF step_invar [OF Cons.prems, of x]] show ?case
    by (cases x) (simp_all add: put_appends Cons.prems drain_written close_frame end_frame)
qed simp

lemma run_cap: "cap (snd (run p xs)) = cap p"
  by (induction xs arbitrary: p) (simp_all add: step_frame)

lemma run_closed: "closed p \<Longrightarrow> written (snd (run p xs)) = written p"
  by (induction xs arbitrary: p) (simp_all add: step_frame step_closed)

lemma run_delivers:
  assumes "invar p" "given p = []" "written p = []"
  shows "written (snd (run p xs)) = history p xs"
    and "prefix (fst (run p xs)) (history p xs)"
    and "fst (run p (xs @ [DrainOp])) = history p xs"
    and "length (history p xs) \<le> cap p"
proof -
  have given: "given (snd (run p xs)) = fst (run p xs)" using run_given assms by simp
  show written: "written (snd (run p xs)) = history p xs" using run_history [OF assms(1)] assms(3) by simp
  from given show "prefix (fst (run p xs)) (history p xs)"
    using given_prefix [OF run_invar] assms(1) written by metis
  have app: "run p (xs @ ys)
      = (fst (run p xs) @ fst (run (snd (run p xs)) ys), snd (run (snd (run p xs)) ys))" for ys
    by (induction xs arbitrary: p) simp_all
  show "fst (run p (xs @ [DrainOp])) = history p xs"
    using app [of "[DrainOp]"] drain_bytes [OF run_invar [OF assms(1)], of xs] given written by simp
  show "length (history p xs) \<le> cap p"
    using bounded [OF run_invar [OF assms(1)], of xs] run_cap written by simp
qed

end

definition sync_put :: "stream_pipe \<Rightarrow> bytes \<Rightarrow> stream_pipe" where
  "sync_put p b = fst (pipe_write p b)"

definition async_put :: "stream_pipe \<Rightarrow> bytes \<Rightarrow> stream_pipe" where
  "async_put p b = fst (poll_write p b)"

text \<open>
  What the result of a write tells its caller: \<open>write\<close> took all of it or nothing,
  \<open>poll_write\<close> the number of bytes that it returns.
\<close>

definition sync_accepted :: "stream_pipe \<Rightarrow> bytes \<Rightarrow> bytes" where
  "sync_accepted p b = (case snd (pipe_write p b) of Inr _ \<Rightarrow> b | Inl _ \<Rightarrow> [])"

definition async_accepted :: "stream_pipe \<Rightarrow> bytes \<Rightarrow> bytes" where
  "async_accepted p b = (case snd (poll_write p b) of Inr n \<Rightarrow> take n b | Inl _ \<Rightarrow> [])"

lemma sync_put_cases:
  assumes "pipe_wf p"
  shows "sync_put p b = (if \<not> st_closed p \<and> length (st_buffer p) + length b \<le> unat (sp_capacity p)
           then p\<lparr>st_buffer := st_buffer p @ b\<rparr> else p)"
  using assms by (auto simp: sync_put_def pipe_write_def unat_free_space pipe_wf_def)

lemma async_put_cases:
  assumes "pipe_wf p"
  shows "async_put p b = (if \<not> st_closed p
           then p\<lparr>st_buffer := st_buffer p @ take (unat (sp_capacity p) - length (st_buffer p)) b\<rparr>
           else p)"
  using assms by (auto simp: async_put_def poll_write_def unat_free_space Let_def min_def)

interpretation sync_pipe: byte_pipe pipe_wf "\<lambda>p. unat (sp_capacity p)" st_buffer delivered st_closed
  sync_put sync_accepted wait_and_drain pipe_close set_eof
proof
  fix p b
  assume wf: "pipe_wf p"
  show "pipe_wf (sync_put p b)" "delivered (sync_put p b) = delivered p"
    using wf by (auto simp: sync_put_cases [OF wf] pipe_wf_def delivered_def)
qed (auto simp: pipe_defs sync_put_def sync_accepted_def pipe_wf_def take_is_prefix)

interpretation async_pipe: byte_pipe pipe_wf "\<lambda>p. unat (sp_capacity p)" st_buffer delivered st_closed
  async_put async_accepted wait_and_drain pipe_close set_eof
proof
  fix p b
  assume wf: "pipe_wf p"
  show "pipe_wf (async_put p b)" "delivered (async_put p b) = delivered p"
    using wf by (auto simp: async_put_cases [OF wf] pipe_wf_def delivered_def)
qed (auto simp: pipe_defs async_put_def async_accepted_def pipe_wf_def take_is_prefix Let_def)

section \<open>Properties\<close>

text \<open>
  C39. No byte is lost, repeated or reordered: whatever writes, drains, closes and
  end-of-stream signals reach a fresh pipe, it holds exactly the bytes that its writers were
  told were accepted (all of a write that returned \<open>Ok\<close>, the first \<open>n\<close> of a \<open>poll_write\<close> that
  returned \<open>Ok n\<close>, nothing of one that failed), the chunks its reader received are a prefix
  of them, one more drain delivers them all, and they are never more than the capacity; this
  holds for the synchronous and for the asynchronous writer.
\<close>

theorem pipe_delivers_in_order:
  "pipe_contents (snd (sync_pipe.run (pipe_new c) xs)) = sync_pipe.history (pipe_new c) xs
   \<and> prefix (fst (sync_pipe.run (pipe_new c) xs)) (sync_pipe.history (pipe_new c) xs)
   \<and> fst (sync_pipe.run (pipe_new c) (xs @ [DrainOp])) = sync_pipe.history (pipe_new c) xs
   \<and> length (sync_pipe.history (pipe_new c) xs) \<le> unat c
   \<and> pipe_contents (snd (async_pipe.run (pipe_new c) xs)) = async_pipe.history (pipe_new c) xs
   \<and> prefix (fst (async_pipe.run (pipe_new c) xs)) (async_pipe.history (pipe_new c) xs)
   \<and> fst (async_pipe.run (pipe_new c) (xs @ [DrainOp])) = async_pipe.history (pipe_new c) xs
   \<and> length (async_pipe.history (pipe_new c) xs) \<le> unat c"
proof -
  have "delivered (pipe_new c) = []" "st_buffer (pipe_new c) = []" "sp_capacity (pipe_new c) = c"
    by (simp_all add: delivered_def pipe_new_def)
  then show ?thesis
    using sync_pipe.run_delivers [OF pipe_new_wf, of c xs] async_pipe.run_delivers [OF pipe_new_wf, of c xs]
    by (simp add: pipe_contents_def)
qed

text \<open>
  \<open>check_write\<close> predicts the writers: on a well-formed pipe it reports a positive number
  of bytes, and then a write is accepted exactly when it is no longer than that; when it
  reports the pipe closed, every non-empty write of either kind fails.
\<close>

theorem check_write_predicts_write:
  assumes "pipe_wf p"
  shows "case check_write p of
      Inr n \<Rightarrow> 0 < unat n \<and> (is_ok (snd (pipe_write p b)) \<longleftrightarrow> length b \<le> unat n)
    | Inl _ \<Rightarrow> b \<noteq> [] \<longrightarrow> \<not> is_ok (snd (pipe_write p b)) \<and> \<not> is_ok (snd (poll_write p b))"
  using assms
  by (auto simp: check_write_def pipe_write_def poll_write_def unat_free_space pipe_wf_def)

theorem check_write_predicts_write_witness:
  "is_ok (snd (pipe_write (pipe_new 4) [1, 2, 3, 4])) \<and> \<not> is_ok (snd (pipe_write (pipe_new 4) [1, 2, 3, 4, 5]))"
proof -
  have "check_write (pipe_new 4) = Inr 4"
    by (simp add: check_write_def pipe_new_def free_space_def)
  then show ?thesis
    using check_write_predicts_write [OF pipe_new_wf [of 4], of "[1, 2, 3, 4]"]
      check_write_predicts_write [OF pipe_new_wf [of 4], of "[1, 2, 3, 4, 5]"] by simp
qed

text \<open>
  The asynchronous writer never reports a write of zero bytes for a non-empty buffer: a
  successful \<open>poll_write\<close> took a number of bytes between one and the length of the buffer
  and appended exactly those; a failed one, of either writer, left the pipe as it was.
\<close>

theorem poll_write_progress:
  assumes "pipe_wf p" and "b \<noteq> []"
  shows "(case poll_write p b of
      (p', Inr n) \<Rightarrow> 0 < n \<and> n \<le> length b
        \<and> pipe_contents p' = pipe_contents p @ take n b \<and> delivered p' = delivered p
    | (p', Inl _) \<Rightarrow> p' = p)
    \<and> (\<not> is_ok (snd (pipe_write p b)) \<longrightarrow> fst (pipe_write p b) = p)"
  using assms
  by (auto simp: poll_write_def pipe_write_def unat_free_space pipe_wf_def pipe_contents_def
      delivered_def Let_def)

theorem poll_write_progress_witness:
  "case poll_write (pipe_new 2) [7, 8, 9] of
     (p', Inr n) \<Rightarrow> 0 < n \<and> n \<le> length [7, 8, 9 :: u8]
        \<and> pipe_contents p' = pipe_contents (pipe_new 2) @ take n [7, 8, 9]
        \<and> delivered p' = delivered (pipe_new 2)
   | (p', Inl _) \<Rightarrow> p' = pipe_new 2"
  by (rule poll_write_progress [THEN conjunct1]) (simp_all add: pipe_new_wf)

text \<open>
  A closed pipe takes nothing more but keeps what it has: after \<open>close\<close>, no sequence of
  operations changes the contents, every write fails, and the reader can still drain the
  rest.
\<close>

theorem closed_pipe_frozen:
  "pipe_contents (snd (sync_pipe.run (pipe_close p) xs)) = pipe_contents p
   \<and> pipe_contents (snd (async_pipe.run (pipe_close p) xs)) = pipe_contents p
   \<and> pipe_write (pipe_close p) b = (pipe_close p, Err Closed)
   \<and> \<not> is_ok (snd (poll_write (pipe_close p) b))
   \<and> fst (fst (wait_and_drain (pipe_close p))) = drop (st_read_pos p) (pipe_contents p)"
  using sync_pipe.run_closed [of "pipe_close p" xs] async_pipe.run_closed [of "pipe_close p" xs]
  by (simp add: pipe_defs)

end
