(* ===== verification/Runtime.thy ===== *)
theory Runtime
  imports Policy Cancel
begin

text \<open>
  \<open>lib.rs\<close>: building the store of a guest from its request, and the capturing run with its
  watchdog.  The operating system and the Wasmtime library are the fields of a record
  \<open>host\<close>: each answers a call the code makes with its error, if any.  A library error is
  known by its message.  What the guest does is the argument \<open>guest\<close> of the run.
\<close>

section \<open>Errors and results\<close>

type_synonym wasm_error = string

datatype runtime_error =
    RtEngine wasm_error
  | RtComponent wasm_error
  | RtCommand command_error
  | RtWasi wasm_error
  | RtWrongMode
  | RtCancelled

record wasi_output =
  wo_stdout :: bytes
  wo_stderr :: bytes
  wo_exit_code :: i32

text \<open>
  What a store was configured with: the builder calls in order, the store limits, the fuel
  and the epoch deadline relative to the epoch at the time.
\<close>

record store_config =
  sc_builder :: wasi_builder
  sc_memory_size :: usize
  sc_instances :: nat
  sc_tables :: nat
  sc_memories :: nat
  sc_fuel :: u64
  sc_epoch_deadline :: u64

record 'c host =
  h_canonicalize :: "path \<Rightarrow> path option"
  h_env :: "string \<Rightarrow> string option"
  h_preopened_dir :: "path \<Rightarrow> string \<Rightarrow> perms \<Rightarrow> perms \<Rightarrow> wasm_error option"
  h_add_to_linker :: "wasm_error option"
  h_set_fuel :: "u64 \<Rightarrow> wasm_error option"
  h_component_new :: "bytes \<Rightarrow> wasm_error + 'c"
  h_instantiate :: "'c \<Rightarrow> store_config \<Rightarrow> wasm_error option"

text \<open>Creating a runtime creates its engine; \<open>engine\<close> is the answer of \<open>Engine::new\<close>.\<close>

definition wasi_runtime_new :: "wasm_error + unit \<Rightarrow> runtime_error + unit" where
  "wasi_runtime_new engine = map_err RtEngine engine"

definition compile_component :: "'c host \<Rightarrow> bytes \<Rightarrow> runtime_error + 'c" where
  "compile_component h b = map_err RtComponent (h_component_new h b)"

section \<open>Building the store\<close>

definition epoch_ticks :: "resource_limits \<Rightarrow> u64" where
  "epoch_ticks l = max (saturating_mul (limits_timeout_seconds l) 10) 1"

text \<open>The decimal digits of an index, as \<open>format!\<close> writes them.\<close>

fun show_nat :: "nat \<Rightarrow> string" where
  "show_nat n =
     (if n < 10 then [char_of (48 + n)] else show_nat (n div 10) @ [char_of (48 + n mod 10)])"

declare show_nat.simps [simp del]

definition guest_root_of :: "nat \<Rightarrow> string" where
  "guest_root_of index = (if index = 0 then ''/workspace'' else ''/grant-'' @ show_nat index)"

definition perms_of :: "filesystem_access \<Rightarrow> perms" where
  "perms_of a = (case a of Read \<Rightarrow> PermsRead | ReadWrite \<Rightarrow> PermsAll)"

text \<open>
  The loop over the granted roots: each is resolved and preopened, and the first that
  contains the working directory gives the guest's.
\<close>

fun preopen_loop ::
    "'c host \<Rightarrow> path \<Rightarrow> nat \<Rightarrow> filesystem_grant list \<Rightarrow> wasi_builder \<Rightarrow> string option
       \<Rightarrow> runtime_error + (wasi_builder \<times> string option)" where
  "preopen_loop h cwd index [] b cwd_guest = Ok (b, cwd_guest)"
| "preopen_loop h cwd index (fs # fss) b cwd_guest =
     (let guest_root = guest_root_of index;
          dir_perms = perms_of (fs_access fs);
          file_perms = perms_of (fs_access fs)
      in case h_canonicalize h (fs_root fs) of
           None \<Rightarrow> Err (RtCommand (WorkingDirectoryDenied (fs_root fs)))
         | Some host_root \<Rightarrow>
             (case h_preopened_dir h host_root guest_root dir_perms file_perms of
                Some e \<Rightarrow> Err (RtWasi e)
              | None \<Rightarrow>
                  preopen_loop h cwd (Suc index) fss
                    (b @ [BPreopenedDir host_root guest_root dir_perms file_perms])
                    (if cwd_guest = None then guest_path_for fs cwd guest_root else cwd_guest)))"

definition build_store ::
    "'c host \<Rightarrow> command_request \<Rightarrow> (string \<Rightarrow> string option) \<Rightarrow> runtime_error + store_config" where
  "build_store h r env_provider = (case validate r of
     Inl e \<Rightarrow> Err (RtCommand e)
   | Inr _ \<Rightarrow>
      if cr_mode r \<noteq> Wasi then Err RtWrongMode
      else if \<not> allows_existing_path (h_canonicalize h) (cr_grant r) (cr_cwd r)
        then Err (RtCommand (WorkingDirectoryDenied (cr_cwd r)))
      else
        (let b0 = [BArgs (cr_args r), BInitialCwd ''/workspace'', BStdout, BStderr];
             b1 = b0 @ map (\<lambda>(name, v). BEnv name v) (selected_environment (cr_grant r) env_provider);
             b2 = policy_apply (from_grant (cr_grant r)) b1
         in case preopen_loop h (cr_cwd r) 0 (filesystem_grants (cr_grant r)) b2 None of
              Inl e \<Rightarrow> Err e
            | Inr (b3, cwd_guest) \<Rightarrow>
                (let b4 = (case cwd_guest of None \<Rightarrow> b3 | Some g \<Rightarrow> b3 @ [BInitialCwd g])
                 in case h_add_to_linker h of
                      Some e \<Rightarrow> Err (RtWasi e)
                    | None \<Rightarrow>
                       (case h_set_fuel h (limits_max_fuel (grant_limits (cr_grant r))) of
                          Some e \<Rightarrow> Err (RtWasi e)
                        | None \<Rightarrow> Ok \<lparr>
                            sc_builder = b4,
                            sc_memory_size = limits_max_memory_bytes (grant_limits (cr_grant r)),
                            sc_instances = 16, sc_tables = 16, sc_memories = 16,
                            sc_fuel = limits_max_fuel (grant_limits (cr_grant r)),
                            sc_epoch_deadline = epoch_ticks (grant_limits (cr_grant r))\<rparr>))))"

section \<open>The watchdog of a capturing run\<close>

text \<open>
  The loop of the watchdog thread.  \<open>cancelled i\<close> is what its \<open>i\<close>-th look at the handle
  finds (never true without a handle) and \<open>stopped i\<close> whether its \<open>i\<close>-th wait of 100ms
  ends with the stop message or a hang-up instead of the timeout; the result is the number
  of times it increments the engine's epoch.
\<close>

function watchdog_loop :: "(nat \<Rightarrow> bool) \<Rightarrow> (nat \<Rightarrow> bool) \<Rightarrow> u64 \<Rightarrow> nat \<Rightarrow> u64 \<Rightarrow> nat" where
  "watchdog_loop cancelled stopped deadline i ticks =
     (if cancelled i then unat deadline
      else if deadline \<le> ticks then 0
      else if stopped i then 0
      else Suc (watchdog_loop cancelled stopped deadline (Suc i) (ticks + 1)))"
  by pat_completeness auto
termination
proof (relation "measure (\<lambda>(_, _, deadline, _, ticks). unat deadline - unat ticks)", goal_cases)
  case (2 cancelled stopped deadline i ticks)
  then have "unat ticks < unat deadline" by (simp add: word_le_nat_alt)
  moreover from this have "unat (ticks + 1) = unat ticks + 1"
    using unat_lt_2_64 [of deadline] unat_add_len [of ticks 1] by simp
  ultimately show ?case by simp
qed simp

declare watchdog_loop.simps [simp del]

definition watchdog :: "(nat \<Rightarrow> bool) \<Rightarrow> (nat \<Rightarrow> bool) \<Rightarrow> u64 \<Rightarrow> nat" where
  "watchdog cancelled stopped deadline = watchdog_loop cancelled stopped deadline 0 0"

text \<open>A guest whose deadline is \<open>d\<close> epochs away is interrupted once the epoch moved by \<open>d\<close>.\<close>

definition deadline_reached :: "u64 \<Rightarrow> nat \<Rightarrow> bool" where
  "deadline_reached deadline increments = (unat deadline \<le> increments)"

section \<open>The capturing run\<close>

text \<open>How \<open>call_run\<close> returns: the guest's own success or failure, or a trap.\<close>

datatype guest_result = GuestOk | GuestErr | GuestTrap wasm_error

text \<open>
  \<open>guest\<close> runs the instantiated component in its store: it yields the result, what the two
  output pipes hold, and the cancellation store at the end.
\<close>

type_synonym 'c guest = "'c \<Rightarrow> store_config \<Rightarrow> guest_result \<times> bytes \<times> bytes \<times> cancel_store"

definition run_wasi_inner ::
    "'c host \<Rightarrow> 'c guest \<Rightarrow> 'c \<Rightarrow> command_request \<Rightarrow> cancel_handle option
       \<Rightarrow> runtime_error + wasi_output" where
  "run_wasi_inner h guest component r cancel = (case build_store h r (h_env h) of
     Inl e \<Rightarrow> Err e
   | Inr store \<Rightarrow>
      (case h_instantiate h component store of
         Some e \<Rightarrow> Err (RtWasi e)
       | None \<Rightarrow>
          (case guest component store of
             (GuestOk, out, err, m) \<Rightarrow> Ok \<lparr>wo_stdout = out, wo_stderr = err, wo_exit_code = 0\<rparr>
           | (GuestErr, out, err, m) \<Rightarrow> Ok \<lparr>wo_stdout = out, wo_stderr = err, wo_exit_code = 1\<rparr>
           | (GuestTrap e, out, err, m) \<Rightarrow>
               (if (case cancel of None \<Rightarrow> False | Some handle \<Rightarrow> is_cancelled m handle)
                then Err RtCancelled else Err (RtWasi e)))))"

definition run_wasi ::
    "'c host \<Rightarrow> 'c guest \<Rightarrow> 'c \<Rightarrow> command_request \<Rightarrow> runtime_error + wasi_output" where
  "run_wasi h guest component r = run_wasi_inner h guest component r None"

definition run_wasi_cancellable ::
    "'c host \<Rightarrow> 'c guest \<Rightarrow> 'c \<Rightarrow> command_request \<Rightarrow> cancel_handle
       \<Rightarrow> runtime_error + wasi_output" where
  "run_wasi_cancellable h guest component r cancel =
     run_wasi_inner h guest component r (Some cancel)"

section \<open>Lemmas\<close>

lemma unat_epoch_ticks: "unat (epoch_ticks l) = max (min (10 * unat (rl_timeout_seconds l)) (2 ^ 64 - 1)) 1"
  by (auto simp: epoch_ticks_def max_def word_le_nat_alt unat_saturating_mul mult.commute)

lemma epoch_ticks_pos: "0 < unat (epoch_ticks l)"
  by (simp add: unat_epoch_ticks)

lemma watchdog_loop_quiet:
  assumes "\<forall>j<k. \<not> cancelled (i + j) \<and> \<not> stopped (i + j)" "unat ticks + k \<le> unat deadline"
  shows "watchdog_loop cancelled stopped deadline i ticks
       = k + watchdog_loop cancelled stopped deadline (i + k) (ticks + of_nat k)"
  using assms
proof (induction k arbitrary: i ticks)
  case (Suc k)
  have lt: "unat ticks < unat deadline" using Suc.prems(2) by simp
  then have tick: "unat (ticks + 1) = unat ticks + 1"
    using unat_lt_2_64 [of deadline] unat_add_len [of ticks 1] by simp
  have "\<not> cancelled i" "\<not> stopped i" using Suc.prems(1) by force+
  then have "watchdog_loop cancelled stopped deadline i ticks
      = Suc (watchdog_loop cancelled stopped deadline (Suc i) (ticks + 1))"
    using lt by (subst watchdog_loop.simps) (simp add: word_le_nat_alt)
  also have "watchdog_loop cancelled stopped deadline (Suc i) (ticks + 1)
      = k + watchdog_loop cancelled stopped deadline (Suc i + k) (ticks + 1 + of_nat k)"
    using Suc.prems tick by (intro Suc.IH) auto
  finally show ?case by (simp add: add.assoc)
qed simp

lemma watchdog_quiet:
  assumes "\<forall>j<k. \<not> cancelled j \<and> \<not> stopped j" "k \<le> unat deadline"
  shows "watchdog cancelled stopped deadline
       = k + watchdog_loop cancelled stopped deadline k (of_nat k)"
  using watchdog_loop_quiet [of k cancelled 0 stopped 0 deadline] assms
  by (simp add: watchdog_def)

lemma unat_of_nat_le: "k \<le> unat (d :: u64) \<Longrightarrow> unat (of_nat k :: u64) = k"
  using unat_lt_2_64 [of d] by (simp add: unat_of_nat take_bit_eq_mod)

text \<open>The environment variables a sequence of builder calls sets.\<close>

definition env_calls :: "wasi_builder \<Rightarrow> (string \<times> string) list" where
  "env_calls b = List.map_filter (\<lambda>c. case c of BEnv n v \<Rightarrow> Some (n, v) | _ \<Rightarrow> None) b"

text \<open>The directories it preopens.\<close>

definition preopens :: "wasi_builder \<Rightarrow> (path \<times> string \<times> perms \<times> perms) list" where
  "preopens b = List.map_filter
     (\<lambda>c. case c of BPreopenedDir h g d f \<Rightarrow> Some (h, g, d, f) | _ \<Rightarrow> None) b"

text \<open>What it does about the network, in order.\<close>

definition network_call :: "builder_call \<Rightarrow> bool" where
  "network_call c = (case c of BAllowIpNameLookup _ \<Rightarrow> True | BAllowUdp _ \<Rightarrow> True
     | BAllowTcp _ \<Rightarrow> True | BSocketAddrCheck _ \<Rightarrow> True | _ \<Rightarrow> False)"

definition network_calls :: "wasi_builder \<Rightarrow> builder_call list" where
  "network_calls b = filter network_call b"

text \<open>
  The network a grant promises: no name lookup, no UDP, and TCP only when some loopback port
  is granted, then behind a check that knows those ports.
\<close>

definition granted_network :: "capability_grant \<Rightarrow> builder_call list" where
  "granted_network g =
     (if cg_loopback_ports g = {||} \<and> cg_loopback_bind_ports g = {||}
      then [BAllowIpNameLookup False, BAllowUdp False, BAllowTcp False]
      else [BAllowIpNameLookup False, BAllowUdp False, BAllowTcp True,
            BSocketAddrCheck \<lparr>np_tcp = True, np_allowed_connect_ports = cg_loopback_ports g,
              np_allowed_bind_ports = cg_loopback_bind_ports g, np_udp = False\<rparr>])"

text \<open>
  The preopened directory a granted root promises: its resolution, under the guest root of
  its index, writable only if the root is.
\<close>

definition granted_directory ::
    "'c host \<Rightarrow> nat \<times> filesystem_grant \<Rightarrow> path \<times> string \<times> perms \<times> perms \<Rightarrow> bool" where
  "granted_directory h root dir = (case root of (index, fs) \<Rightarrow> case dir of (host_root, guest_root, dir_perms, file_perms) \<Rightarrow>
     h_canonicalize h (fg_root fs) = Some host_root
     \<and> guest_root = (if index = 0 then ''/workspace'' else ''/grant-'' @ show_nat index)
     \<and> dir_perms = (if fg_access fs = ReadWrite then PermsAll else PermsRead)
     \<and> file_perms = (if fg_access fs = ReadWrite then PermsAll else PermsRead))"

text \<open>The last working directory it sets.\<close>

definition final_cwd :: "wasi_builder \<Rightarrow> string option" where
  "final_cwd b = fold (\<lambda>c acc. case c of BInitialCwd d \<Rightarrow> Some d | _ \<Rightarrow> acc) b None"

lemma env_calls_append: "env_calls (a @ b) = env_calls a @ env_calls b"
  by (simp add: env_calls_def map_filter_append)

lemma preopens_append: "preopens (a @ b) = preopens a @ preopens b"
  by (simp add: preopens_def map_filter_append)

lemma builder_views_simps [simp]:
  "env_calls [] = []" "preopens [] = []"
  "env_calls (c # cs) = (case c of BEnv n v \<Rightarrow> [(n, v)] | _ \<Rightarrow> []) @ env_calls cs"
  "preopens (c # cs) = (case c of BPreopenedDir h g d f \<Rightarrow> [(h, g, d, f)] | _ \<Rightarrow> []) @ preopens cs"
  by (simp_all add: env_calls_def preopens_def List.map_filter_simps split: builder_call.splits)

lemma network_calls_simps [simp]:
  "network_calls [] = []" "network_calls (c # cs) = (if network_call c then [c] else []) @ network_calls cs"
  "network_calls (a @ b) = network_calls a @ network_calls b"
  by (simp_all add: network_calls_def)

lemma network_calls_env [simp]: "network_calls (map (\<lambda>(n, v). BEnv n v) xs) = []"
  by (induction xs) (auto simp: network_call_def)

lemma policy_network: "network_calls (policy_apply (from_grant g) b) = network_calls b @ granted_network g"
  by (auto simp: policy_apply_def from_grant_def granted_network_def network_call_def Let_def
      loopback_ports_def loopback_bind_ports_def)

lemma env_calls_map_BEnv [simp]: "env_calls (map (\<lambda>(n, v). BEnv n v) xs) = xs"
  by (induction xs) auto

lemma preopens_map_BEnv [simp]: "preopens (map (\<lambda>(n, v). BEnv n v) xs) = []"
  by (induction xs) auto

lemma preopens_mem: "(h, g, d, f) \<in> set (preopens b) \<longleftrightarrow> BPreopenedDir h g d f \<in> set b"
  by (induction b) (auto split: builder_call.splits)

text \<open>The loop over the roots, root by root.\<close>

definition preopen_call :: "'c host \<Rightarrow> nat \<times> filesystem_grant \<Rightarrow> builder_call \<Rightarrow> bool" where
  "preopen_call h ifs c = (case ifs of (index, fs) \<Rightarrow>
     (case h_canonicalize h (fg_root fs) of
        None \<Rightarrow> False
      | Some root \<Rightarrow> c = BPreopenedDir root (guest_root_of index)
                            (perms_of (fg_access fs)) (perms_of (fg_access fs))))"

fun first_guest_path :: "path \<Rightarrow> nat \<Rightarrow> filesystem_grant list \<Rightarrow> string option" where
  "first_guest_path cwd index [] = None"
| "first_guest_path cwd index (fs # fss) =
     (case guest_path_for fs cwd (guest_root_of index) of
        Some g \<Rightarrow> Some g
      | None \<Rightarrow> first_guest_path cwd (Suc index) fss)"

lemma preopen_loop_Ok:
  "preopen_loop h cwd index fss b g = Inr (b', g') \<Longrightarrow>
     (\<exists>calls. b' = b @ calls \<and> list_all2 (preopen_call h) (enumerate index fss) calls)
     \<and> g' = (if g = None then first_guest_path cwd index fss else g)"
proof (induction h cwd index fss b g rule: preopen_loop.induct)
  case (2 h cwd index fs fss b g)
  let ?gr = "guest_root_of index" and ?p = "perms_of (fg_access fs)"
  obtain root where root: "h_canonicalize h (fg_root fs) = Some root"
    "h_preopened_dir h root ?gr ?p ?p = None"
    "preopen_loop h cwd (Suc index) fss (b @ [BPreopenedDir root ?gr ?p ?p])
       (if g = None then guest_path_for fs cwd ?gr else g) = Inr (b', g')"
    using "2.prems" by (auto simp: Let_def split: option.splits)
  note IH = "2.IH" [unfolded fs_access_def fs_root_def, OF refl refl refl root]
  then obtain calls where "b' = b @ (BPreopenedDir root ?gr ?p ?p # calls)"
    "list_all2 (preopen_call h) (enumerate (Suc index) fss) calls"
    by auto
  moreover have "preopen_call h (index, fs) (BPreopenedDir root ?gr ?p ?p)"
    using root(1) by (simp add: preopen_call_def)
  ultimately have "\<exists>calls. b' = b @ calls \<and> list_all2 (preopen_call h) (enumerate index (fs # fss)) calls"
    by (intro exI [of _ "BPreopenedDir root ?gr ?p ?p # calls"]) simp
  then show ?case using IH by (auto split: option.splits)
qed simp

lemma preopen_calls_views:
  "list_all2 (preopen_call h) ifss calls \<Longrightarrow>
     env_calls calls = [] \<and> final_cwd (b @ calls) = final_cwd b
     \<and> (\<forall>c \<in> set calls. \<exists>i fs root. (i, fs) \<in> set ifss \<and> h_canonicalize h (fg_root fs) = Some root
          \<and> c = BPreopenedDir root (guest_root_of i) (perms_of (fg_access fs)) (perms_of (fg_access fs)))"
proof (induction ifss calls arbitrary: b rule: list_all2_induct)
  case (Cons ifs ifss c calls)
  then obtain i fs root where c: "ifs = (i, fs)" "h_canonicalize h (fg_root fs) = Some root"
    "c = BPreopenedDir root (guest_root_of i) (perms_of (fg_access fs)) (perms_of (fg_access fs))"
    by (cases ifs) (auto simp: preopen_call_def split: option.splits)
  have "final_cwd (b @ c # calls) = final_cwd (b @ [c])"
    using Cons.IH [of "b @ [c]"] by simp
  also have "\<dots> = final_cwd b" using c by (simp add: final_cwd_def)
  finally have "final_cwd (b @ c # calls) = final_cwd b" .
  moreover have "\<forall>c' \<in> set (c # calls). \<exists>i fs root. (i, fs) \<in> set (ifs # ifss)
      \<and> h_canonicalize h (fg_root fs) = Some root
      \<and> c' = BPreopenedDir root (guest_root_of i) (perms_of (fg_access fs)) (perms_of (fg_access fs))"
    using c Cons.IH [of b] by (metis list.set_intros set_ConsD)
  ultimately show ?case using c Cons.IH [of b] by simp
qed simp

lemma preopen_call_directory:
  assumes "preopen_call h root c"
  shows "network_call c = False" "\<exists>dir. preopens [c] = [dir] \<and> granted_directory h root dir"
proof -
  have perms: "perms_of a = (if a = ReadWrite then PermsAll else PermsRead)" for a
    by (cases a) (simp_all add: perms_of_def)
  show "network_call c = False" "\<exists>dir. preopens [c] = [dir] \<and> granted_directory h root dir"
    using assms by (auto simp: preopen_call_def granted_directory_def guest_root_of_def perms network_call_def split: option.splits)
qed

lemma preopen_calls_directories:
  "list_all2 (preopen_call h) ifss calls \<Longrightarrow>
     list_all2 (granted_directory h) ifss (preopens calls) \<and> network_calls calls = []"
proof (induction ifss calls rule: list_all2_induct)
  case (Cons ifs ifss c calls)
  obtain dir where "preopens [c] = [dir]" "granted_directory h ifs dir"
    using preopen_call_directory(2) [OF Cons.hyps(1)] by blast
  moreover have "preopens (c # calls) = preopens [c] @ preopens calls"
    using preopens_append [of "[c]" calls] by simp
  ultimately show ?case using Cons.IH preopen_call_directory(1) [OF Cons.hyps(1)] by simp
qed simp

lemma final_cwd_env: "final_cwd (b @ map (\<lambda>(n, v). BEnv n v) xs) = final_cwd b"
proof -
  have "fold (\<lambda>c acc. case c of BInitialCwd d \<Rightarrow> Some d | _ \<Rightarrow> acc) (map (\<lambda>(n, v). BEnv n v) xs) a = a"
    for a :: "string option"
    by (induction xs arbitrary: a) auto
  then show ?thesis by (simp add: final_cwd_def)
qed

lemma final_cwd_policy: "final_cwd (policy_apply pol b) = final_cwd b"
  by (simp add: policy_apply_def final_cwd_def)

text \<open>What a store that was built was configured with.\<close>

lemma build_store_Ok:
  assumes "build_store h r env_provider = Inr sc"
  obtains calls where
    "validate r = Inr ()" "cr_mode r = Wasi"
    "allows_existing_path (h_canonicalize h) (cr_grant r) (cr_cwd r)"
    "list_all2 (preopen_call h) (enumerate 0 (cg_filesystems (cr_grant r))) calls"
    "sc_builder sc = policy_apply (from_grant (cr_grant r))
         ([BArgs (cr_args r), BInitialCwd ''/workspace'', BStdout, BStderr]
          @ map (\<lambda>(n, v). BEnv n v) (selected_environment (cr_grant r) env_provider))
       @ calls
       @ (case first_guest_path (cr_cwd r) 0 (cg_filesystems (cr_grant r)) of
            None \<Rightarrow> [] | Some g \<Rightarrow> [BInitialCwd g])"
    "sc_memory_size sc = rl_max_memory_bytes (cg_limits (cr_grant r))"
    "sc_fuel sc = rl_max_fuel (cg_limits (cr_grant r))"
    "sc_epoch_deadline sc = epoch_ticks (cg_limits (cr_grant r))"
proof -
  let ?b2 = "policy_apply (from_grant (cr_grant r))
         ([BArgs (cr_args r), BInitialCwd ''/workspace'', BStdout, BStderr]
          @ map (\<lambda>(n, v). BEnv n v) (selected_environment (cr_grant r) env_provider))"
  obtain b3 g where loop: "validate r = Inr ()" "cr_mode r = Wasi"
    "allows_existing_path (h_canonicalize h) (cr_grant r) (cr_cwd r)"
    "preopen_loop h (cr_cwd r) 0 (cg_filesystems (cr_grant r)) ?b2 None = Inr (b3, g)"
    "sc_builder sc = (case g of None \<Rightarrow> b3 | Some g \<Rightarrow> b3 @ [BInitialCwd g])"
    "sc_memory_size sc = rl_max_memory_bytes (cg_limits (cr_grant r))"
    "sc_fuel sc = rl_max_fuel (cg_limits (cr_grant r))"
    "sc_epoch_deadline sc = epoch_ticks (cg_limits (cr_grant r))"
    using assms
    by (auto simp: build_store_def Let_def split: sum.splits if_splits option.splits)
  from preopen_loop_Ok [OF loop(4)] obtain calls where
    "b3 = ?b2 @ calls" "list_all2 (preopen_call h) (enumerate 0 (cg_filesystems (cr_grant r))) calls"
    "g = first_guest_path (cr_cwd r) 0 (cg_filesystems (cr_grant r))"
    by auto
  with loop that show ?thesis by (simp split: option.splits)
qed

section \<open>An example store\<close>

text \<open>A host that resolves one workspace and refuses nothing, and a read-only request.\<close>

definition example_host :: "unit host" where
  "example_host = \<lparr>
     h_canonicalize = (\<lambda>p. if p = ''/ws'' then Some ''/real''
                           else if p = ''/ws/src'' then Some ''/real/src'' else None),
     h_env = (\<lambda>n. Some n),
     h_preopened_dir = (\<lambda>_ _ _ _. None), h_add_to_linker = None, h_set_fuel = (\<lambda>_. None),
     h_component_new = (\<lambda>_. Inr ()), h_instantiate = (\<lambda>_ _. None)\<rparr>"

definition example_grant :: capability_grant where
  "example_grant = grant_empty\<lparr>cg_filesystems := [\<lparr>fg_root = ''/ws'', fg_access = Read\<rparr>]\<rparr>"

definition example_request :: command_request where
  "example_request = \<lparr>cr_id = 7, cr_actor = Agent, cr_mode = Wasi, cr_program = ''tool'',
     cr_args = [], cr_cwd = ''/ws/src'', cr_grant = example_grant\<rparr>"

lemma example_checks:
  "validate example_request = Inr ()"
  "allows_existing_path (h_canonicalize example_host) example_grant ''/ws/src''"
  "guest_path_for \<lparr>fg_root = ''/ws'', fg_access = Read\<rparr> ''/ws/src'' ''/workspace'' = Some ''/workspace/src''"
  by code_simp+

lemma example_grant_built: "grant_built example_grant"
proof -
  have "is_safe_absolute_path ''/ws''" by code_simp
  then have "grant_workspace ''/ws'' Read = Inr example_grant"
    by (simp add: grant_workspace_Inr example_grant_def)
  then show ?thesis by (rule grant_built.workspace)
qed

lemma example_store_built:
  obtains sc where "build_store example_host example_request env = Inr sc"
    "preopens (sc_builder sc) = [(''/real'', ''/workspace'', PermsRead, PermsRead)]"
proof (rule that)
  have g: "cr_grant example_request = example_grant" "cr_cwd example_request = ''/ws/src''"
    "cg_filesystems example_grant = [\<lparr>fg_root = ''/ws'', fg_access = Read\<rparr>]"
    "cr_mode example_request = Wasi" "cr_args example_request = []"
    by (simp_all add: example_request_def example_grant_def)
  have h: "h_canonicalize example_host ''/ws'' = Some ''/real''"
    "h_preopened_dir example_host = (\<lambda>_ _ _ _. None)" "h_add_to_linker example_host = None"
    "h_set_fuel example_host = (\<lambda>_. None)"
    by (simp_all add: example_host_def)
  show "build_store example_host example_request env = Inr (projr (build_store example_host example_request env))"
    using example_checks unfolding build_store_def filesystem_grants_def g
    by (simp add: h guest_root_of_def)
  show "preopens (sc_builder (projr (build_store example_host example_request env))) = [(''/real'', ''/workspace'', PermsRead, PermsRead)]"
    using example_checks unfolding build_store_def filesystem_grants_def g
    by (simp add: h guest_root_of_def perms_of_def Let_def preopens_append policy_apply_def)
qed

text \<open>The posture of a store that was built.\<close>

lemma store_posture:
  assumes "build_store h r env_provider = Ok sc"
  shows "validate r = Ok () \<and> cr_mode r = Wasi
    \<and> allows_existing_path (h_canonicalize h) (cr_grant r) (cr_cwd r)
    \<and> env_calls (sc_builder sc) = selected_environment (cr_grant r) env_provider
    \<and> network_calls (sc_builder sc) = granted_network (cr_grant r)
    \<and> list_all2 (granted_directory h) (enumerate 0 (cg_filesystems (cr_grant r))) (preopens (sc_builder sc))
    \<and> final_cwd (sc_builder sc)
        = Some (case first_guest_path (cr_cwd r) 0 (cg_filesystems (cr_grant r)) of
            None \<Rightarrow> ''/workspace'' | Some g \<Rightarrow> g)
    \<and> sc_memory_size sc = rl_max_memory_bytes (cg_limits (cr_grant r))
    \<and> sc_fuel sc = rl_max_fuel (cg_limits (cr_grant r))
    \<and> unat (sc_epoch_deadline sc)
        = max (min (10 * unat (rl_timeout_seconds (cg_limits (cr_grant r)))) (2 ^ 64 - 1)) 1"
proof -
  obtain calls where c: "validate r = Inr ()" "cr_mode r = Wasi"
    "allows_existing_path (h_canonicalize h) (cr_grant r) (cr_cwd r)"
    "list_all2 (preopen_call h) (enumerate 0 (cg_filesystems (cr_grant r))) calls"
    "sc_builder sc = policy_apply (from_grant (cr_grant r))
         ([BArgs (cr_args r), BInitialCwd ''/workspace'', BStdout, BStderr]
          @ map (\<lambda>(n, v). BEnv n v) (selected_environment (cr_grant r) env_provider))
       @ calls
       @ (case first_guest_path (cr_cwd r) 0 (cg_filesystems (cr_grant r)) of
            None \<Rightarrow> [] | Some g \<Rightarrow> [BInitialCwd g])"
    "sc_memory_size sc = rl_max_memory_bytes (cg_limits (cr_grant r))"
    "sc_fuel sc = rl_max_fuel (cg_limits (cr_grant r))"
    "sc_epoch_deadline sc = epoch_ticks (cg_limits (cr_grant r))"
    using build_store_Ok [OF assms] by blast
  let ?start = "[BArgs (cr_args r), BInitialCwd ''/workspace'', BStdout, BStderr]
      @ map (\<lambda>(n, v). BEnv n v) (selected_environment (cr_grant r) env_provider)"
  have views: "env_calls calls = []" "final_cwd (b @ calls) = final_cwd b"
    "list_all2 (granted_directory h) (enumerate 0 (cg_filesystems (cr_grant r))) (preopens calls)" "network_calls calls = []" for b
    using preopen_calls_views [OF c(4), of b] preopen_calls_directories [OF c(4)] by blast+
  have policy: "env_calls (policy_apply pol b) = env_calls b" "preopens (policy_apply pol b) = preopens b" for pol b
    by (simp_all add: policy_apply_def env_calls_append preopens_append)
  have "final_cwd (policy_apply (from_grant (cr_grant r)) ?start) = Some ''/workspace''"
    unfolding final_cwd_policy final_cwd_env by (simp add: final_cwd_def)
  moreover have "final_cwd (b @ [BInitialCwd d]) = Some d" for b d by (simp add: final_cwd_def)
  ultimately have cwd: "final_cwd (sc_builder sc)
      = Some (case first_guest_path (cr_cwd r) 0 (cg_filesystems (cr_grant r)) of None \<Rightarrow> ''/workspace'' | Some g \<Rightarrow> g)"
    unfolding c(5) append_assoc [symmetric] using views(2)
    by (cases "first_guest_path (cr_cwd r) 0 (cg_filesystems (cr_grant r))") (simp_all only: option.case append_Nil2)
  have network: "network_calls (sc_builder sc) = granted_network (cr_grant r)"
    unfolding c(5) policy_network network_calls_simps by (simp add: views(4) network_call_def split: option.split)
  have directories: "preopens (sc_builder sc) = preopens calls"
    unfolding c(5) by (simp add: policy preopens_append split: option.split)
  show ?thesis
    using c(1-3,6-8) views(1,3) cwd network directories unfolding c(5)
    by (simp add: policy env_calls_append unat_epoch_ticks split: option.split)
qed

section \<open>Properties\<close>

text \<open>
  The watchdog enforces the deadline and nothing earlier.  While nothing is cancelled or
  stopped it ticks once per 100ms: left alone it moves the epoch by exactly the deadline (or
  past it, when the last look finds a cancellation), a cancellation seen after \<open>k\<close> ticks
  moves it past the deadline at once, and a run that stops after \<open>k\<close> ticks leaves the
  deadline unreached.
\<close>

theorem watchdog_reaches_deadline:
  assumes "\<forall>j<k. \<not> cancelled j \<and> \<not> stopped j" and "k \<le> unat deadline"
  shows "(k = unat deadline \<longrightarrow> deadline_reached deadline (watchdog cancelled stopped deadline))
    \<and> (cancelled k \<longrightarrow> watchdog cancelled stopped deadline = k + unat deadline)
    \<and> (\<not> cancelled k \<longrightarrow> stopped k \<or> k = unat deadline
         \<longrightarrow> watchdog cancelled stopped deadline = k)
    \<and> (\<not> cancelled k \<longrightarrow> stopped k \<longrightarrow> k < unat deadline
         \<longrightarrow> \<not> deadline_reached deadline (watchdog cancelled stopped deadline))"
proof -
  have "unat (of_nat k :: u64) = k" using assms(2) by (rule unat_of_nat_le)
  then have le: "deadline \<le> of_nat k \<longleftrightarrow> unat deadline \<le> k" by (simp add: word_le_nat_alt)
  have "watchdog cancelled stopped deadline
      = k + (if cancelled k then unat deadline else if unat deadline \<le> k then 0
             else if stopped k then 0
             else Suc (watchdog_loop cancelled stopped deadline (Suc k) (of_nat k + 1)))"
    using watchdog_quiet [OF assms] watchdog_loop.simps [of cancelled stopped deadline k "of_nat k"] le
    by simp
  then show ?thesis using assms(2) by (auto simp: deadline_reached_def)
qed

theorem watchdog_reaches_deadline_witness:
  "watchdog (\<lambda>i. 2 \<le> i) (\<lambda>_. False) 10 = 12 \<and> watchdog (\<lambda>_. False) (\<lambda>i. i = 3) 10 = 3
   \<and> watchdog (\<lambda>_. False) (\<lambda>_. False) 10 = 10"
  using watchdog_reaches_deadline [of 2 "\<lambda>i. 2 \<le> i" "\<lambda>_. False" 10]
    watchdog_reaches_deadline [of 3 "\<lambda>_. False" "\<lambda>i. i = 3" 10]
    watchdog_reaches_deadline [of 10 "\<lambda>_. False" "\<lambda>_. False" 10]
  by simp

text \<open>
  C16. A store is only built for a validated WASI request whose working directory really lies
  inside a grant, and the guest of that store gets exactly its grant: the allowlisted
  environment; a network told to refuse DNS and UDP, and TCP too unless a loopback port is
  granted, when it is behind a check of exactly the granted ports; one preopened directory
  for each granted root, in their order, writable only if the root is, and no other; the
  working directory of the request; and the memory, fuel and time limits.
\<close>

theorem build_store_posture:
  assumes "build_store h r env_provider = Ok sc"
  shows "validate r = Ok () \<and> cr_mode r = Wasi
    \<and> allows_existing_path (h_canonicalize h) (cr_grant r) (cr_cwd r)
    \<and> env_calls (sc_builder sc) = selected_environment (cr_grant r) env_provider
    \<and> network_calls (sc_builder sc) = granted_network (cr_grant r)
    \<and> list_all2 (granted_directory h) (enumerate 0 (cg_filesystems (cr_grant r))) (preopens (sc_builder sc))
    \<and> final_cwd (sc_builder sc)
        = Some (case first_guest_path (cr_cwd r) 0 (cg_filesystems (cr_grant r)) of
            None \<Rightarrow> ''/workspace'' | Some g \<Rightarrow> g)
    \<and> sc_memory_size sc = rl_max_memory_bytes (cg_limits (cr_grant r))
    \<and> sc_fuel sc = rl_max_fuel (cg_limits (cr_grant r))
    \<and> unat (sc_epoch_deadline sc)
        = max (min (10 * unat (rl_timeout_seconds (cg_limits (cr_grant r)))) (2 ^ 64 - 1)) 1"
  using store_posture [OF assms] .

theorem build_store_posture_witness:
  "\<exists>sc. build_store example_host example_request (h_env example_host) = Ok sc
     \<and> network_calls (sc_builder sc) = [BAllowIpNameLookup False, BAllowUdp False, BAllowTcp False]
     \<and> unat (sc_epoch_deadline sc) = 300"
proof -
  obtain sc where sc: "build_store example_host example_request (h_env example_host) = Ok sc"
    using example_store_built by blast
  moreover have "rl_timeout_seconds (cg_limits (cr_grant example_request)) = 30"
    by (simp add: example_request_def example_grant_def grant_empty_def DEFAULT_LIMITS_def)
  moreover have "granted_network (cr_grant example_request) = [BAllowIpNameLookup False, BAllowUdp False, BAllowTcp False]"
    by (simp add: granted_network_def example_request_def example_grant_def grant_empty_def)
  ultimately show ?thesis using build_store_posture [OF sc] by auto
qed

text \<open>
  Every directory a guest can open is the resolution of a granted root, under the
  permissions of that root: a root granted for reading is preopened read-only, the first
  root appears as \<open>/workspace\<close>, and nothing else is preopened.
\<close>

theorem build_store_preopens:
  assumes "build_store h r env_provider = Ok sc"
    and "(host_root, guest_root, dir_perms, file_perms) \<in> set (preopens (sc_builder sc))"
  shows "\<exists>index < length (cg_filesystems (cr_grant r)).
     let fs = cg_filesystems (cr_grant r) ! index in
       h_canonicalize h (fg_root fs) = Some host_root
       \<and> guest_root = (if index = 0 then ''/workspace'' else ''/grant-'' @ show_nat index)
       \<and> (fg_access fs = Read \<longrightarrow> dir_perms = PermsRead \<and> file_perms = PermsRead)"
proof -
  obtain calls where c:
    "list_all2 (preopen_call h) (enumerate 0 (cg_filesystems (cr_grant r))) calls"
    "sc_builder sc = policy_apply (from_grant (cr_grant r))
         ([BArgs (cr_args r), BInitialCwd ''/workspace'', BStdout, BStderr]
          @ map (\<lambda>(n, v). BEnv n v) (selected_environment (cr_grant r) env_provider))
       @ calls
       @ (case first_guest_path (cr_cwd r) 0 (cg_filesystems (cr_grant r)) of
            None \<Rightarrow> [] | Some g \<Rightarrow> [BInitialCwd g])"
    using build_store_Ok [OF assms(1)] by blast
  have "(host_root, guest_root, dir_perms, file_perms) \<in> set (preopens calls)"
    using assms(2) unfolding c(2)
    by (auto simp: policy_apply_def preopens_append split: option.splits if_splits)
  then have "BPreopenedDir host_root guest_root dir_perms file_perms \<in> set calls"
    by (simp only: preopens_mem)
  then obtain i fs where "(i, fs) \<in> set (enumerate 0 (cg_filesystems (cr_grant r)))"
    "h_canonicalize h (fg_root fs) = Some host_root" "guest_root = guest_root_of i"
    "dir_perms = perms_of (fg_access fs)" "file_perms = perms_of (fg_access fs)"
    using preopen_calls_views [OF c(1), of "[]"] by blast
  then show ?thesis
    by (intro exI [of _ i]) (auto simp: in_set_enumerate_eq guest_root_of_def perms_of_def Let_def)
qed

theorem build_store_preopens_witness:
  "\<exists>index < 1. let fs = cg_filesystems example_grant ! index in
     h_canonicalize example_host (fg_root fs) = Some ''/real''"
proof -
  obtain sc where sc: "build_store example_host example_request (h_env example_host) = Ok sc"
    "preopens (sc_builder sc) = [(''/real'', ''/workspace'', PermsRead, PermsRead)]"
    using example_store_built by blast
  then have "(''/real'', ''/workspace'', PermsRead, PermsRead) \<in> set (preopens (sc_builder sc))"
    by simp
  from build_store_preopens [OF sc(1) this] show ?thesis
    by (simp add: example_request_def example_grant_def Let_def)
qed

text \<open>
  The guest starts where the request says: with a grant the public constructors built
  and a working directory that is well-formed text, the last initial directory the store
  is given is \<open>/workspace\<close> followed by the names that lead from the granted root to the
  requested directory.
\<close>

theorem build_store_initial_cwd:
  assumes "build_store h r env_provider = Ok sc"
    and "grant_built (cr_grant r)" and "utf8_valid (cr_cwd r)"
  shows "\<exists>fs names d. cg_filesystems (cr_grant r) = [fs]
     \<and> components (cr_cwd r) = components (fg_root fs) @ map Normal names
     \<and> final_cwd (sc_builder sc) = Some d
     \<and> components d = components ''/workspace'' @ map Normal names"
proof -
  obtain calls where c: "allows_existing_path (h_canonicalize h) (cr_grant r) (cr_cwd r)"
    "sc_builder sc = policy_apply (from_grant (cr_grant r))
         ([BArgs (cr_args r), BInitialCwd ''/workspace'', BStdout, BStderr]
          @ map (\<lambda>(n, v). BEnv n v) (selected_environment (cr_grant r) env_provider))
       @ calls
       @ (case first_guest_path (cr_cwd r) 0 (cg_filesystems (cr_grant r)) of
            None \<Rightarrow> [] | Some g \<Rightarrow> [BInitialCwd g])"
    using build_store_Ok [OF assms(1)] by blast
  have wf: "grant_wf (cr_grant r)" using assms(2) by (rule grant_built_wf_lemma)
  obtain fs where fs: "fs \<in> set (cg_filesystems (cr_grant r))" "fg_allows fs (cr_cwd r)"
    using c(1) unfolding allows_existing_path_iff allows_path_iff by blast
  moreover have "length (cg_filesystems (cr_grant r)) \<le> 1" using wf by (simp add: grant_wf_def)
  ultimately have one: "cg_filesystems (cr_grant r) = [fs]"
    by (cases "cg_filesystems (cr_grant r)") auto
  have root: "is_safe_absolute_path (fg_root fs)" using wf fs(1) by (rule grant_wf_root)
  have "utf8_valid ''/workspace''" by code_simp
  then obtain d where d: "guest_path_for fs (cr_cwd r) ''/workspace'' = Some d"
    using guest_path_for_utf8 [OF fs(2) root assms(3)] by blast
  then have "first_guest_path (cr_cwd r) 0 [fs] = Some d" by (simp add: guest_root_of_def)
  then have "final_cwd (sc_builder sc) = Some d" unfolding c(2) one by (simp add: final_cwd_def)
  moreover obtain names where
    "components (cr_cwd r) = components (fg_root fs) @ map Normal names"
    "components d = components ''/workspace'' @ map Normal names"
    using guest_path_for_Some [OF d root] by auto
  ultimately show ?thesis using one by blast
qed

theorem build_store_initial_cwd_witness:
  "\<exists>names d. components ''/ws/src'' = components ''/ws'' @ map Normal names
     \<and> components d = components ''/workspace'' @ map Normal names"
proof -
  obtain sc where sc: "build_store example_host example_request (h_env example_host) = Ok sc"
    using example_store_built by blast
  have req: "cr_grant example_request = example_grant" "cr_cwd example_request = ''/ws/src''"
    by (simp_all add: example_request_def)
  have fs: "cg_filesystems example_grant = [\<lparr>fg_root = ''/ws'', fg_access = Read\<rparr>]"
    by (simp add: example_grant_def)
  have "utf8_valid ''/ws/src''" by code_simp
  then show ?thesis
    using build_store_initial_cwd [OF sc] example_grant_built unfolding req fs by auto
qed

text \<open>
  A capturing run reports what happened: it completes, with exit code 0 or 1 and what the
  guest wrote, exactly when the store was built, the component instantiated and the guest
  returned by itself, even if a cancellation came too late; a trapped guest is reported
  cancelled exactly when the session's handle is cancelled, and a run without a handle is
  never reported cancelled.
\<close>

theorem run_wasi_inner_outcome:
  assumes "build_store h r (h_env h) = Ok store" and "h_instantiate h component store = None"
    and "guest component store = (res, out, err, m)"
  shows "(case res of
      GuestOk \<Rightarrow> run_wasi_inner h guest component r cancel
                   = Ok \<lparr>wo_stdout = out, wo_stderr = err, wo_exit_code = 0\<rparr>
    | GuestErr \<Rightarrow> run_wasi_inner h guest component r cancel
                   = Ok \<lparr>wo_stdout = out, wo_stderr = err, wo_exit_code = 1\<rparr>
    | GuestTrap e \<Rightarrow> run_wasi_inner h guest component r cancel
                   = Err (case cancel of
                       None \<Rightarrow> RtWasi e
                     | Some handle \<Rightarrow> if is_cancelled m handle then RtCancelled else RtWasi e))
    \<and> run_wasi h guest component r \<noteq> Err RtCancelled"
  using assms
  by (auto simp: run_wasi_inner_def run_wasi_def split: guest_result.splits option.splits)

theorem run_wasi_inner_outcome_witness:
  "run_wasi_inner example_host (\<lambda>_ _. (GuestTrap ''fuel'', [], [], cancel_store_init)) () example_request
     (Some (CancelHandle 0)) = Err (RtWasi ''fuel'')"
proof -
  obtain sc where sc: "build_store example_host example_request (h_env example_host) = Ok sc"
    using example_store_built by blast
  have inst: "h_instantiate example_host () sc = None" by (simp add: example_host_def)
  have "\<not> is_cancelled cancel_store_init (CancelHandle 0)"
    by (simp add: is_cancelled_def cancel_store_init_def)
  then show ?thesis
    using run_wasi_inner_outcome [where cancel = "Some (CancelHandle 0)"
        and guest = "\<lambda>_ _. (GuestTrap ''fuel'', [], [], cancel_store_init)", OF sc inst refl] by simp
qed

end
