(* ===== verification/Streaming.thy ===== *)
theory Streaming
  imports Runtime Command Pipe
begin

text \<open>
  \<open>lib.rs\<close>: the streaming run.  Two threads share two pipes: the one that runs the guest, then
  drops its store and signals the end of both streams, and the reader, which drains both
  pipes, forwards what it finds as events, enforces the combined output budget and drives
  the engine's epoch.  The model interleaves them: a run is a list of actions, each one
  locked operation of a thread, and \<open>stream_step\<close> performs it.
\<close>

section \<open>State\<close>

text \<open>Where the reader is in its loop: the two closes of the budget check are two operations.\<close>

datatype reader_pc =
    DrainStdout | DrainStderr | CheckBudget | CloseStderr | CheckCancel | CheckExit | ReaderDone

text \<open>Where the other thread is: in the guest, after it, or past the end of one or both streams.\<close>

datatype guest_pc = GuestRunning | GuestReturned | StdoutEnded | BothEnded

record streaming =
  sr_stdout :: stream_pipe
  sr_stderr :: stream_pipe
  sr_guest :: guest_pc
  sr_pc :: reader_pc
  sr_total_stdout :: bytes
  sr_total_stderr :: bytes
  sr_budget_closed :: bool
  sr_out_eof :: bool
  sr_err_eof :: bool
  sr_events :: "session_event list"
  sr_now :: nat
  sr_last_tick :: nat
  sr_epoch :: nat

text \<open>
  The clock \<open>sr_now\<close> and \<open>sr_last_tick\<close> count milliseconds from the spawn of the reader;
  \<open>sr_epoch\<close> counts its increments of the engine's epoch, \<open>sr_events\<close> lists what it sent.
\<close>

definition streaming_init :: "usize \<Rightarrow> streaming" where
  "streaming_init budget = \<lparr>sr_stdout = pipe_new budget, sr_stderr = pipe_new budget,
     sr_guest = GuestRunning, sr_pc = DrainStdout, sr_total_stdout = [], sr_total_stderr = [],
     sr_budget_closed = False, sr_out_eof = False, sr_err_eof = False, sr_events = [],
     sr_now = 0, sr_last_tick = 0, sr_epoch = 0\<rparr>"

section \<open>The reader\<close>

definition forward :: "stream \<Rightarrow> bytes \<Rightarrow> session_event list \<Rightarrow> session_event list" where
  "forward st b es = (if b = [] then es else es @ [Output st b])"

text \<open>
  One operation of the reader.  \<open>timed_out\<close> says whether a wait that finds no data has
  lasted its 50ms (otherwise the reader keeps waiting), \<open>cancelled\<close> what it reads from the
  handle if this is its look at it.
\<close>

definition reader_step :: "usize \<Rightarrow> u64 \<Rightarrow> bool \<Rightarrow> bool \<Rightarrow> streaming \<Rightarrow> streaming" where
  "reader_step budget ticks timed_out cancelled s = (case sr_pc s of
     DrainStdout \<Rightarrow>
       if \<not> wait_ends (sr_stdout s) timed_out then s
       else (case wait_and_drain (sr_stdout s) of ((out_bytes, out_eof), p) \<Rightarrow>
         s\<lparr>sr_stdout := p, sr_total_stdout := sr_total_stdout s @ out_bytes,
           sr_events := forward Stdout out_bytes (sr_events s),
           sr_out_eof := out_eof, sr_pc := DrainStderr\<rparr>)
   | DrainStderr \<Rightarrow>
       if \<not> wait_ends (sr_stderr s) timed_out then s
       else (case wait_and_drain (sr_stderr s) of ((err_bytes, err_eof), p) \<Rightarrow>
         s\<lparr>sr_stderr := p, sr_total_stderr := sr_total_stderr s @ err_bytes,
           sr_events := forward Stderr err_bytes (sr_events s),
           sr_err_eof := err_eof, sr_pc := CheckBudget\<rparr>)
   | CheckBudget \<Rightarrow>
       if \<not> sr_budget_closed s
          \<and> unat budget < length (sr_total_stdout s) + length (sr_total_stderr s)
       then s\<lparr>sr_stdout := pipe_close (sr_stdout s), sr_pc := CloseStderr\<rparr>
       else s\<lparr>sr_pc := CheckCancel\<rparr>
   | CloseStderr \<Rightarrow>
       s\<lparr>sr_stderr := pipe_close (sr_stderr s), sr_budget_closed := True, sr_pc := CheckCancel\<rparr>
   | CheckCancel \<Rightarrow>
       if cancelled then s\<lparr>sr_epoch := sr_epoch s + unat ticks, sr_pc := CheckExit\<rparr>
       else if 100 \<le> sr_now s - sr_last_tick s
         then s\<lparr>sr_epoch := sr_epoch s + 1, sr_last_tick := sr_now s, sr_pc := CheckExit\<rparr>
       else s\<lparr>sr_pc := CheckExit\<rparr>
   | CheckExit \<Rightarrow>
       s\<lparr>sr_pc := (if sr_out_eof s \<and> sr_err_eof s then ReaderDone else DrainStdout)\<rparr>
   | ReaderDone \<Rightarrow> s)"

section \<open>Both threads\<close>

definition on_pipe :: "stream \<Rightarrow> (stream_pipe \<Rightarrow> stream_pipe) \<Rightarrow> streaming \<Rightarrow> streaming" where
  "on_pipe st f s = (case st of
     Stdout \<Rightarrow> s\<lparr>sr_stdout := f (sr_stdout s)\<rparr>
   | Stderr \<Rightarrow> s\<lparr>sr_stderr := f (sr_stderr s)\<rparr>)"

text \<open>
  The guest writes through either interface of a pipe, may shut a stream down, and returns
  (or traps); then its thread ends the streams in order.  Time passes.
\<close>

datatype stream_action =
    GuestWrite stream bytes
  | GuestPollWrite stream bytes
  | GuestShutdown stream
  | GuestReturn
  | EndStdout
  | EndStderr
  | Elapse nat
  | ReaderStep bool bool

text \<open>An action out of turn does nothing.\<close>

fun stream_step :: "usize \<Rightarrow> u64 \<Rightarrow> streaming \<Rightarrow> stream_action \<Rightarrow> streaming" where
  "stream_step budget ticks s (GuestWrite st b) =
     (if sr_guest s = GuestRunning then on_pipe st (\<lambda>p. sync_put p b) s else s)"
| "stream_step budget ticks s (GuestPollWrite st b) =
     (if sr_guest s = GuestRunning then on_pipe st (\<lambda>p. async_put p b) s else s)"
| "stream_step budget ticks s (GuestShutdown st) =
     (if sr_guest s = GuestRunning then on_pipe st (\<lambda>p. fst (poll_shutdown p)) s else s)"
| "stream_step budget ticks s GuestReturn =
     (if sr_guest s = GuestRunning then s\<lparr>sr_guest := GuestReturned\<rparr> else s)"
| "stream_step budget ticks s EndStdout =
     (if sr_guest s = GuestReturned
      then s\<lparr>sr_stdout := set_eof (sr_stdout s), sr_guest := StdoutEnded\<rparr> else s)"
| "stream_step budget ticks s EndStderr =
     (if sr_guest s = StdoutEnded
      then s\<lparr>sr_stderr := set_eof (sr_stderr s), sr_guest := BothEnded\<rparr> else s)"
| "stream_step budget ticks s (Elapse ms) = s\<lparr>sr_now := sr_now s + ms\<rparr>"
| "stream_step budget ticks s (ReaderStep timed_out cancelled) =
     reader_step budget ticks timed_out cancelled s"

definition stream_run :: "usize \<Rightarrow> u64 \<Rightarrow> stream_action list \<Rightarrow> streaming" where
  "stream_run budget ticks as = foldl (stream_step budget ticks) (streaming_init budget) as"

section \<open>The run\<close>

text \<open>
  \<open>guest\<close> says how the guest's call returns, the interleaving of the two threads up to the
  join of the reader, and the cancellation store after it.  The join returns when the
  reader has left its loop; with an interleaving that stops before, the run has not
  returned, which is \<open>None\<close>.  Otherwise the result comes with all events sent.
\<close>

type_synonym 'c stream_guest =
  "'c \<Rightarrow> store_config \<Rightarrow> guest_result \<times> stream_action list \<times> cancel_store"

definition run_wasi_events_impl ::
    "'c host \<Rightarrow> 'c stream_guest \<Rightarrow> 'c \<Rightarrow> command_request \<Rightarrow> cancel_handle \<Rightarrow> session_event list
       \<Rightarrow> (string \<Rightarrow> string option)
       \<Rightarrow> ((runtime_error + wasi_output) \<times> session_event list) option" where
  "run_wasi_events_impl h guest component r cancel events env_provider =
     (let budget = limits_max_output_bytes (grant_limits (cr_grant r))
      in case build_store h r env_provider of
        Inl e \<Rightarrow> Some (Err e, events)
      | Inr store \<Rightarrow>
         (case guest component store of (run_result, actions, m) \<Rightarrow>
            (let s = stream_run budget (epoch_ticks (grant_limits (cr_grant r))) actions;
                 sent = events @ sr_events s
             in if sr_pc s \<noteq> ReaderDone then None
                else case h_instantiate h component store of
                  Some e \<Rightarrow> Some (Err (RtWasi e), sent)
                | None \<Rightarrow> (case run_result of
                    GuestOk \<Rightarrow> Some (Ok \<lparr>wo_stdout = sr_total_stdout s,
                        wo_stderr = sr_total_stderr s, wo_exit_code = 0\<rparr>, sent)
                  | GuestErr \<Rightarrow> Some (Ok \<lparr>wo_stdout = sr_total_stdout s,
                        wo_stderr = sr_total_stderr s, wo_exit_code = 1\<rparr>, sent)
                  | GuestTrap e \<Rightarrow>
                      Some (if is_cancelled m cancel then Err RtCancelled else Err (RtWasi e),
                            sent)))))"

definition run_wasi_events ::
    "'c host \<Rightarrow> 'c stream_guest \<Rightarrow> 'c \<Rightarrow> command_request \<Rightarrow> cancel_handle \<Rightarrow> session_event list
       \<Rightarrow> ((runtime_error + wasi_output) \<times> session_event list) option" where
  "run_wasi_events h guest component r cancel events =
     run_wasi_events_impl h guest component r cancel events (h_env h)"


section \<open>The invariant\<close>

text \<open>What a sequence of events carries for one stream.\<close>

fun stream_bytes :: "stream \<Rightarrow> session_event list \<Rightarrow> bytes" where
  "stream_bytes st [] = []"
| "stream_bytes st (Output st' b # es) = (if st' = st then b else []) @ stream_bytes st es"
| "stream_bytes st (_ # es) = stream_bytes st es"

definition output_chunk :: "session_event \<Rightarrow> bool" where
  "output_chunk e = (case e of Output _ b \<Rightarrow> b \<noteq> [] | _ \<Rightarrow> False)"

lemma stream_bytes_append: "stream_bytes st (es @ fs) = stream_bytes st es @ stream_bytes st fs"
  by (induction st es rule: stream_bytes.induct) auto

lemma stream_bytes_forward:
  "stream_bytes st (forward st' b es) = stream_bytes st es @ (if st' = st then b else [])"
  by (simp add: forward_def stream_bytes_append)

lemma output_chunk_forward: "list_all output_chunk (forward st b es) = list_all output_chunk es"
  by (simp add: forward_def output_chunk_def)

text \<open>
  The totals are what the pipes delivered and what the events carry; both pipes keep their
  capacity; and past the budget check a combined total over the budget has closed them.
\<close>

definition stream_inv :: "usize \<Rightarrow> streaming \<Rightarrow> bool" where
  "stream_inv budget s \<longleftrightarrow>
     pipe_wf (sr_stdout s) \<and> pipe_wf (sr_stderr s)
   \<and> sp_capacity (sr_stdout s) = budget \<and> sp_capacity (sr_stderr s) = budget
   \<and> sr_total_stdout s = delivered (sr_stdout s) \<and> sr_total_stderr s = delivered (sr_stderr s)
   \<and> stream_bytes Stdout (sr_events s) = sr_total_stdout s
   \<and> stream_bytes Stderr (sr_events s) = sr_total_stderr s
   \<and> list_all output_chunk (sr_events s)
   \<and> (sr_pc s = CloseStderr \<longrightarrow> st_closed (sr_stdout s))
   \<and> (sr_budget_closed s \<longrightarrow> st_closed (sr_stdout s) \<and> st_closed (sr_stderr s))
   \<and> (sr_pc s \<in> {CheckCancel, CheckExit, DrainStdout, ReaderDone} \<longrightarrow>
        unat budget < length (sr_total_stdout s) + length (sr_total_stderr s) \<longrightarrow> sr_budget_closed s)"

lemmas stream_inv_facts =
  sync_pipe.invar_put async_pipe.invar_put sync_pipe.invar_drain sync_pipe.invar_close
  sync_pipe.invar_end sync_pipe.put_given async_pipe.put_given sync_pipe.put_frame
  async_pipe.put_frame sync_pipe.drain_frame sync_pipe.close_frame sync_pipe.end_frame

lemma put_capacity [simp]:
  "sp_capacity (sync_put p b) = sp_capacity p" "sp_capacity (async_put p b) = sp_capacity p"
  "sp_capacity (snd (wait_and_drain p)) = sp_capacity p" "sp_capacity (pipe_close p) = sp_capacity p"
  "sp_capacity (set_eof p) = sp_capacity p"
  by (simp_all add: sync_put_def async_put_def pipe_defs Let_def)

lemma drain_total:
  "pipe_wf p \<Longrightarrow> delivered p @ fst (fst (wait_and_drain p)) = delivered (snd (wait_and_drain p))"
  using sync_pipe.drain_bytes [of p] sync_pipe.drain_given [of p] by simp

lemma drain_facts:
  assumes "pipe_wf p" "wait_and_drain p = ((b, e), q)"
  shows "delivered q = delivered p @ b" "pipe_wf q" "sp_capacity q = sp_capacity p"
    "st_closed q = st_closed p" "delivered q = st_buffer q" "st_buffer q = st_buffer p" "e = st_eof p"
    "st_eof q = st_eof p"
  using drain_total [OF assms(1)] sync_pipe.invar_drain [OF assms(1)]
    sync_pipe.drain_frame [of p] sync_pipe.drain_given [of p] sync_pipe.drain_written [of p] put_capacity(3) [of p] assms(2)
  by (auto simp: wait_and_drain_def)

lemma poll_shutdown_set_eof: "fst (poll_shutdown p) = set_eof p"
  by (simp add: poll_shutdown_def)

lemma streaming_init_inv: "stream_inv budget (streaming_init budget)"
  by (simp add: stream_inv_def streaming_init_def pipe_new_wf) (simp add: pipe_new_def delivered_def)

lemma on_pipe_inv:
  assumes "stream_inv budget s"
    and "\<And>p. pipe_wf p \<Longrightarrow> pipe_wf (f p) \<and> sp_capacity (f p) = sp_capacity p
           \<and> delivered (f p) = delivered p \<and> st_closed (f p) = st_closed p"
  shows "stream_inv budget (on_pipe st f s)"
  using assms by (cases st) (auto simp: stream_inv_def on_pipe_def)

lemma reader_step_inv:
  assumes "stream_inv budget s"
  shows "stream_inv budget (reader_step budget ticks timed_out cancelled s)"
proof (cases "sr_pc s")
  case DrainStdout
  have "pipe_wf (sr_stdout s)" using assms by (simp add: stream_inv_def)
  note drain = drain_facts [OF this]
  obtain b e p where w: "wait_and_drain (sr_stdout s) = ((b, e), p)" by (metis prod.exhaust)
  show ?thesis using assms drain [OF w] DrainStdout w
    by (simp add: reader_step_def stream_inv_def stream_bytes_forward output_chunk_forward)
next
  case DrainStderr
  have "pipe_wf (sr_stderr s)" using assms by (simp add: stream_inv_def)
  note drain = drain_facts [OF this]
  obtain b e p where w: "wait_and_drain (sr_stderr s) = ((b, e), p)" by (metis prod.exhaust)
  show ?thesis using assms drain [OF w] DrainStderr w
    by (simp add: reader_step_def stream_inv_def stream_bytes_forward output_chunk_forward)
qed (use assms in \<open>auto simp: reader_step_def stream_inv_def stream_inv_facts\<close>)

lemma stream_step_inv: "stream_inv budget s \<Longrightarrow> stream_inv budget (stream_step budget ticks s a)"
proof (cases a)
  case (GuestWrite st b)
  assume "stream_inv budget s"
  then show ?thesis using on_pipe_inv [of budget s "\<lambda>p. sync_put p b" st] GuestWrite
    by (simp add: stream_inv_facts)
next
  case (GuestPollWrite st b)
  assume "stream_inv budget s"
  then show ?thesis using on_pipe_inv [of budget s "\<lambda>p. async_put p b" st] GuestPollWrite
    by (simp add: stream_inv_facts)
next
  case (GuestShutdown st)
  assume "stream_inv budget s"
  then show ?thesis using on_pipe_inv [of budget s "\<lambda>p. fst (poll_shutdown p)" st] GuestShutdown
    by (simp add: stream_inv_facts poll_shutdown_set_eof)
next
  case (ReaderStep timed_out cancelled)
  assume "stream_inv budget s"
  then show ?thesis using ReaderStep by (simp add: reader_step_inv)
qed (simp_all add: stream_inv_def stream_inv_facts)

lemma stream_run_snoc:
  "stream_run budget ticks (as @ [a]) = stream_step budget ticks (stream_run budget ticks as) a"
  by (simp add: stream_run_def)

text \<open>A predicate on states that holds at first and that every action preserves holds at the end.\<close>

lemma stream_run_induct:
  assumes "P (streaming_init budget)"
    and "\<And>s a. P s \<Longrightarrow> a \<in> set as \<Longrightarrow> P (stream_step budget ticks s a)"
  shows "P (stream_run budget ticks as)"
  using assms
proof (induction as rule: rev_induct)
  case (snoc a as)
  have "P (stream_run budget ticks as)" using snoc by auto
  then show ?case using snoc.prems(2) by (simp add: stream_run_snoc)
qed (simp add: stream_run_def)

lemma stream_run_inv: "stream_inv budget (stream_run budget ticks as)"
  by (rule stream_run_induct [OF streaming_init_inv stream_step_inv])


lemma stream_run_append:
  "stream_run budget ticks (as @ bs) = foldl (stream_step budget ticks) (stream_run budget ticks as) bs"
  by (simp add: stream_run_def)

section \<open>The end of the streams\<close>

text \<open>A stream ends only after the guest, unless the guest shut it down.\<close>

fun shuts_down :: "stream_action \<Rightarrow> bool" where
  "shuts_down (GuestShutdown _) = True"
| "shuts_down _ = False"

definition exit_inv :: "streaming \<Rightarrow> bool" where
  "exit_inv s \<longleftrightarrow>
     (st_eof (sr_stdout s) \<longrightarrow> sr_guest s \<in> {StdoutEnded, BothEnded})
   \<and> (st_eof (sr_stderr s) \<longrightarrow> sr_guest s = BothEnded)
   \<and> (sr_out_eof s \<longrightarrow> st_eof (sr_stdout s) \<and> delivered (sr_stdout s) = st_buffer (sr_stdout s))
   \<and> (sr_err_eof s \<longrightarrow> st_eof (sr_stderr s) \<and> delivered (sr_stderr s) = st_buffer (sr_stderr s))
   \<and> (sr_pc s = ReaderDone \<longrightarrow> sr_out_eof s \<and> sr_err_eof s)"

lemma eof_frame [simp]:
  "st_eof (sync_put p b) = st_eof p" "st_eof (async_put p b) = st_eof p"
  "st_eof (pipe_close p) = st_eof p" "st_eof (set_eof p)"
  by (simp_all add: sync_put_def async_put_def pipe_defs Let_def)

lemma reader_step_exit:
  assumes "stream_inv budget s" "exit_inv s"
  shows "exit_inv (reader_step budget ticks timed_out cancelled s)"
proof (cases "sr_pc s")
  case DrainStdout
  have wf: "pipe_wf (sr_stdout s)" using assms by (simp add: stream_inv_def)
  obtain b e p where w: "wait_and_drain (sr_stdout s) = ((b, e), p)" by (metis prod.exhaust)
  show ?thesis using assms(2) drain_facts [OF wf w] DrainStdout w
    by (simp add: reader_step_def exit_inv_def)
next
  case DrainStderr
  have wf: "pipe_wf (sr_stderr s)" using assms by (simp add: stream_inv_def)
  obtain b e p where w: "wait_and_drain (sr_stderr s) = ((b, e), p)" by (metis prod.exhaust)
  show ?thesis using assms(2) drain_facts [OF wf w] DrainStderr w
    by (simp add: reader_step_def exit_inv_def)
qed (use assms(2) in \<open>auto simp: reader_step_def exit_inv_def stream_inv_facts sync_pipe.close_frame\<close>)

lemma stream_step_exit:
  assumes "stream_inv budget s" "exit_inv s" "\<not> shuts_down a"
  shows "exit_inv (stream_step budget ticks s a)"
proof (cases a)
  case (GuestWrite st b)
  then show ?thesis using assms by (cases st) (auto simp: exit_inv_def on_pipe_def)
next
  case (GuestPollWrite st b)
  then show ?thesis using assms by (cases st) (auto simp: exit_inv_def on_pipe_def)
next
  case (ReaderStep t c)
  then show ?thesis using assms reader_step_exit by simp
qed (use assms in \<open>auto simp: exit_inv_def sync_pipe.end_frame\<close>)

lemma stream_run_exit:
  assumes "list_all (\<lambda>a. \<not> shuts_down a) as"
  shows "exit_inv (stream_run budget ticks as)"
proof -
  have "stream_inv budget (stream_run budget ticks as) \<and> exit_inv (stream_run budget ticks as)"
  proof (rule stream_run_induct)
    show "stream_inv budget (streaming_init budget) \<and> exit_inv (streaming_init budget)"
      by (simp add: streaming_init_inv) (simp add: exit_inv_def streaming_init_def pipe_new_def)
  qed (use assms in \<open>auto simp: stream_step_inv list_all_iff intro: stream_step_exit\<close>)
  then show ?thesis by blast
qed

section \<open>The reader leaves its loop\<close>

text \<open>Once both streams have ended, every operation of the reader brings it closer to the exit.\<close>

definition ended_inv :: "streaming \<Rightarrow> bool" where
  "ended_inv s \<longleftrightarrow>
     (sr_guest s \<in> {StdoutEnded, BothEnded} \<longrightarrow> st_eof (sr_stdout s))
   \<and> (sr_guest s = BothEnded \<longrightarrow> st_eof (sr_stderr s))"

fun is_reader :: "stream_action \<Rightarrow> bool" where
  "is_reader (ReaderStep _ _) = True"
| "is_reader _ = False"

definition remaining :: "streaming \<Rightarrow> nat" where
  "remaining s = (let again = (if sr_out_eof s \<and> sr_err_eof s then 0 else 6) in
     case sr_pc s of
       DrainStdout \<Rightarrow> 6
     | DrainStderr \<Rightarrow> (if sr_out_eof s then 5 else 11)
     | CheckBudget \<Rightarrow> 4 + again
     | CloseStderr \<Rightarrow> 3 + again
     | CheckCancel \<Rightarrow> 2 + again
     | CheckExit \<Rightarrow> 1 + again
     | ReaderDone \<Rightarrow> 0)"

lemma remaining_le: "remaining s \<le> 11"
  by (simp add: remaining_def Let_def split: reader_pc.splits)

lemma remaining_0: "remaining s = 0 \<longleftrightarrow> sr_pc s = ReaderDone"
  by (simp add: remaining_def Let_def split: reader_pc.splits)

lemma drain_eof: "wait_and_drain p = ((b, e), q) \<Longrightarrow> e = st_eof p \<and> st_eof q = st_eof p"
  by (auto simp: wait_and_drain_def)

lemma reader_step_eof [simp]:
  "st_eof (sr_stdout (reader_step budget ticks t c s)) = st_eof (sr_stdout s)"
  "st_eof (sr_stderr (reader_step budget ticks t c s)) = st_eof (sr_stderr s)"
  "sr_guest (reader_step budget ticks t c s) = sr_guest s"
  by (auto simp: reader_step_def split: reader_pc.splits prod.splits dest: drain_eof)

lemma reader_step_remaining:
  assumes "st_eof (sr_stdout s)" "st_eof (sr_stderr s)"
  shows "remaining (reader_step budget ticks t c s) \<le> remaining s - 1"
  using assms
  by (cases "sr_pc s"; cases "wait_and_drain (sr_stdout s)"; cases "wait_and_drain (sr_stderr s)")
    (auto simp: reader_step_def remaining_def Let_def wait_ends_def wait_and_drain_def)

lemma stream_step_ended:
  assumes "ended_inv s" "sr_guest s = BothEnded"
  shows "sr_guest (stream_step budget ticks s a) = BothEnded \<and> ended_inv (stream_step budget ticks s a)
    \<and> remaining (stream_step budget ticks s a) \<le> remaining s - (if is_reader a then 1 else 0)"
proof (cases a)
  case (ReaderStep t c)
  then show ?thesis using assms reader_step_remaining [of s budget ticks t c]
    by (simp add: ended_inv_def)
qed (use assms in \<open>auto simp: ended_inv_def remaining_def\<close>)

lemma ended_foldl:
  "ended_inv s \<Longrightarrow> sr_guest s = BothEnded \<Longrightarrow>
     remaining (foldl (stream_step budget ticks) s bs) \<le> remaining s - length (filter is_reader bs)"
proof (induction bs arbitrary: s)
  case (Cons b bs)
  show ?case
    using Cons.IH [of "stream_step budget ticks s b"] stream_step_ended [OF Cons.prems, of budget ticks b]
    by (auto split: if_splits)
qed simp

lemma stream_run_ended: "ended_inv (stream_run budget ticks as)"
proof (rule stream_run_induct)
  show "ended_inv (streaming_init budget)" by (simp add: ended_inv_def streaming_init_def)
next
  fix s a assume "ended_inv s"
  then show "ended_inv (stream_step budget ticks s a)"
    by (cases a) (auto simp: ended_inv_def on_pipe_def poll_shutdown_set_eof split: stream.splits)
qed


section \<open>The clock\<close>

fun sees_cancel :: "stream_action \<Rightarrow> bool" where
  "sees_cancel (ReaderStep _ cancelled) = cancelled"
| "sees_cancel _ = False"

definition clock_inv :: "streaming \<Rightarrow> bool" where
  "clock_inv s \<longleftrightarrow> 100 * sr_epoch s \<le> sr_last_tick s \<and> sr_last_tick s \<le> sr_now s"

lemma stream_step_clock:
  assumes "clock_inv s" "\<not> sees_cancel a"
  shows "clock_inv (stream_step budget ticks s a)"
proof (cases a)
  case (ReaderStep t c)
  then have "\<not> c" using assms(2) by simp
  then show ?thesis using assms(1) unfolding ReaderStep
    by (cases "sr_pc s"; cases "wait_and_drain (sr_stdout s)"; cases "wait_and_drain (sr_stderr s)")
      (auto simp: reader_step_def clock_inv_def)
qed (use assms in \<open>auto simp: clock_inv_def on_pipe_def split: stream.splits\<close>)

lemma stream_run_clock:
  "list_all (\<lambda>a. \<not> sees_cancel a) as \<Longrightarrow> clock_inv (stream_run budget ticks as)"
  by (rule stream_run_induct) (auto simp: clock_inv_def streaming_init_def list_all_iff
      intro!: stream_step_clock [unfolded clock_inv_def])

section \<open>Closed pipes\<close>

lemma stream_step_closed:
  assumes "stream_inv budget s" "st_closed (sr_stdout s)" "st_closed (sr_stderr s)"
  shows "pipe_contents (sr_stdout (stream_step budget ticks s a)) = pipe_contents (sr_stdout s)
    \<and> pipe_contents (sr_stderr (stream_step budget ticks s a)) = pipe_contents (sr_stderr s)
    \<and> st_closed (sr_stdout (stream_step budget ticks s a))
    \<and> st_closed (sr_stderr (stream_step budget ticks s a))"
proof (cases a)
  case (GuestWrite st b)
  then show ?thesis using assms sync_pipe.put_closed
    by (cases st) (auto simp: on_pipe_def pipe_contents_def sync_pipe.put_frame)
next
  case (GuestPollWrite st b)
  then show ?thesis using assms async_pipe.put_closed
    by (cases st) (auto simp: on_pipe_def pipe_contents_def async_pipe.put_frame)
next
  case (GuestShutdown st)
  then show ?thesis using assms
    by (cases st) (auto simp: on_pipe_def pipe_contents_def poll_shutdown_set_eof sync_pipe.end_frame)
next
  case (ReaderStep t c)
  then show ?thesis using assms
    by (cases "sr_pc s"; cases "wait_and_drain (sr_stdout s)"; cases "wait_and_drain (sr_stderr s)")
      (auto simp: reader_step_def wait_and_drain_def pipe_contents_def pipe_close_def)
qed (use assms in \<open>auto simp: pipe_contents_def sync_pipe.end_frame\<close>)

lemma closed_foldl:
  "stream_inv budget s \<Longrightarrow> st_closed (sr_stdout s) \<Longrightarrow> st_closed (sr_stderr s) \<Longrightarrow>
     pipe_contents (sr_stdout (foldl (stream_step budget ticks) s bs)) = pipe_contents (sr_stdout s)
   \<and> pipe_contents (sr_stderr (foldl (stream_step budget ticks) s bs)) = pipe_contents (sr_stderr s)"
proof (induction bs arbitrary: s)
  case (Cons b bs)
  show ?case
    using Cons.IH [of "stream_step budget ticks s b"] stream_step_closed [OF Cons.prems, of ticks b]
      stream_step_inv [OF Cons.prems(1)] by simp
qed simp

lemma reader_steps_buffers:
  "list_all is_reader bs \<Longrightarrow>
     st_buffer (sr_stdout (foldl (stream_step budget ticks) s bs)) = st_buffer (sr_stdout s)
   \<and> st_buffer (sr_stderr (foldl (stream_step budget ticks) s bs)) = st_buffer (sr_stderr s)"
proof (induction bs arbitrary: s)
  case (Cons b bs)
  then obtain t c where b: "b = ReaderStep t c" by (cases b) auto
  have "st_buffer (sr_stdout (reader_step budget ticks t c s)) = st_buffer (sr_stdout s)
     \<and> st_buffer (sr_stderr (reader_step budget ticks t c s)) = st_buffer (sr_stderr s)"
    by (cases "sr_pc s"; cases "wait_and_drain (sr_stdout s)"; cases "wait_and_drain (sr_stderr s)")
      (auto simp: reader_step_def wait_and_drain_def pipe_close_def)
  then show ?case using Cons b by simp
qed simp

lemma stream_inv_bounds:
  assumes "stream_inv budget s"
  shows "length (sr_total_stdout s) \<le> unat budget" "length (sr_total_stderr s) \<le> unat budget"
proof -
  have "pipe_wf (sr_stdout s)" "pipe_wf (sr_stderr s)" "sp_capacity (sr_stdout s) = budget"
    "sp_capacity (sr_stderr s) = budget" "sr_total_stdout s = delivered (sr_stdout s)"
    "sr_total_stderr s = delivered (sr_stderr s)"
    using assms by (simp_all add: stream_inv_def)
  then show "length (sr_total_stdout s) \<le> unat budget" "length (sr_total_stderr s) \<le> unat budget"
    by (auto simp: pipe_wf_def delivered_def)
qed

text \<open>A guest that writes once to each stream and returns, with the reader looking last.\<close>

definition write_twice :: "bytes \<Rightarrow> bytes \<Rightarrow> stream_action list" where
  "write_twice a b = [GuestWrite Stdout a, GuestWrite Stderr b, GuestReturn, EndStdout, EndStderr]"

definition reader_turns :: "stream_action list" where
  "reader_turns = replicate 11 (ReaderStep False False)"

lemma reader_turns_facts:
  "filter is_reader reader_turns = reader_turns" "length reader_turns = 11"
  "list_all is_reader reader_turns" "list_all (\<lambda>a. \<not> shuts_down a) reader_turns"
  "list_all (\<lambda>a. \<not> shuts_down a) (write_twice a b)"
  by (simp_all add: reader_turns_def list_all_iff write_twice_def)

lemma write_twice_state:
  assumes "length a \<le> unat budget" "length b \<le> unat budget"
  shows "sr_guest (stream_run budget ticks (write_twice a b)) = BothEnded
    \<and> st_buffer (sr_stdout (stream_run budget ticks (write_twice a b))) = a
    \<and> st_buffer (sr_stderr (stream_run budget ticks (write_twice a b))) = b"
proof -
  have put: "st_buffer (sync_put (pipe_new budget) x) = x" if "length x \<le> unat budget" for x
    using sync_put_cases [OF pipe_new_wf [of budget], of x] that by (simp add: pipe_new_def)
  show ?thesis
    by (simp add: stream_run_def write_twice_def streaming_init_def on_pipe_def put assms
        sync_pipe.end_frame)
qed

lemma write_twice_run:
  fixes ticks :: u64
  assumes "length a \<le> unat budget" "length b \<le> unat budget"
  defines "t \<equiv> stream_run budget ticks (write_twice a b @ reader_turns)"
  shows "sr_pc t = ReaderDone" "sr_total_stdout t = a" "sr_total_stderr t = b"
proof -
  let ?s = "stream_run budget ticks (write_twice a b)"
  note s = write_twice_state [OF assms(1,2), of ticks]
  have t: "t = foldl (stream_step budget ticks) ?s reader_turns"
    by (simp add: t_def stream_run_append)
  have "remaining t \<le> remaining ?s - 11"
    using ended_foldl [OF stream_run_ended, of budget ticks "write_twice a b" budget ticks reader_turns] s
    by (simp add: t reader_turns_facts)
  then show "sr_pc t = ReaderDone" using remaining_le [of ?s] remaining_0 [of t] by linarith
  moreover have "exit_inv t" unfolding t_def by (rule stream_run_exit) (simp add: reader_turns_facts)
  moreover have "sr_total_stdout t = delivered (sr_stdout t)" "sr_total_stderr t = delivered (sr_stderr t)"
    using stream_run_inv [of budget ticks "write_twice a b @ reader_turns"]
    by (simp_all add: stream_inv_def t_def)
  moreover have "st_buffer (sr_stdout t) = a" "st_buffer (sr_stderr t) = b"
    using reader_steps_buffers [OF reader_turns_facts(3), of budget ticks ?s] s by (simp_all add: t)
  ultimately show "sr_total_stdout t = a" "sr_total_stderr t = b" by (simp_all add: exit_inv_def)
qed

text \<open>A streaming run sends output chunks only.\<close>

lemma run_wasi_events_chunks:
  assumes "run_wasi_events h guest component r cancel events = Some (result, evs)"
  obtains sent where "evs = events @ sent" "list_all output_chunk sent"
proof (cases "build_store h r (h_env h)")
  case (Inl e)
  then show ?thesis using assms that [of "[]"]
    by (auto simp: run_wasi_events_def run_wasi_events_impl_def)
next
  case (Inr store)
  obtain res actions m where g: "guest component store = (res, actions, m)" by (metis prod.exhaust)
  let ?s = "stream_run (rl_max_output_bytes (cg_limits (cr_grant r)))
      (epoch_ticks (cg_limits (cr_grant r))) actions"
  have "list_all output_chunk (sr_events ?s)"
    using stream_run_inv [of "rl_max_output_bytes (cg_limits (cr_grant r))"
        "epoch_ticks (cg_limits (cr_grant r))" actions]
    by (simp add: stream_inv_def)
  moreover have "evs = events @ sr_events ?s" using assms Inr g
    by (auto simp: run_wasi_events_def run_wasi_events_impl_def Let_def
        split: if_splits option.splits guest_result.splits)
  ultimately show ?thesis using that by blast
qed

section \<open>A silent run\<close>

text \<open>A run whose guest writes nothing, for concrete instances.\<close>

definition silent_run :: "stream_action list" where
  "silent_run = [GuestReturn, EndStdout, EndStderr, ReaderStep False False, ReaderStep False False,
     ReaderStep False False, ReaderStep False False, ReaderStep False False]"

lemma silent_run:
  "sr_pc (stream_run budget ticks silent_run) = ReaderDone" "sr_events (stream_run budget ticks silent_run) = []"
  "sr_total_stdout (stream_run budget ticks silent_run) = []"
  "sr_total_stderr (stream_run budget ticks silent_run) = []"
  by (simp_all add: stream_run_def silent_run_def streaming_init_def reader_step_def
      pipe_new_def set_eof_def wait_ends_def wait_and_drain_def forward_def)

section \<open>Properties\<close>

text \<open>
  C17. Nothing is lost, reordered or invented between the guest and the caller: under every
  interleaving the events carry, stream by stream, exactly the collected totals in
  non-empty chunks, and the totals are a prefix of what the guest wrote; when the reader
  has left its loop and the guest shut no stream down itself, they are all of it.
\<close>

theorem streaming_lossless:
  "let s = stream_run budget ticks as in
     list_all output_chunk (sr_events s)
   \<and> stream_bytes Stdout (sr_events s) = sr_total_stdout s
   \<and> stream_bytes Stderr (sr_events s) = sr_total_stderr s
   \<and> prefix (sr_total_stdout s) (pipe_contents (sr_stdout s))
   \<and> prefix (sr_total_stderr s) (pipe_contents (sr_stderr s))
   \<and> (sr_pc s = ReaderDone \<longrightarrow> list_all (\<lambda>a. \<not> shuts_down a) as \<longrightarrow>
        sr_total_stdout s = pipe_contents (sr_stdout s)
        \<and> sr_total_stderr s = pipe_contents (sr_stderr s))"
  using stream_run_inv [of budget ticks as] stream_run_exit [of as budget ticks]
  by (auto simp: Let_def stream_inv_def exit_inv_def pipe_contents_def delivered_def take_is_prefix)

theorem streaming_lossless_witness:
  "let s = stream_run 4 10 [GuestWrite Stdout [1, 2], GuestPollWrite Stderr [3], GuestReturn, EndStdout,
       EndStderr, ReaderStep False False, ReaderStep False False, ReaderStep False False,
       ReaderStep False False, ReaderStep False False] in
     sr_pc s = ReaderDone \<and> sr_total_stdout s = pipe_contents (sr_stdout s)
     \<and> sr_events s = [Output Stdout [1, 2], Output Stderr [3]]"
proof -
  let ?as = "[GuestWrite Stdout [1, 2], GuestPollWrite Stderr [3], GuestReturn, EndStdout,
       EndStderr, ReaderStep False False, ReaderStep False False, ReaderStep False False,
       ReaderStep False False, ReaderStep False False]"
  have "sr_pc (stream_run 4 10 ?as) = ReaderDone"
    "sr_events (stream_run 4 10 ?as) = [Output Stdout [1, 2], Output Stderr [3]]"
    by code_simp+
  moreover have "list_all (\<lambda>a. \<not> shuts_down a) ?as" by simp
  ultimately show ?thesis using streaming_lossless [where as = ?as and budget = 4 and ticks = 10]
    unfolding Let_def by blast
qed

text \<open>
  C31. The output budget is enforced: no stream ever carries more than the budget, the look
  of the reader at the combined total closes both pipes when it exceeds the budget, and
  from then on the contents of both pipes never change again, whatever the guest does.
\<close>

theorem streaming_budget_cut:
  "let s = stream_run budget ticks as in
     length (sr_total_stdout s) \<le> unat budget \<and> length (sr_total_stderr s) \<le> unat budget
   \<and> (sr_pc s = CheckCancel \<longrightarrow>
        unat budget < length (sr_total_stdout s) + length (sr_total_stderr s) \<longrightarrow> sr_budget_closed s)
   \<and> (sr_budget_closed s \<longrightarrow>
        pipe_contents (sr_stdout (stream_run budget ticks (as @ bs))) = pipe_contents (sr_stdout s)
      \<and> pipe_contents (sr_stderr (stream_run budget ticks (as @ bs))) = pipe_contents (sr_stderr s))"
proof -
  have inv: "stream_inv budget (stream_run budget ticks as)" by (rule stream_run_inv)
  note stream_inv_bounds [OF inv]
  moreover have "sr_budget_closed (stream_run budget ticks as) \<Longrightarrow>
      st_closed (sr_stdout (stream_run budget ticks as)) \<and> st_closed (sr_stderr (stream_run budget ticks as))"
    using inv by (simp add: stream_inv_def)
  moreover have "sr_pc (stream_run budget ticks as) = CheckCancel \<Longrightarrow>
      unat budget < length (sr_total_stdout (stream_run budget ticks as))
        + length (sr_total_stderr (stream_run budget ticks as))
      \<Longrightarrow> sr_budget_closed (stream_run budget ticks as)"
    using inv by (simp add: stream_inv_def)
  moreover note closed_foldl [OF inv, of ticks bs]
  ultimately show ?thesis unfolding Let_def stream_run_append by blast
qed

theorem streaming_budget_cut_witness:
  "let as = [GuestWrite Stdout [1, 2], GuestWrite Stderr [3], ReaderStep False False,
       ReaderStep False False, ReaderStep False False, ReaderStep False False] in
     sr_budget_closed (stream_run 2 10 as)
   \<and> pipe_contents (sr_stderr (stream_run 2 10 (as @ [GuestWrite Stderr [4]]))) = [3]"
proof -
  let ?as = "[GuestWrite Stdout [1, 2], GuestWrite Stderr [3], ReaderStep False False,
       ReaderStep False False, ReaderStep False False, ReaderStep False False]"
  have "sr_budget_closed (stream_run 2 10 ?as)" "pipe_contents (sr_stderr (stream_run 2 10 ?as)) = [3]"
    by code_simp+
  then show ?thesis
    using streaming_budget_cut [of 2 10 ?as "[GuestWrite Stderr [4]]"] by (simp add: Let_def)
qed

text \<open>
  C32. The combined budget is not a hard bound: for every budget there is an interleaving that
  ends normally in which the caller receives twice the budget, because the guest fills both
  pipes before the reader looks.
\<close>

theorem streaming_budget_overshoot:
  "\<exists>as. let s = stream_run budget ticks as in
     sr_pc s = ReaderDone
   \<and> length (sr_total_stdout s) + length (sr_total_stderr s) = 2 * unat budget"
proof -
  let ?b = "replicate (unat budget) 0"
  show ?thesis
    using write_twice_run [of ?b budget ?b ticks]
    by (intro exI [of _ "write_twice ?b ?b @ reader_turns"]) (simp add: Let_def)
qed

text \<open>
  C33. The streaming run returns: once the guest's thread has ended both streams, at most
  eleven operations of the reader, however they are interleaved, bring it to its exit.
\<close>

theorem streaming_reader_joins:
  assumes "sr_guest (stream_run budget ticks as) = BothEnded" and "11 \<le> length (filter is_reader bs)"
  shows "sr_pc (stream_run budget ticks (as @ bs)) = ReaderDone"
proof -
  have "remaining (stream_run budget ticks (as @ bs))
      \<le> remaining (stream_run budget ticks as) - length (filter is_reader bs)"
    using ended_foldl [OF stream_run_ended assms(1)] by (simp add: stream_run_append)
  then show ?thesis
    using remaining_le [of "stream_run budget ticks as"] assms(2) by (simp flip: remaining_0)
qed

theorem streaming_reader_joins_witness:
  "sr_pc (stream_run 4 10 ([GuestWrite Stdout [1], GuestReturn, EndStdout, EndStderr]
      @ replicate 11 (ReaderStep False True))) = ReaderDone"
  by (rule streaming_reader_joins) code_simp+

text \<open>
  The end of the streams is the only way out of the reader's loop: if the guest's thread never
  signals it, as when a panic unwinds past the two calls, the reader never leaves.
\<close>

theorem reader_outlives_panic:
  assumes "list_all (\<lambda>a. \<not> shuts_down a \<and> a \<noteq> EndStdout) as"
  shows "sr_pc (stream_run budget ticks as) \<noteq> ReaderDone"
proof -
  have "sr_guest (stream_run budget ticks as) \<in> {GuestRunning, GuestReturned}"
  proof (rule stream_run_induct)
    show "sr_guest (streaming_init budget) \<in> {GuestRunning, GuestReturned}"
      by (simp add: streaming_init_def)
  next
    fix s :: streaming and a assume "sr_guest s \<in> {GuestRunning, GuestReturned}" "a \<in> set as"
    moreover from this have "a \<noteq> EndStdout" using assms by (auto simp: list_all_iff)
    ultimately show "sr_guest (stream_step budget ticks s a) \<in> {GuestRunning, GuestReturned}"
      by (cases a) (auto simp: on_pipe_def split: stream.splits)
  qed
  moreover have "list_all (\<lambda>a. \<not> shuts_down a) as" using assms by (simp add: list_all_iff)
  ultimately show ?thesis
    using stream_run_exit [of as budget ticks] by (auto simp: exit_inv_def)
qed

theorem reader_outlives_panic_witness:
  "sr_pc (stream_run 4 10 ([GuestWrite Stdout [1], GuestReturn] @ replicate 50 (ReaderStep True False)))
     \<noteq> ReaderDone"
  by (rule reader_outlives_panic) (simp add: list_all_iff)

text \<open>
  C34. The timeout is never early: as long as the reader sees no cancellation it has moved the
  epoch at most once per 100ms, so a guest it interrupts had its full time.  A
  cancellation it sees moves the epoch past the deadline at once.
\<close>

theorem streaming_deadline:
  "(list_all (\<lambda>a. \<not> sees_cancel a) as \<longrightarrow>
      deadline_reached ticks (sr_epoch (stream_run budget ticks as)) \<longrightarrow>
      100 * unat ticks \<le> sr_now (stream_run budget ticks as))
   \<and> (sr_pc (stream_run budget ticks as) = CheckCancel \<longrightarrow>
      deadline_reached ticks (sr_epoch (stream_run budget ticks (as @ [ReaderStep t True]))))"
  using stream_run_clock [of as budget ticks]
  by (auto simp: clock_inv_def deadline_reached_def stream_run_snoc reader_step_def)

theorem streaming_deadline_witness:
  "100 * unat (1 :: u64) \<le> sr_now (stream_run 4 1 [Elapse 100, ReaderStep True False,
      ReaderStep True False, ReaderStep False False, ReaderStep False False])"
proof -
  have "sr_epoch (stream_run 4 1 [Elapse 100, ReaderStep True False,
      ReaderStep True False, ReaderStep False False, ReaderStep False False]) = 1"
    by code_simp
  then show ?thesis
    using streaming_deadline [of "[Elapse 100, ReaderStep True False,
      ReaderStep True False, ReaderStep False False, ReaderStep False False]" 1 4 True]
    by (simp add: deadline_reached_def)
qed



end
