(* ===== verification/Broker.thy ===== *)
theory Broker
  imports Streaming
begin

text \<open>
  \<open>broker.rs\<close>: the broker that queues sessions, gates risky ones on approval, runs one at a
  time and keeps the audit trail.  An \<open>ActionBroker\<close> and the \<open>BrokerState\<close> it shares with its
  worker and sweeper threads are one record, which every operation takes and returns.  An
  \<open>mpsc\<close> channel is an address; the record holds what was sent on it and whether its
  receiver still exists.  The operations are polymorphic in further fields of the record.
\<close>

section \<open>Data\<close>

datatype broker_error =
    UnknownSession u64
  | WorkerStopped
  | NotWasi
  | InvalidRequest command_error
  | BrokerRuntime runtime_error
  | QueueFull
  | InvalidCapacity
  | NotPendingApproval u64

datatype broker_outcome =
    OutCompleted wasi_output
  | OutPendingApproval approval_reason
  | OutCancelled
  | OutDenied command_error
  | OutFailed runtime_error

datatype approval_decision = AutoApproved | Approved | DecisionDenied | TimedOut | DecisionCancelled

datatype audit_outcome = AuditCompleted i32 | AuditCancelled | AuditDenied | AuditFailed

record audit_entry =
  ae_id :: u64
  ae_actor :: actor
  ae_program :: string
  ae_decision :: approval_decision
  ae_outcome :: audit_outcome

text \<open>A sink holds the sending end of a channel; a clone of it holds the same channel.\<close>

datatype job_sink = SinkOutcome nat | SinkEvents nat

record 'c job =
  job_request :: command_request
  job_component :: 'c
  job_sink :: job_sink
  job_session :: session_state
  job_admission :: approval_decision

record 'c pending_job =
  pj_job :: "'c job"
  pj_deadline :: nat

datatype message = Outcome broker_outcome | Event session_event

datatype terminal = TermCancelled | TermDenied | TermDeniedWith command_error

text \<open>Instants are milliseconds on the monotonic clock.\<close>

record 'c broker_state =
  bs_handles :: "(u64, cancel_handle) fmap"
  bs_pending :: "(u64, 'c pending_job) fmap"
  bs_audit :: "audit_entry list"
  bs_approval_timeout :: nat

record 'c action_broker = "'c broker_state" +
  ab_queue :: "'c job list"
  ab_worker_up :: bool
  ab_capacity :: usize
  ab_stopped :: bool
  ab_signals :: cancel_store
  ab_sent :: "nat \<Rightarrow> message list"
  ab_open :: "nat \<Rightarrow> bool"
  ab_next_channel :: nat

definition DEFAULT_MAX_OUTSTANDING_SESSIONS :: usize where
  "DEFAULT_MAX_OUTSTANDING_SESSIONS = 64"

definition DEFAULT_APPROVAL_TIMEOUT :: nat where
  "DEFAULT_APPROVAL_TIMEOUT = 30000"

definition DEFAULT_MAX_AUDIT_ENTRIES :: nat where
  "DEFAULT_MAX_AUDIT_ENTRIES = 4096"

section \<open>Channels\<close>

definition channel_new :: "('c, 'z) action_broker_scheme \<Rightarrow> nat \<times> ('c, 'z) action_broker_scheme" where
  "channel_new b = (ab_next_channel b,
     b\<lparr>ab_next_channel := Suc (ab_next_channel b),
       ab_sent := (ab_sent b)(ab_next_channel b := []),
       ab_open := (ab_open b)(ab_next_channel b := True)\<rparr>)"

text \<open>A send fails, and hands the value back, exactly when the receiver is gone.\<close>

definition channel_send ::
    "nat \<Rightarrow> message \<Rightarrow> ('c, 'z) action_broker_scheme \<Rightarrow> bool \<times> ('c, 'z) action_broker_scheme" where
  "channel_send c msg b =
     (if ab_open b c then (True, b\<lparr>ab_sent := (ab_sent b)(c := ab_sent b c @ [msg])\<rparr>)
      else (False, b))"

text \<open>A caller drops its receiver.\<close>

definition hang_up :: "nat \<Rightarrow> ('c, 'z) action_broker_scheme \<Rightarrow> ('c, 'z) action_broker_scheme" where
  "hang_up c b = b\<lparr>ab_open := (ab_open b)(c := False)\<rparr>"

definition sink_channel :: "job_sink \<Rightarrow> nat" where
  "sink_channel sink = (case sink of SinkOutcome c \<Rightarrow> c | SinkEvents c \<Rightarrow> c)"

section \<open>Shared state\<close>

definition audit_record ::
    "audit_entry \<Rightarrow> ('c, 'z) action_broker_scheme \<Rightarrow> ('c, 'z) action_broker_scheme" where
  "audit_record entry b =
     (let audit = bs_audit b @ [entry]
      in if DEFAULT_MAX_AUDIT_ENTRIES < length audit
         then b\<lparr>bs_audit := drop (length audit - DEFAULT_MAX_AUDIT_ENTRIES) audit\<rparr>
         else b\<lparr>bs_audit := audit\<rparr>)"

definition release :: "u64 \<Rightarrow> ('c, 'z) action_broker_scheme \<Rightarrow> ('c, 'z) action_broker_scheme" where
  "release i b = b\<lparr>bs_handles := fmdrop i (bs_handles b)\<rparr>"

definition terminal_message :: "job_sink \<Rightarrow> terminal \<Rightarrow> message" where
  "terminal_message sink t = (case (sink, t) of
     (SinkOutcome _, TermCancelled) \<Rightarrow> Outcome OutCancelled
   | (SinkOutcome _, TermDenied) \<Rightarrow>
       Outcome (OutDenied (InvalidTransition ''request denied by policy''))
   | (SinkOutcome _, TermDeniedWith e) \<Rightarrow> Outcome (OutDenied e)
   | (SinkEvents _, TermCancelled) \<Rightarrow> Event Cancelled
   | (SinkEvents _, TermDenied) \<Rightarrow> Event Denied
   | (SinkEvents _, TermDeniedWith _) \<Rightarrow> Event Denied)"

definition send_terminal ::
    "job_sink \<Rightarrow> terminal \<Rightarrow> ('c, 'z) action_broker_scheme \<Rightarrow> ('c, 'z) action_broker_scheme" where
  "send_terminal sink t b = snd (channel_send (sink_channel sink) (terminal_message sink t) b)"

definition job_entry :: "u64 \<Rightarrow> 'c job \<Rightarrow> approval_decision \<Rightarrow> audit_outcome \<Rightarrow> audit_entry" where
  "job_entry i job d out = \<lparr>ae_id = i, ae_actor = cr_actor (job_request job),
     ae_program = cr_program (job_request job), ae_decision = d, ae_outcome = out\<rparr>"

text \<open>
  How the operations end a session that does not run: the terminal message, the audit entry
  and the release of the handle, in this order.
\<close>

definition close_session ::
    "u64 \<Rightarrow> 'c job \<Rightarrow> terminal \<Rightarrow> approval_decision \<Rightarrow> audit_outcome
       \<Rightarrow> ('c, 'z) action_broker_scheme \<Rightarrow> ('c, 'z) action_broker_scheme" where
  "close_session i job t d out b =
     release i (audit_record (job_entry i job d out) (send_terminal (job_sink job) t b))"

section \<open>The broker\<close>

definition with_config :: "wasm_error + unit \<Rightarrow> usize \<Rightarrow> nat \<Rightarrow> broker_error + 'c action_broker" where
  "with_config engine capacity timeout =
     (if capacity = 0 then Err InvalidCapacity
      else case wasi_runtime_new engine of
        Inl e \<Rightarrow> Err (BrokerRuntime e)
      | Inr _ \<Rightarrow> Ok \<lparr>bs_handles = fmempty, bs_pending = fmempty, bs_audit = [],
          bs_approval_timeout = timeout, ab_queue = [], ab_worker_up = True,
          ab_capacity = capacity, ab_stopped = False, ab_signals = cancel_store_init,
          ab_sent = (\<lambda>_. []), ab_open = (\<lambda>_. False), ab_next_channel = 0\<rparr>)"

definition action_broker_new :: "wasm_error + unit \<Rightarrow> broker_error + 'c action_broker" where
  "action_broker_new engine =
     with_config engine DEFAULT_MAX_OUTSTANDING_SESSIONS DEFAULT_APPROVAL_TIMEOUT"

definition with_capacity :: "wasm_error + unit \<Rightarrow> usize \<Rightarrow> broker_error + 'c action_broker" where
  "with_capacity engine capacity = with_config engine capacity DEFAULT_APPROVAL_TIMEOUT"

definition broker_compile_component :: "'c host \<Rightarrow> bytes \<Rightarrow> runtime_error + 'c" where
  "broker_compile_component h b = map_err RtComponent (h_component_new h b)"

definition enqueue ::
    "'c job \<Rightarrow> ('c, 'z) action_broker_scheme
       \<Rightarrow> ('c, 'z) action_broker_scheme \<times> (broker_error + unit)" where
  "enqueue job b =
     (let i = cr_id (job_request job)
      in if unat (ab_capacity b) \<le> fcard (fmdom (bs_handles b)) then (b, Err QueueFull)
         else (case cancel_handle_new (ab_signals b) of (handle, m) \<Rightarrow>
           (let b1 = b\<lparr>ab_signals := m, bs_handles := fmupd i handle (bs_handles b)\<rparr>
            in if \<not> ab_worker_up b1 then (release i b1, Err WorkerStopped)
               else (b1\<lparr>ab_queue := ab_queue b1 @ [job]\<rparr>, Ok ()))))"

text \<open>The two ways to submit differ in the sink of the job.\<close>

definition submit_job ::
    "(nat \<Rightarrow> job_sink) \<Rightarrow> 'c \<Rightarrow> command_request \<Rightarrow> ('c, 'z) action_broker_scheme
       \<Rightarrow> ('c, 'z) action_broker_scheme \<times> (broker_error + nat)" where
  "submit_job sink component r b = (case validate r of
     Inl e \<Rightarrow> (b, Err (InvalidRequest e))
   | Inr _ \<Rightarrow>
      if cr_mode r \<noteq> Wasi then (b, Err NotWasi)
      else (case channel_new b of (c, b1) \<Rightarrow>
        (let job = \<lparr>job_request = r, job_component = component, job_sink = sink c,
                    job_session = session_new (cr_id r) (grant_limits (cr_grant r)),
                    job_admission = AutoApproved\<rparr>
         in case enqueue job b1 of
              (b2, Inl e) \<Rightarrow> (b2, Err e)
            | (b2, Inr _) \<Rightarrow> (b2, Ok c))))"

definition submit ::
    "'c \<Rightarrow> command_request \<Rightarrow> ('c, 'z) action_broker_scheme
       \<Rightarrow> ('c, 'z) action_broker_scheme \<times> (broker_error + nat)" where
  "submit component r b = submit_job SinkOutcome component r b"

definition submit_streaming ::
    "'c \<Rightarrow> command_request \<Rightarrow> ('c, 'z) action_broker_scheme
       \<Rightarrow> ('c, 'z) action_broker_scheme \<times> (broker_error + nat)" where
  "submit_streaming component r b = submit_job SinkEvents component r b"

text \<open>Whether the handle registered under an id is cancelled.\<close>

definition session_cancelled :: "u64 \<Rightarrow> ('c, 'z) action_broker_scheme \<Rightarrow> bool" where
  "session_cancelled i b = (case fmlookup (bs_handles b) i of
     None \<Rightarrow> False | Some handle \<Rightarrow> is_cancelled (ab_signals b) handle)"

definition approve ::
    "u64 \<Rightarrow> ('c, 'z) action_broker_scheme
       \<Rightarrow> ('c, 'z) action_broker_scheme \<times> (broker_error + unit)" where
  "approve i b = (case fmlookup (bs_pending b) i of
     None \<Rightarrow> (b, Err (NotPendingApproval i))
   | Some pending \<Rightarrow>
      (let job = pj_job pending; b1 = b\<lparr>bs_pending := fmdrop i (bs_pending b)\<rparr>
       in if session_cancelled i b1
            then (close_session i job TermCancelled DecisionCancelled AuditCancelled b1, Ok ())
          else if \<not> ab_worker_up b1 then (release i b1, Err WorkerStopped)
          else (b1\<lparr>ab_queue := ab_queue b1 @ [job\<lparr>job_admission := Approved\<rparr>]\<rparr>, Ok ())))"

definition deny ::
    "u64 \<Rightarrow> ('c, 'z) action_broker_scheme
       \<Rightarrow> ('c, 'z) action_broker_scheme \<times> (broker_error + unit)" where
  "deny i b = (case fmlookup (bs_pending b) i of
     None \<Rightarrow> (b, Err (NotPendingApproval i))
   | Some pending \<Rightarrow>
      (close_session i (pj_job pending) TermDenied DecisionDenied AuditDenied
         (b\<lparr>bs_pending := fmdrop i (bs_pending b)\<rparr>), Ok ()))"

definition cancel ::
    "u64 \<Rightarrow> ('c, 'z) action_broker_scheme
       \<Rightarrow> ('c, 'z) action_broker_scheme \<times> (broker_error + unit)" where
  "cancel i b = (case fmlookup (bs_pending b) i of
     Some pending \<Rightarrow>
      (close_session i (pj_job pending) TermCancelled DecisionCancelled AuditCancelled
         (b\<lparr>bs_pending := fmdrop i (bs_pending b)\<rparr>), Ok ())
   | None \<Rightarrow> (case fmlookup (bs_handles b) i of
       None \<Rightarrow> (b, Err (UnknownSession i))
     | Some handle \<Rightarrow> (b\<lparr>ab_signals := cancel_handle_cancel (ab_signals b) handle\<rparr>, Ok ())))"

definition audit_trail :: "('c, 'z) action_broker_scheme \<Rightarrow> audit_entry list" where
  "audit_trail b = bs_audit b"

section \<open>Running a job\<close>

text \<open>
  What the worker runs on: the host, what guests do under either path, and the runs in
  which host code panics, with the output events forwarded by then.  While a guest runs
  the other threads go on; \<open>meanwhile\<close> is what they do to the broker in that time, and the
  state of the signals after it is what the run finds when it ends.
\<close>

record 'c backend =
  be_host :: "'c host"
  be_guest :: "'c \<Rightarrow> store_config \<Rightarrow> guest_result \<times> bytes \<times> bytes"
  be_stream_guest :: "'c \<Rightarrow> store_config \<Rightarrow> guest_result \<times> stream_action list"
  be_panics :: "'c job \<Rightarrow> session_event list option"

text \<open>A call returns, unwinds, or stays in a run whose reader thread never ends.\<close>

datatype 'a call = Returned 'a | Panicked | NeverReturns

abbreviation note_event :: "'c job \<Rightarrow> session_event \<Rightarrow> 'c job" where
  "note_event job e \<equiv> job\<lparr>job_session := fst (accept (job_session job) e)\<rparr>"

definition execute_capturing ::
    "'c backend \<Rightarrow> (('c, 'z) action_broker_scheme \<Rightarrow> ('c, 'z) action_broker_scheme) \<Rightarrow> 'c job
       \<Rightarrow> cancel_handle \<Rightarrow> ('c, 'z) action_broker_scheme
       \<Rightarrow> broker_outcome call \<times> 'c job \<times> ('c, 'z) action_broker_scheme" where
  "execute_capturing be meanwhile job handle b =
     (if is_cancelled (ab_signals b) handle then (Returned OutCancelled, note_event job Cancelled, b)
      else case accept (job_session job) Started of
        (s, Inl _) \<Rightarrow> (Returned (OutDenied (InvalidTransition ''session cannot start'')),
                       job\<lparr>job_session := s\<rparr>, b)
      | (s, Inr _) \<Rightarrow>
         (let job1 = job\<lparr>job_session := s\<rparr>; b1 = meanwhile b
          in if be_panics be job \<noteq> None then (Panicked, job1, b1)
             else case run_wasi_cancellable (be_host be)
                    (\<lambda>comp store. case be_guest be comp store of (res, out, err) \<Rightarrow>
                       (res, out, err, ab_signals b1))
                    (job_component job1) (job_request job1) handle of
               Inr output \<Rightarrow> (Returned (OutCompleted output),
                              note_event job1 (Exited (Some (wo_exit_code output))), b1)
             | Inl RtCancelled \<Rightarrow> (Returned OutCancelled, note_event job1 Cancelled, b1)
             | Inl RtWrongMode \<Rightarrow> (Returned (OutDenied
                   (InvalidTransition ''non-WASI request reached the WASI backend'')), job1, b1)
             | Inl e \<Rightarrow> (Returned (OutFailed e), note_event job1 Unsupported, b1)))"

text \<open>Sends whose result is ignored.\<close>

definition send_events ::
    "nat \<Rightarrow> session_event list \<Rightarrow> ('c, 'z) action_broker_scheme \<Rightarrow> ('c, 'z) action_broker_scheme" where
  "send_events c es b = fold (\<lambda>e b. snd (channel_send c (Event e) b)) es b"

definition execute_streaming ::
    "'c backend \<Rightarrow> (('c, 'z) action_broker_scheme \<Rightarrow> ('c, 'z) action_broker_scheme) \<Rightarrow> 'c job
       \<Rightarrow> cancel_handle \<Rightarrow> ('c, 'z) action_broker_scheme
       \<Rightarrow> audit_outcome call \<times> 'c job \<times> ('c, 'z) action_broker_scheme" where
  "execute_streaming be meanwhile job handle b = (case job_sink job of
     SinkOutcome _ \<Rightarrow> (Returned AuditFailed, job, b)
   | SinkEvents c \<Rightarrow>
      if is_cancelled (ab_signals b) handle
        then (Returned AuditCancelled, note_event job Cancelled, send_events c [Cancelled] b)
      else (case accept (job_session job) Started of
        (s, Inl _) \<Rightarrow> (Returned AuditDenied, job\<lparr>job_session := s\<rparr>, send_events c [Denied] b)
      | (s, Inr _) \<Rightarrow>
         (let job1 = job\<lparr>job_session := s\<rparr>; b1 = meanwhile (send_events c [Started] b)
          in case be_panics be job of
            Some es \<Rightarrow> (Panicked, job1, send_events c es b1)
          | None \<Rightarrow> (case run_wasi_events (be_host be)
                    (\<lambda>comp store. case be_stream_guest be comp store of (res, actions) \<Rightarrow>
                       (res, actions, ab_signals b1))
                    (job_component job1) (job_request job1) handle [] of
               None \<Rightarrow> (NeverReturns, job1, b1)
             | Some (result, es) \<Rightarrow>
                (let b2 = send_events c es b1
                 in case result of
                      Inr output \<Rightarrow> (Returned (AuditCompleted (wo_exit_code output)),
                          note_event job1 (Exited (Some (wo_exit_code output))),
                          send_events c [Exited (Some (wo_exit_code output))] b2)
                    | Inl RtCancelled \<Rightarrow> (Returned AuditCancelled, note_event job1 Cancelled,
                          send_events c [Cancelled] b2)
                    | Inl RtWrongMode \<Rightarrow> (Returned AuditDenied, job1, send_events c [Denied] b2)
                    | Inl _ \<Rightarrow> (Returned AuditFailed, note_event job1 Unsupported,
                          send_events c [Unsupported] b2))))))"

text \<open>The audit outcome of a capturing run; \<open>unreachable!\<close> is the panic.\<close>

definition audit_of :: "broker_outcome \<Rightarrow> audit_outcome call" where
  "audit_of outcome = (case outcome of
     OutCompleted output \<Rightarrow> Returned (AuditCompleted (wo_exit_code output))
   | OutPendingApproval _ \<Rightarrow> Panicked
   | OutCancelled \<Rightarrow> Returned AuditCancelled
   | OutDenied _ \<Rightarrow> Returned AuditDenied
   | OutFailed _ \<Rightarrow> Returned AuditFailed)"

definition execute ::
    "'c backend \<Rightarrow> (('c, 'z) action_broker_scheme \<Rightarrow> ('c, 'z) action_broker_scheme) \<Rightarrow> 'c job
       \<Rightarrow> cancel_handle \<Rightarrow> ('c, 'z) action_broker_scheme
       \<Rightarrow> audit_outcome call \<times> 'c job \<times> ('c, 'z) action_broker_scheme" where
  "execute be meanwhile job handle b = (case job_sink job of
     SinkEvents _ \<Rightarrow> execute_streaming be meanwhile job handle b
   | SinkOutcome c \<Rightarrow> (case execute_capturing be meanwhile job handle b of
       (Returned outcome, job1, b1) \<Rightarrow>
         (case audit_of outcome of
            Returned audit \<Rightarrow> (Returned audit, job1, snd (channel_send c (Outcome outcome) b1))
          | _ \<Rightarrow> (Panicked, job1, b1))
     | (Panicked, job1, b1) \<Rightarrow> (Panicked, job1, b1)
     | (NeverReturns, job1, b1) \<Rightarrow> (NeverReturns, job1, b1)))"

text \<open>Either admitted branch of \<open>process_job\<close>: run, record, release.\<close>

definition execute_and_release ::
    "'c backend \<Rightarrow> (('c, 'z) action_broker_scheme \<Rightarrow> ('c, 'z) action_broker_scheme) \<Rightarrow> 'c job
       \<Rightarrow> cancel_handle \<Rightarrow> approval_decision \<Rightarrow> ('c, 'z) action_broker_scheme
       \<Rightarrow> unit call \<times> ('c, 'z) action_broker_scheme" where
  "execute_and_release be meanwhile job handle decision b =
     (case execute be meanwhile job handle b of
        (Returned outcome, job1, b1) \<Rightarrow>
          (let i = cr_id (job_request job1)
           in (Returned (), release i (audit_record (job_entry i job1 decision outcome) b1)))
      | (Panicked, _, b1) \<Rightarrow> (Panicked, b1)
      | (NeverReturns, _, b1) \<Rightarrow> (NeverReturns, b1))"

definition pending_message :: "job_sink \<Rightarrow> approval_reason \<Rightarrow> message" where
  "pending_message sink reason = (case sink of
     SinkOutcome _ \<Rightarrow> Outcome (OutPendingApproval reason)
   | SinkEvents _ \<Rightarrow> Event (PendingApproval reason))"

definition approval_timeout :: "('c, 'z) broker_state_scheme \<Rightarrow> nat" where
  [simp]: "approval_timeout b = bs_approval_timeout b"

text \<open>The risky branch of \<open>process_job\<close>: park first, then notify.\<close>

definition park_job ::
    "nat \<Rightarrow> approval_reason \<Rightarrow> 'c job \<Rightarrow> ('c, 'z) action_broker_scheme
       \<Rightarrow> ('c, 'z) action_broker_scheme" where
  "park_job now reason job b =
     (let job1 = note_event job (PendingApproval reason);
          deadline = now + approval_timeout b;
          i = cr_id (job_request job1);
          b1 = b\<lparr>bs_pending := fmupd i \<lparr>pj_job = job1, pj_deadline = deadline\<rparr> (bs_pending b)\<rparr>
      in case channel_send (sink_channel (job_sink job1)) (pending_message (job_sink job1) reason) b1 of
           (notified, b2) \<Rightarrow>
             if notified then b2
             else release i (b2\<lparr>bs_pending := fmdrop i (bs_pending b2)\<rparr>))"

definition process_job ::
    "'c backend \<Rightarrow> (('c, 'z) action_broker_scheme \<Rightarrow> ('c, 'z) action_broker_scheme) \<Rightarrow> nat \<Rightarrow> 'c job
       \<Rightarrow> ('c, 'z) action_broker_scheme \<Rightarrow> unit call \<times> ('c, 'z) action_broker_scheme" where
  "process_job be meanwhile now job b =
     (case fmlookup (bs_handles b) (cr_id (job_request job)) of
        None \<Rightarrow> (Returned (), release (cr_id (job_request job))
           (send_terminal (job_sink job)
              (TermDeniedWith (InvalidTransition ''session handle disappeared before start'')) b))
      | Some handle \<Rightarrow> (case classify_risk (job_request job) of
          AutoApprove \<Rightarrow> execute_and_release be meanwhile job handle (job_admission job) b
        | RequiresApproval reason \<Rightarrow>
            if job_admission job = Approved
            then execute_and_release be meanwhile job handle Approved b
            else (Returned (), park_job now reason job b)))"

definition process_job_guarded ::
    "'c backend \<Rightarrow> (('c, 'z) action_broker_scheme \<Rightarrow> ('c, 'z) action_broker_scheme) \<Rightarrow> nat \<Rightarrow> 'c job
       \<Rightarrow> ('c, 'z) action_broker_scheme \<Rightarrow> ('c, 'z) action_broker_scheme option" where
  "process_job_guarded be meanwhile now job b = (case process_job be meanwhile now job b of
     (Returned _, b1) \<Rightarrow> Some b1
   | (Panicked, b1) \<Rightarrow> Some (close_session (cr_id (job_request job)) job
        (TermDeniedWith (InvalidTransition ''worker panic while executing session''))
        (job_admission job) AuditFailed b1)
   | (NeverReturns, _) \<Rightarrow> None)"

text \<open>One turn of the worker; on an empty queue it waits.\<close>

definition worker_turn ::
    "'c backend \<Rightarrow> (('c, 'z) action_broker_scheme \<Rightarrow> ('c, 'z) action_broker_scheme) \<Rightarrow> nat
       \<Rightarrow> ('c, 'z) action_broker_scheme \<Rightarrow> ('c, 'z) action_broker_scheme option" where
  "worker_turn be meanwhile now b = (case ab_queue b of
     [] \<Rightarrow> Some b
   | job # rest \<Rightarrow> process_job_guarded be meanwhile now job (b\<lparr>ab_queue := rest\<rparr>))"

text \<open>The worker once every sender is gone: it serves what is queued and stops.\<close>

partial_function (option) worker_loop ::
    "'c backend \<Rightarrow> (('c, 'z) action_broker_scheme \<Rightarrow> ('c, 'z) action_broker_scheme) \<Rightarrow> nat
       \<Rightarrow> ('c, 'z) action_broker_scheme \<Rightarrow> ('c, 'z) action_broker_scheme option" where
  "worker_loop be meanwhile now b =
     (if ab_queue b = [] then Some (b\<lparr>ab_worker_up := False\<rparr>)
      else Option.bind (worker_turn be meanwhile now b) (worker_loop be meanwhile now))"

section \<open>The sweeper and the end of the broker\<close>

definition sweep_one :: "u64 \<Rightarrow> ('c, 'z) action_broker_scheme \<Rightarrow> ('c, 'z) action_broker_scheme" where
  "sweep_one i b = (case fmlookup (bs_pending b) i of
     None \<Rightarrow> b
   | Some pending \<Rightarrow> close_session i (pj_job pending) TermDenied TimedOut AuditDenied
        (b\<lparr>bs_pending := fmdrop i (bs_pending b)\<rparr>))"

text \<open>One round of the sweeper at the time \<open>now\<close>; \<open>order\<close> is the iteration order of the map.\<close>

definition expired :: "nat \<Rightarrow> ('c, 'z) action_broker_scheme \<Rightarrow> u64 \<Rightarrow> bool" where
  "expired now b i = (case fmlookup (bs_pending b) i of
     None \<Rightarrow> False | Some pending \<Rightarrow> pj_deadline pending \<le> now)"

definition sweep ::
    "u64 list \<Rightarrow> nat \<Rightarrow> ('c, 'z) action_broker_scheme \<Rightarrow> ('c, 'z) action_broker_scheme" where
  "sweep order now b = fold sweep_one (filter (expired now b) order) b"

text \<open>
  \<open>Drop\<close>: every registered handle is cancelled (\<open>order\<close> is again the map's), the queue is
  closed and the worker joined.
\<close>

definition begin_drop :: "u64 list \<Rightarrow> ('c, 'z) action_broker_scheme \<Rightarrow> ('c, 'z) action_broker_scheme" where
  "begin_drop order b = b\<lparr>ab_stopped := True,
     ab_signals := fold (\<lambda>i m. case fmlookup (bs_handles b) i of
         None \<Rightarrow> m | Some handle \<Rightarrow> cancel_handle_cancel m handle) order (ab_signals b)\<rparr>"

definition broker_drop ::
    "'c backend \<Rightarrow> (('c, 'z) action_broker_scheme \<Rightarrow> ('c, 'z) action_broker_scheme) \<Rightarrow> nat
       \<Rightarrow> u64 list \<Rightarrow> ('c, 'z) action_broker_scheme \<Rightarrow> ('c, 'z) action_broker_scheme option" where
  "broker_drop be meanwhile now order b = worker_loop be meanwhile now (begin_drop order b)"


section \<open>The channel interface\<close>

text \<open>
  What the operations rely on: a send reaches the channel it names and no other, when its
  receiver exists, and says so; it neither opens nor closes a channel.
\<close>

locale outbox =
  fixes sent :: "'s \<Rightarrow> nat \<Rightarrow> 'm list"
    and is_open :: "'s \<Rightarrow> nat \<Rightarrow> bool"
    and send :: "nat \<Rightarrow> 'm \<Rightarrow> 's \<Rightarrow> bool \<times> 's"
  assumes send_reports: "fst (send c m s) = is_open s c"
    and send_sent: "sent (snd (send c m s)) d = (if d = c \<and> is_open s c then sent s d @ [m] else sent s d)"
    and send_open: "is_open (snd (send c m s)) d = is_open s d"
begin

text \<open>A sequence of sends on one channel, their results ignored.\<close>

definition send_all :: "nat \<Rightarrow> 'm list \<Rightarrow> 's \<Rightarrow> 's" where
  "send_all c ms s = fold (\<lambda>m s. snd (send c m s)) ms s"

lemma send_all_open: "is_open (send_all c ms s) d = is_open s d"
  by (induction ms arbitrary: s) (simp_all add: send_all_def send_open)

lemma send_all_sent:
  "sent (send_all c ms s) d = (if d = c \<and> is_open s c then sent s d @ ms else sent s d)"
proof (induction ms arbitrary: s)
  case (Cons m ms)
  then show ?case by (simp add: send_all_def send_open send_sent)
qed (simp add: send_all_def)

lemma send_other: "d \<noteq> c \<Longrightarrow> sent (snd (send c m s)) d = sent s d"
  by (simp add: send_sent)

lemma sent_grows: "prefix (sent s d) (sent (snd (send c m s)) d)"
  by (simp add: send_sent)

end

interpretation chan: outbox ab_sent ab_open channel_send
  by unfold_locales (simp_all add: channel_send_def)

lemma send_events_send_all: "send_events c es b = chan.send_all c (map Event es) b"
  by (simp add: send_events_def chan.send_all_def fold_map comp_def)

section \<open>What each step leaves alone\<close>

lemma channel_send_frame [simp]:
  "bs_handles (snd (channel_send c m b)) = bs_handles b"
  "bs_pending (snd (channel_send c m b)) = bs_pending b"
  "bs_audit (snd (channel_send c m b)) = bs_audit b"
  "bs_approval_timeout (snd (channel_send c m b)) = bs_approval_timeout b"
  "ab_queue (snd (channel_send c m b)) = ab_queue b"
  "ab_worker_up (snd (channel_send c m b)) = ab_worker_up b"
  "ab_capacity (snd (channel_send c m b)) = ab_capacity b"
  "ab_stopped (snd (channel_send c m b)) = ab_stopped b"
  "ab_signals (snd (channel_send c m b)) = ab_signals b"
  "ab_open (snd (channel_send c m b)) = ab_open b"
  "ab_next_channel (snd (channel_send c m b)) = ab_next_channel b"
  "action_broker.more (snd (channel_send c m b)) = action_broker.more b"
  by (simp_all add: channel_send_def)

lemma send_events_frame [simp]:
  "bs_handles (send_events c es b) = bs_handles b"
  "bs_pending (send_events c es b) = bs_pending b"
  "bs_audit (send_events c es b) = bs_audit b"
  "ab_queue (send_events c es b) = ab_queue b"
  "ab_worker_up (send_events c es b) = ab_worker_up b"
  "ab_capacity (send_events c es b) = ab_capacity b"
  "ab_signals (send_events c es b) = ab_signals b"
  "ab_open (send_events c es b) = ab_open b"
  "ab_next_channel (send_events c es b) = ab_next_channel b"
  "action_broker.more (send_events c es b) = action_broker.more b"
  unfolding send_events_def by (induction es arbitrary: b) simp_all

lemma send_events_sent [simp]:
  "ab_sent (send_events c es b) d
     = (if d = c \<and> ab_open b c then ab_sent b d @ map Event es else ab_sent b d)"
  by (simp add: send_events_send_all chan.send_all_sent)

lemma audit_record_eq:
  "audit_record e b = b\<lparr>bs_audit := last_n DEFAULT_MAX_AUDIT_ENTRIES (bs_audit b @ [e])\<rparr>"
  by (simp add: audit_record_def last_n_def Let_def)

lemma close_session_frame [simp]:
  "bs_handles (close_session i job t d out b) = fmdrop i (bs_handles b)"
  "bs_pending (close_session i job t d out b) = bs_pending b"
  "bs_audit (close_session i job t d out b)
     = last_n DEFAULT_MAX_AUDIT_ENTRIES (bs_audit b @ [job_entry i job d out])"
  "bs_approval_timeout (close_session i job t d out b) = bs_approval_timeout b"
  "ab_queue (close_session i job t d out b) = ab_queue b"
  "ab_worker_up (close_session i job t d out b) = ab_worker_up b"
  "ab_capacity (close_session i job t d out b) = ab_capacity b"
  "ab_stopped (close_session i job t d out b) = ab_stopped b"
  "ab_signals (close_session i job t d out b) = ab_signals b"
  "ab_open (close_session i job t d out b) = ab_open b"
  "ab_next_channel (close_session i job t d out b) = ab_next_channel b"
  "action_broker.more (close_session i job t d out b) = action_broker.more b"
  by (simp_all add: close_session_def release_def audit_record_eq send_terminal_def)

lemma close_session_sent [simp]:
  "ab_sent (close_session i job t d out b) c =
     (if c = sink_channel (job_sink job) \<and> ab_open b c
      then ab_sent b c @ [terminal_message (job_sink job) t] else ab_sent b c)"
  by (simp add: close_session_def release_def audit_record_eq send_terminal_def chan.send_sent)

lemma release_frame [simp]:
  "bs_handles (release i b) = fmdrop i (bs_handles b)" "bs_pending (release i b) = bs_pending b"
  "bs_audit (release i b) = bs_audit b" "ab_queue (release i b) = ab_queue b"
  "ab_worker_up (release i b) = ab_worker_up b" "ab_capacity (release i b) = ab_capacity b"
  "ab_signals (release i b) = ab_signals b" "ab_sent (release i b) = ab_sent b"
  "ab_open (release i b) = ab_open b" "ab_next_channel (release i b) = ab_next_channel b"
  "action_broker.more (release i b) = action_broker.more b"
  by (simp_all add: release_def)

section \<open>Submitting\<close>

definition new_job :: "(nat \<Rightarrow> job_sink) \<Rightarrow> 'c \<Rightarrow> command_request \<Rightarrow> nat \<Rightarrow> 'c job" where
  "new_job sink component r c = \<lparr>job_request = r, job_component = component, job_sink = sink c,
     job_session = session_new (cr_id r) (cg_limits (cr_grant r)), job_admission = AutoApproved\<rparr>"

lemma channel_new_frame [simp]:
  "fst (channel_new b) = ab_next_channel b"
  "bs_handles (snd (channel_new b)) = bs_handles b" "bs_pending (snd (channel_new b)) = bs_pending b"
  "bs_audit (snd (channel_new b)) = bs_audit b" "ab_queue (snd (channel_new b)) = ab_queue b"
  "ab_worker_up (snd (channel_new b)) = ab_worker_up b"
  "ab_capacity (snd (channel_new b)) = ab_capacity b"
  "ab_signals (snd (channel_new b)) = ab_signals b"
  "ab_sent (snd (channel_new b)) = (ab_sent b)(ab_next_channel b := [])"
  "ab_open (snd (channel_new b)) = (ab_open b)(ab_next_channel b := True)"
  "ab_next_channel (snd (channel_new b)) = Suc (ab_next_channel b)"
  "action_broker.more (snd (channel_new b)) = action_broker.more b"
  by (simp_all add: channel_new_def)


text \<open>A submission in one equation: what is refused, and what an admitted one changes.\<close>

lemma submit_job_eq:
  "submit_job sink component r b =
     (if validate r \<noteq> Inr () then (b, Err (InvalidRequest (projl (validate r))))
      else if cr_mode r \<noteq> Wasi then (b, Err NotWasi)
      else if unat (ab_capacity b) \<le> fcard (fmdom (bs_handles b))
        then (snd (channel_new b), Err QueueFull)
      else (let b1 = (snd (channel_new b))\<lparr>
              ab_signals := snd (cancel_handle_new (ab_signals b)),
              bs_handles := fmupd (cr_id r) (fst (cancel_handle_new (ab_signals b))) (bs_handles b)\<rparr>
        in if ab_worker_up b
           then (b1\<lparr>ab_queue := ab_queue b @ [new_job sink component r (ab_next_channel b)]\<rparr>,
                 Ok (ab_next_channel b))
           else (release (cr_id r) b1, Err WorkerStopped)))"
  by (cases "validate r")
    (simp_all add: submit_job_def enqueue_def new_job_def Let_def case_prod_beta)


text \<open>What a submission promises its caller.\<close>

definition admission_spec ::
    "(nat \<Rightarrow> job_sink) \<Rightarrow> 'c \<Rightarrow> command_request \<Rightarrow> ('c, 'z) action_broker_scheme
       \<Rightarrow> ('c, 'z) action_broker_scheme \<Rightarrow> broker_error + nat \<Rightarrow> bool" where
  "admission_spec sink component r b b' res =
     (bs_pending b' = bs_pending b \<and> bs_audit b' = bs_audit b \<and>
      (case res of
        Inr c \<Rightarrow> validate r = Ok () \<and> cr_mode r = Wasi
          \<and> fcard (fmdom (bs_handles b)) < unat (ab_capacity b)
          \<and> c = ab_next_channel b \<and> ab_open b' c \<and> ab_sent b' c = []
          \<and> ab_queue b' = ab_queue b @ [new_job sink component r c]
          \<and> fmdom (bs_handles b') = finsert (cr_id r) (fmdom (bs_handles b))
          \<and> \<not> session_cancelled (cr_id r) b'
      | Inl e \<Rightarrow> ab_queue b' = ab_queue b
          \<and> (case e of
               InvalidRequest e' \<Rightarrow> validate r = Err e' \<and> b' = b
             | NotWasi \<Rightarrow> cr_mode r = Native \<and> b' = b
             | QueueFull \<Rightarrow> unat (ab_capacity b) \<le> fcard (fmdom (bs_handles b))
                 \<and> bs_handles b' = bs_handles b
             | WorkerStopped \<Rightarrow> \<not> ab_worker_up b \<and> cr_id r |\<notin>| fmdom (bs_handles b')
             | _ \<Rightarrow> False)))"


lemma submit_job_spec:
  "admission_spec sink component r b (fst (submit_job sink component r b)) (snd (submit_job sink component r b))"
proof -
  have fresh: "\<not> is_cancelled (snd (cancel_handle_new m)) (fst (cancel_handle_new m))" for m
    using signal.fresh_lowered [of m] by (metis prod.collapse)
  show ?thesis
    by (cases "validate r"; cases "cr_mode r")
      (auto simp: submit_job_eq admission_spec_def Let_def session_cancelled_def fresh)
qed

section \<open>Lemmas on sweeping\<close>

lemma sweep_one_frame [simp]:
  "ab_queue (sweep_one i b) = ab_queue b" "ab_open (sweep_one i b) = ab_open b"
  "ab_signals (sweep_one i b) = ab_signals b" "ab_worker_up (sweep_one i b) = ab_worker_up b"
  "ab_capacity (sweep_one i b) = ab_capacity b" "ab_next_channel (sweep_one i b) = ab_next_channel b"
  "action_broker.more (sweep_one i b) = action_broker.more b"
  by (simp_all add: sweep_one_def split: option.splits)

lemma sweep_one_maps:
  "fmlookup (bs_pending (sweep_one i b)) j = (if j = i then None else fmlookup (bs_pending b) j)"
  "i |\<in>| fmdom (bs_pending b) \<Longrightarrow>
     fmlookup (bs_handles (sweep_one i b)) j = (if j = i then None else fmlookup (bs_handles b) j)"
  by (auto simp: sweep_one_def split: option.splits dest: fmdom_notI)

definition expiry_entry :: "('c, 'z) action_broker_scheme \<Rightarrow> u64 \<Rightarrow> audit_entry" where
  "expiry_entry b i =
     job_entry i (pj_job (the (fmlookup (bs_pending b) i))) TimedOut AuditDenied"

lemma sweep_one_audit:
  "i |\<in>| fmdom (bs_pending b) \<Longrightarrow>
     bs_audit (sweep_one i b) = last_n DEFAULT_MAX_AUDIT_ENTRIES (bs_audit b @ [expiry_entry b i])"
  by (auto simp: sweep_one_def expiry_entry_def split: option.splits dest: fmdom_notI)

lemma last_n_append: "last_n n (last_n n xs @ ys) = last_n n (xs @ ys)"
proof (induction ys rule: rev_induct)
  case (snoc y ys)
  have "last_n n (last_n n xs @ ys @ [y]) = last_n n (last_n n (last_n n xs @ ys) @ [y])"
    using last_n_snoc [of n "last_n n xs @ ys" y] by simp
  also have "\<dots> = last_n n (last_n n (xs @ ys) @ [y])" using snoc by simp
  finally show ?case using last_n_snoc [of n "xs @ ys" y] by simp
next
  case Nil
  then show ?case using last_n_all [of "last_n n xs" n] by simp
qed

text \<open>A list of distinct parked sessions is closed one by one.\<close>

lemma sweep_fold:
  assumes "distinct ids" "\<forall>i \<in> set ids. i |\<in>| fmdom (bs_pending b)"
    "length (bs_audit b) \<le> DEFAULT_MAX_AUDIT_ENTRIES"
  shows "fmlookup (bs_pending (fold sweep_one ids b)) j
         = (if j \<in> set ids then None else fmlookup (bs_pending b) j)
     \<and> fmlookup (bs_handles (fold sweep_one ids b)) j
         = (if j \<in> set ids then None else fmlookup (bs_handles b) j)
     \<and> bs_audit (fold sweep_one ids b)
         = last_n DEFAULT_MAX_AUDIT_ENTRIES (bs_audit b @ map (expiry_entry b) ids)
     \<and> ab_queue (fold sweep_one ids b) = ab_queue b"
  using assms
proof (induction ids arbitrary: b)
  case (Cons i ids)
  have i: "i |\<in>| fmdom (bs_pending b)" using Cons.prems(2) by simp
  note one = sweep_one_maps(1) [of i b] sweep_one_maps(2) [OF i] sweep_one_audit [OF i]
  have dom: "\<forall>k \<in> set ids. k |\<in>| fmdom (bs_pending (sweep_one i b))"
  proof
    fix k assume k: "k \<in> set ids"
    then have "k \<noteq> i" "k |\<in>| fmdom (bs_pending b)" using Cons.prems by auto
    then show "k |\<in>| fmdom (bs_pending (sweep_one i b))"
      using one(1) [of k] by (metis fmdom_notI fmlookup_dom_iff)
  qed
  have entries: "map (expiry_entry (sweep_one i b)) ids = map (expiry_entry b) ids"
    using Cons.prems(1) by (auto simp: expiry_entry_def one(1))
  have "length (bs_audit (sweep_one i b)) \<le> DEFAULT_MAX_AUDIT_ENTRIES" by (simp add: one)
  note IH = Cons.IH [OF _ dom this, unfolded entries]
  show ?case using IH Cons.prems(1) last_n_append [of DEFAULT_MAX_AUDIT_ENTRIES
        "bs_audit b @ [expiry_entry b i]" "map (expiry_entry b) ids"]
    by (auto simp: one)
next
  case Nil
  then show ?case by (simp add: last_n_all)
qed


section \<open>Lemmas on executing\<close>

text \<open>The audit outcome a terminal message announces.\<close>

fun terminal_audit :: "message \<Rightarrow> audit_outcome option" where
  "terminal_audit (Outcome (OutCompleted output)) = Some (AuditCompleted (wo_exit_code output))"
| "terminal_audit (Outcome (OutPendingApproval _)) = None"
| "terminal_audit (Outcome OutCancelled) = Some AuditCancelled"
| "terminal_audit (Outcome (OutDenied _)) = Some AuditDenied"
| "terminal_audit (Outcome (OutFailed _)) = Some AuditFailed"
| "terminal_audit (Event (Exited (Some code))) = Some (AuditCompleted code)"
| "terminal_audit (Event Cancelled) = Some AuditCancelled"
| "terminal_audit (Event Denied) = Some AuditDenied"
| "terminal_audit (Event Unsupported) = Some AuditFailed"
| "terminal_audit (Event _) = None"

text \<open>Whether an admitted job gets to its guest, and the broker at the end of the guest's run.\<close>

definition starts :: "'c job \<Rightarrow> cancel_handle \<Rightarrow> ('c, 'z) action_broker_scheme \<Rightarrow> bool" where
  "starts job handle b =
     (\<not> is_cancelled (ab_signals b) handle \<and> is_ok (snd (accept (job_session job) Started)))"

definition after_run ::
    "(('c, 'z) action_broker_scheme \<Rightarrow> ('c, 'z) action_broker_scheme) \<Rightarrow> 'c job \<Rightarrow> cancel_handle
       \<Rightarrow> ('c, 'z) action_broker_scheme \<Rightarrow> ('c, 'z) action_broker_scheme" where
  "after_run meanwhile job handle b =
     (if starts job handle b
      then meanwhile (case job_sink job of SinkOutcome _ \<Rightarrow> b | SinkEvents c \<Rightarrow> send_events c [Started] b)
      else b)"

text \<open>What is sent before the terminal message: nothing to a caller that only wants the outcome.\<close>

definition interim :: "'c job \<Rightarrow> message list \<Rightarrow> bool" where
  "interim job ms = (case job_sink job of
     SinkOutcome _ \<Rightarrow> ms = []
   | SinkEvents _ \<Rightarrow> (\<exists>es. ms = map Event es \<and> list_all output_chunk es))"

definition of_sink :: "job_sink \<Rightarrow> message \<Rightarrow> bool" where
  "of_sink sink m = (case (sink, m) of
     (SinkOutcome _, Outcome _) \<Rightarrow> True | (SinkEvents _, Event _) \<Rightarrow> True | _ \<Rightarrow> False)"

definition execution ::
    "'c backend \<Rightarrow> (('c, 'z) action_broker_scheme \<Rightarrow> ('c, 'z) action_broker_scheme) \<Rightarrow> 'c job
       \<Rightarrow> cancel_handle \<Rightarrow> ('c, 'z) action_broker_scheme \<Rightarrow> audit_outcome call
       \<Rightarrow> ('c, 'z) action_broker_scheme \<Rightarrow> bool" where
  "execution be meanwhile job handle b call b1 =
     (\<exists>ms. b1 = chan.send_all (sink_channel (job_sink job)) ms (after_run meanwhile job handle b)
        \<and> (case call of
             Returned audit \<Rightarrow> (\<exists>pre m. ms = pre @ [m] \<and> terminal_audit m = Some audit
                 \<and> of_sink (job_sink job) m \<and> interim job pre \<and> (\<not> starts job handle b \<longrightarrow> pre = []))
           | Panicked \<Rightarrow> starts job handle b \<and> (\<exists>es. be_panics be job = Some es
                 \<and> ms = (case job_sink job of SinkOutcome _ \<Rightarrow> [] | SinkEvents _ \<Rightarrow> map Event es))
           | NeverReturns \<Rightarrow> starts job handle b \<and> ms = []))"

lemma executionE:
  assumes "execution be meanwhile job handle b (Returned audit) b1"
  obtains pre m where
    "b1 = chan.send_all (sink_channel (job_sink job)) (pre @ [m]) (after_run meanwhile job handle b)"
    "terminal_audit m = Some audit" "of_sink (job_sink job) m" "interim job pre"
    "\<not> starts job handle b \<Longrightarrow> pre = []"
  using assms unfolding execution_def call.simps by blast

lemma send_all_simps [simp]:
  "chan.send_all c [] b = b"
  "chan.send_all c (m # ms) b = chan.send_all c ms (snd (channel_send c m b))"
  by (simp_all add: chan.send_all_def)

lemma send_all_append [simp]:
  "chan.send_all c (ms @ ns) b = chan.send_all c ns (chan.send_all c ms b)"
  by (simp add: chan.send_all_def)

lemma capturing_returned:
  assumes "job_sink job = SinkOutcome c" "execute be meanwhile job handle b = (call, job1, b1)"
    "execute_capturing be meanwhile job handle b = (Returned outcome, j, after_run meanwhile job handle b)"
    "\<forall>r. outcome \<noteq> OutPendingApproval r"
  shows "execution be meanwhile job handle b call b1"
  unfolding execution_def using assms
  by (cases outcome; intro exI [of _ "[Outcome outcome]"])
    (auto simp: execute_def audit_of_def sink_channel_def of_sink_def interim_def)

lemma capturing_execution:
  assumes "job_sink job = SinkOutcome c" "execute be meanwhile job handle b = (call, job1, b1)"
  shows "execution be meanwhile job handle b call b1"
proof (cases "starts job handle b")
  case False
  then have "\<exists>j. execute_capturing be meanwhile job handle b = (Returned OutCancelled, j, b)
     \<or> execute_capturing be meanwhile job handle b =
          (Returned (OutDenied (InvalidTransition ''session cannot start'')), j, b)"
    by (cases rule: accept_cases [of "job_session job" Started])
      (auto simp: execute_capturing_def starts_def is_ok_def)
  then show ?thesis using False capturing_returned [OF assms] by (auto simp: after_run_def)
next
  case True
  then obtain s where s: "accept (job_session job) Started = (s, Inr ())"
    "\<not> is_cancelled (ab_signals b) handle"
    by (cases rule: accept_cases [of "job_session job" Started]) (auto simp: starts_def is_ok_def)
  show ?thesis
  proof (cases "be_panics be job")
    case (Some es)
    then show ?thesis using assms s True
      by (auto simp: execution_def after_run_def execute_def execute_capturing_def Let_def)
  next
    case None
    obtain outcome where "execute_capturing be meanwhile job handle b = (Returned outcome, job1, meanwhile b)"
      "\<forall>r. outcome \<noteq> OutPendingApproval r"
      using assms s None
      by (auto simp: execute_def execute_capturing_def Let_def audit_of_def split: sum.splits runtime_error.splits)
    then show ?thesis using capturing_returned [OF assms] True assms(1) by (simp add: after_run_def)
  qed
qed


lemma send_events_messages: "send_events c es b = chan.send_all c (map Event es) b"
  by (rule send_events_send_all)

text \<open>The event that ends a streaming run.\<close>

definition ending_event :: "runtime_error + wasi_output \<Rightarrow> session_event" where
  "ending_event result = (case result of
     Inr output \<Rightarrow> Exited (Some (wo_exit_code output))
   | Inl RtCancelled \<Rightarrow> Cancelled
   | Inl RtWrongMode \<Rightarrow> Denied
   | Inl _ \<Rightarrow> Unsupported)"

lemma streaming_execution:
  assumes "job_sink job = SinkEvents c" "execute be meanwhile job handle b = (call, job1, b1)"
  shows "execution be meanwhile job handle b call b1"
proof -
  have ex: "execute_streaming be meanwhile job handle b = (call, job1, b1)"
    using assms by (simp add: execute_def)
  note defs = execution_def after_run_def sink_channel_def of_sink_def interim_def assms(1)
  show ?thesis
  proof (cases "starts job handle b")
    case False
    then consider "is_cancelled (ab_signals b) handle"
      | err where "\<not> is_cancelled (ab_signals b) handle"
          "accept (job_session job) Started = (job_session job, Inl err)"
      by (cases rule: accept_cases [of "job_session job" Started]) (auto simp: starts_def is_ok_def)
    then have "(call = Returned AuditCancelled \<and> b1 = send_events c [Cancelled] b)
        \<or> (call = Returned AuditDenied \<and> b1 = send_events c [Denied] b)"
      using ex assms(1) by cases (simp_all add: execute_streaming_def)
    moreover have "terminal_audit (Event Cancelled) = Some AuditCancelled"
      "terminal_audit (Event Denied) = Some AuditDenied" by simp_all
    ultimately obtain a e where "call = Returned a" "b1 = send_events c [e] b" "terminal_audit (Event e) = Some a"
      by blast
    then show ?thesis using False unfolding defs
      by (intro exI [of _ "[Event e]"]) (simp add: send_events_messages)
  next
    case True
    then obtain s where s: "accept (job_session job) Started = (s, Inr ())"
      "\<not> is_cancelled (ab_signals b) handle"
      by (cases rule: accept_cases [of "job_session job" Started]) (auto simp: starts_def is_ok_def)
    let ?m = "meanwhile (send_events c [Started] b)"
    have m: "after_run meanwhile job handle b = ?m" using True assms(1) by (simp add: after_run_def)
    show ?thesis
    proof (cases "be_panics be job")
      case (Some es)
      then have "call = Panicked" "b1 = send_events c es ?m"
        using ex s assms(1) by (auto simp: execute_streaming_def Let_def)
      then show ?thesis using True Some m unfolding execution_def assms(1)
        by (intro exI [of _ "map Event es"]) (simp add: send_events_messages sink_channel_def)
    next
      case None
      let ?run = "run_wasi_events (be_host be)
            (\<lambda>comp store. case be_stream_guest be comp store of (res, actions) \<Rightarrow> (res, actions, ab_signals ?m))
            (job_component job) (job_request job) handle []"
      show ?thesis
      proof (cases ?run)
        case run: None
        then have "call = NeverReturns" "b1 = ?m"
          using ex s assms(1) None by (simp_all add: execute_streaming_def Let_def)
        then show ?thesis using True m unfolding execution_def by (intro exI [of _ "[]"]) simp
      next
        case run: (Some res_es)
        obtain result es where res: "res_es = (result, es)" by (cases res_es)
        have chunks: "list_all output_chunk es"
          using run_wasi_events_chunks [OF run [unfolded res]] by auto
        have "\<exists>a. call = Returned a \<and> b1 = send_events c [ending_event result] (send_events c es ?m)
            \<and> terminal_audit (Event (ending_event result)) = Some a"
          using ex s assms(1) None run unfolding res
          by (auto simp: execute_streaming_def Let_def ending_event_def split: sum.splits runtime_error.splits)
        then obtain a e where "call = Returned a" "b1 = send_events c [e] (send_events c es ?m)"
          "terminal_audit (Event e) = Some a" by blast
        then show ?thesis using True m chunks unfolding execution_def interim_def of_sink_def assms(1)
          by (intro exI [of _ "map Event (es @ [e])"]) (auto simp: send_events_messages sink_channel_def)
      qed
    qed
  qed
qed

lemma execute_execution:
  "execute be meanwhile job handle b = (call, job1, b1) \<Longrightarrow> execution be meanwhile job handle b call b1"
  by (cases "job_sink job") (blast intro: capturing_execution streaming_execution)+

text \<open>The job keeps everything but its session.\<close>

lemma execute_job:
  assumes "execute be meanwhile job handle b = (call, job1, b1)"
  shows "job_request job1 = job_request job" "job_sink job1 = job_sink job"
proof -
  have "execute_capturing be meanwhile job handle b = (call', j, b') \<Longrightarrow>
      job_request j = job_request job \<and> job_sink j = job_sink job" for call' j b'
    by (auto simp: execute_capturing_def Let_def split: if_splits prod.splits sum.splits runtime_error.splits)
  moreover have "execute_streaming be meanwhile job handle b = (call', j, b') \<Longrightarrow>
      job_request j = job_request job \<and> job_sink j = job_sink job" for call' j b'
    by (auto simp: execute_streaming_def Let_def split: job_sink.splits if_splits prod.splits sum.splits
        runtime_error.splits option.splits)
  moreover have "(\<exists>call' b'. execute_capturing be meanwhile job handle b = (call', job1, b'))
      \<or> (\<exists>call' b'. execute_streaming be meanwhile job handle b = (call', job1, b'))"
    using assms unfolding execute_def
    by (cases "execute_capturing be meanwhile job handle b") (auto split: job_sink.splits call.splits)
  ultimately show "job_request job1 = job_request job" "job_sink job1 = job_sink job" by blast+
qed


lemma execute_and_release_Returned:
  assumes "execute_and_release be meanwhile job handle d b = (Returned u, b')"
  obtains audit job1 b1 where "execute be meanwhile job handle b = (Returned audit, job1, b1)"
    "b' = release (cr_id (job_request job))
       (audit_record (job_entry (cr_id (job_request job)) job d audit) b1)"
proof -
  obtain call job1 b1 where ex: "execute be meanwhile job handle b = (call, job1, b1)"
    by (metis prod.exhaust)
  moreover have "job_entry i job1 d audit = job_entry i job d audit" for i audit
    using execute_job(1) [OF ex] by (simp add: job_entry_def)
  ultimately show ?thesis using assms that execute_job(1) [OF ex]
    by (cases call) (simp_all add: execute_and_release_def Let_def)
qed

lemma process_job_admitted:
  assumes "fmlookup (bs_handles b) (cr_id (job_request job)) = Some handle"
    and "classify_risk (job_request job) = AutoApprove \<or> job_admission job = Approved"
  shows "process_job be meanwhile now job b
     = execute_and_release be meanwhile job handle (job_admission job) b"
  using assms by (auto simp: process_job_def split: risk.splits)

text \<open>An admitted job whose handle is cancelled is closed without a run.\<close>

lemma cancelled_job_closes:
  assumes "fmlookup (bs_handles b) (cr_id (job_request job)) = Some handle"
    and "is_cancelled (ab_signals b) handle"
    and "classify_risk (job_request job) = AutoApprove \<or> job_admission job = Approved"
  shows "process_job_guarded be meanwhile now job b = Some (close_session (cr_id (job_request job)) job
     TermCancelled (job_admission job) AuditCancelled b)"
  using assms(2)
  by (cases "job_sink job")
    (simp_all add: process_job_guarded_def process_job_admitted [OF assms(1,3)] execute_and_release_def
      execute_def execute_capturing_def execute_streaming_def audit_of_def Let_def job_entry_def
      close_session_def send_terminal_def terminal_message_def sink_channel_def send_events_def)

section \<open>Lemmas on dropping\<close>

definition all_cancelled :: "('c, 'z) action_broker_scheme \<Rightarrow> bool" where
  "all_cancelled b = (\<forall>i handle. fmlookup (bs_handles b) i = Some handle
     \<longrightarrow> is_cancelled (ab_signals b) handle)"

lemma cancelled_turn:
  assumes "all_cancelled b"
  obtains b' where "\<forall>be meanwhile. process_job_guarded be meanwhile now job b = Some b'"
    "ab_queue b' = ab_queue b" "all_cancelled b'"
proof (cases "fmlookup (bs_handles b) (cr_id (job_request job))")
  case None
  then show ?thesis using assms that
    by (simp add: process_job_guarded_def process_job_def all_cancelled_def send_terminal_def)
next
  case (Some handle)
  show ?thesis
  proof (cases "classify_risk (job_request job) = AutoApprove \<or> job_admission job = Approved")
    case True
    have "is_cancelled (ab_signals b) handle" using assms Some by (auto simp: all_cancelled_def)
    note closes = cancelled_job_closes [OF Some this True]
    show ?thesis
    proof (rule that)
      show "\<forall>be meanwhile. process_job_guarded be meanwhile now job b
          = Some (close_session (cr_id (job_request job)) job TermCancelled (job_admission job) AuditCancelled b)"
        by (intro allI closes)
    qed (use assms in \<open>auto simp: all_cancelled_def split: if_splits\<close>)
  next
    case False
    then obtain reason where "classify_risk (job_request job) = RequiresApproval reason"
      "job_admission job \<noteq> Approved"
      by (cases "classify_risk (job_request job)") auto
    then have "\<forall>be meanwhile. process_job_guarded be meanwhile now job b = Some (park_job now reason job b)"
      using Some by (simp add: process_job_guarded_def process_job_def)
    moreover have "ab_queue (park_job now reason job b) = ab_queue b" "all_cancelled (park_job now reason job b)"
      using assms by (auto simp: park_job_def Let_def all_cancelled_def channel_send_def)
    ultimately show ?thesis using that by blast
  qed
qed

lemma cancelled_loop:
  "all_cancelled b \<Longrightarrow> \<exists>b'. (\<forall>be meanwhile. worker_loop be meanwhile now b = Some b')
     \<and> ab_queue b' = [] \<and> \<not> ab_worker_up b'"
proof (induction "ab_queue b" arbitrary: b)
  case Nil
  then show ?case by (simp add: worker_loop.simps)
next
  case (Cons job rest)
  have "all_cancelled (b\<lparr>ab_queue := rest\<rparr>)" using Cons.prems by (auto simp: all_cancelled_def)
  then obtain c where c: "\<forall>be meanwhile. process_job_guarded be meanwhile now job (b\<lparr>ab_queue := rest\<rparr>) = Some c"
    "ab_queue c = rest" "all_cancelled c"
    by (rule cancelled_turn [where now = now and job = job]) simp
  have "worker_loop be meanwhile now b = worker_loop be meanwhile now c" for be meanwhile
    using c(1) Cons.hyps(2) by (subst worker_loop.simps) (simp add: worker_turn_def flip: Cons.hyps(2))
  then show ?case using Cons.hyps(1) [of c] c(2,3) by simp
qed

lemma begin_drop_cancels:
  assumes "fset (fmdom (bs_handles b)) \<subseteq> set order"
  shows "all_cancelled (begin_drop order b)"
proof -
  let ?f = "\<lambda>i m. case fmlookup (bs_handles b) i of None \<Rightarrow> m | Some h \<Rightarrow> cancel_handle_cancel m h"
  have raised: "is_cancelled (fold ?f ids m) h" if "is_cancelled m h \<or> (\<exists>i \<in> set ids. fmlookup (bs_handles b) i = Some h)"
    for ids m h
    using that
  proof (induction ids arbitrary: m)
    case (Cons i ids)
    have "is_cancelled (?f i m) h" if "is_cancelled m h \<or> fmlookup (bs_handles b) i = Some h"
      using that by (auto simp: signal.raise_raises split: option.splits)
    then show ?case using Cons by auto
  qed simp
  have "is_cancelled (fold ?f order (ab_signals b)) h" if "fmlookup (bs_handles b) i = Some h" for i h
    using raised [of "ab_signals b" h order] that assms by (meson fmdomI subsetD)
  then show ?thesis by (auto simp: all_cancelled_def begin_drop_def)
qed

section \<open>A small broker\<close>

text \<open>A broker with one risky session parked under an id, for concrete instances.\<close>

definition example_job :: "unit job" where
  "example_job = \<lparr>job_request = example_request\<lparr>cr_grant := example_grant\<lparr>cg_native_execution := True\<rparr>\<rparr>,
     job_component = (), job_sink = SinkOutcome 0,
     job_session = session_new (cr_id example_request) DEFAULT_LIMITS, job_admission = AutoApproved\<rparr>"

definition example_broker :: "unit action_broker" where
  "example_broker = \<lparr>bs_handles = fmupd 7 (CancelHandle 0) fmempty,
     bs_pending = fmupd 7 \<lparr>pj_job = example_job, pj_deadline = 100\<rparr> fmempty, bs_audit = [],
     bs_approval_timeout = 100, ab_queue = [], ab_worker_up = True, ab_capacity = 2,
     ab_stopped = False, ab_signals = cancel_store_init\<lparr>cs_next := 1\<rparr>,
     ab_sent = (\<lambda>_. []), ab_open = (\<lambda>_. True), ab_next_channel = 1\<rparr>"

definition example_backend :: "unit backend" where
  "example_backend = \<lparr>be_host = example_host, be_guest = (\<lambda>_ _. (GuestOk, [7], [])),
     be_stream_guest = (\<lambda>_ _. (GuestOk, [])), be_panics = (\<lambda>_. None)\<rparr>"

text \<open>The same session with its read-only grant is admitted without approval.\<close>

definition example_auto_job :: "unit job" where
  "example_auto_job = example_job\<lparr>job_request := example_request\<rparr>"

lemma example_auto:
  "classify_risk (job_request example_auto_job) = AutoApprove"
  "fmlookup (bs_handles example_broker) (cr_id (job_request example_auto_job)) = Some (CancelHandle 0)"
  by (simp_all add: example_auto_job_def example_broker_def example_request_def example_grant_def
      classify_risk_def allows_native_execution_def grant_empty_def)

lemma example_starts:
  "accept (job_session example_auto_job) Started = (with_lifecycle (job_session example_auto_job) Running, Inr ())"
  "\<not> is_cancelled (ab_signals example_broker) (CancelHandle 0)"
  by (simp_all add: example_auto_job_def example_job_def accept_def session_new_def example_broker_def
      is_cancelled_def cancel_store_init_def)

section \<open>Properties\<close>

text \<open>
  Submitting, in either mode, admits exactly the valid WASI requests while there is room
  and a worker: the job joins the end of the queue, unapproved, with a fresh handle and an
  empty open channel.  Every refusal names its reason, leaves queue, parked sessions and
  audit trail alone, and registers nothing.
\<close>

theorem submit_admission:
  "admission_spec SinkOutcome component r b (fst (submit component r b)) (snd (submit component r b))
   \<and> admission_spec SinkEvents component r b
       (fst (submit_streaming component r b)) (snd (submit_streaming component r b))"
  unfolding submit_def submit_streaming_def by (intro conjI submit_job_spec)

text \<open>
  C21. The worker never runs a risky session nobody approved: it parks it under its deadline and
  asks, and what it does is the same whatever the guest, the host and the other threads
  would do; a session whose caller is gone is dropped instead.
\<close>

theorem risky_session_is_parked:
  assumes "fmlookup (bs_handles b) (cr_id (job_request job)) = Some handle"
    and "classify_risk (job_request job) = RequiresApproval reason" and "job_admission job \<noteq> Approved"
  shows "\<exists>b'. process_job_guarded be meanwhile now job b = Some b'
    \<and> (\<forall>be' meanwhile'. process_job_guarded be' meanwhile' now job b = Some b')
    \<and> ab_queue b' = ab_queue b \<and> audit_trail b' = audit_trail b
    \<and> (if ab_open b (sink_channel (job_sink job))
       then fmlookup (bs_pending b') (cr_id (job_request job)) =
              Some \<lparr>pj_job = note_event job (PendingApproval reason),
                    pj_deadline = now + bs_approval_timeout b\<rparr>
         \<and> bs_handles b' = bs_handles b
         \<and> ab_sent b' (sink_channel (job_sink job)) =
             ab_sent b (sink_channel (job_sink job)) @ [pending_message (job_sink job) reason]
       else cr_id (job_request job) |\<notin>| fmdom (bs_pending b')
         \<and> cr_id (job_request job) |\<notin>| fmdom (bs_handles b') \<and> ab_sent b' = ab_sent b)"
  using assms
  by (simp add: process_job_guarded_def process_job_def park_job_def channel_send_def audit_trail_def Let_def)

theorem risky_session_is_parked_witness:
  "process_job_guarded example_backend id 5 example_job (example_broker\<lparr>bs_pending := fmempty\<rparr>) \<noteq> None"
proof -
  have "fmlookup (bs_handles (example_broker\<lparr>bs_pending := fmempty\<rparr>)) (cr_id (job_request example_job)) = Some (CancelHandle 0)"
    "classify_risk (job_request example_job) = RequiresApproval NativeExecution"
    "job_admission example_job \<noteq> Approved"
    by (simp_all add: example_broker_def example_job_def example_request_def classify_risk_def
        allows_native_execution_def)
  from risky_session_is_parked [OF this, of example_backend id 5] show ?thesis by auto
qed

text \<open>
  C22. An admitted session is reported once and truthfully: when its run ends, the last message
  on its channel and the last entry of the audit trail announce the same outcome, the entry
  names the session's actor, program and admission, and the handle is released.
\<close>

theorem executed_session_reports:
  assumes "fmlookup (bs_handles b) (cr_id (job_request job)) = Some handle"
    and "classify_risk (job_request job) = AutoApprove \<or> job_admission job = Approved"
    and "process_job be meanwhile now job b = (Returned u, b')"
    and "ab_open b' (sink_channel (job_sink job))"
  shows "\<exists>audit. terminal_audit (last (ab_sent b' (sink_channel (job_sink job)))) = Some audit
    \<and> last (audit_trail b') = \<lparr>ae_id = cr_id (job_request job), ae_actor = cr_actor (job_request job),
         ae_program = cr_program (job_request job), ae_decision = job_admission job, ae_outcome = audit\<rparr>
    \<and> cr_id (job_request job) |\<notin>| fmdom (bs_handles b')"
proof -
  let ?c = "sink_channel (job_sink job)"
  obtain audit job1 b1 where ex: "execute be meanwhile job handle b = (Returned audit, job1, b1)"
    "b' = release (cr_id (job_request job))
       (audit_record (job_entry (cr_id (job_request job)) job (job_admission job) audit) b1)"
    using assms(3) unfolding process_job_admitted [OF assms(1,2)]
    by (rule execute_and_release_Returned)
  obtain pre m base where m: "b1 = chan.send_all ?c (pre @ [m]) base" "terminal_audit m = Some audit"
    using execute_execution [OF ex(1)] by (blast elim: executionE)
  have "ab_open b1 ?c" using assms(4) ex(2) by (simp add: audit_record_eq)
  then have "last (ab_sent b1 ?c) = m" unfolding m(1) by (simp add: chan.send_all_open chan.send_all_sent chan.send_sent)
  moreover have "bs_audit b' \<noteq> []" "last (bs_audit b') = job_entry (cr_id (job_request job)) job (job_admission job) audit"
    using ex(2) by (simp_all add: audit_record_eq last_n_def DEFAULT_MAX_AUDIT_ENTRIES_def)
  ultimately show ?thesis using m(2) unfolding ex(2)
    by (simp add: audit_record_eq audit_trail_def job_entry_def)
qed

theorem executed_session_reports_witness:
  "\<exists>b' audit. process_job example_backend id 0 example_auto_job example_broker = (Returned (), b')
     \<and> terminal_audit (last (ab_sent b' 0)) = Some audit \<and> ae_outcome (last (audit_trail b')) = audit"
proof -
  obtain sc where sc: "build_store example_host example_request (h_env example_host) = Ok sc"
    using example_store_built by blast
  have sink: "job_sink example_auto_job = SinkOutcome 0" "job_request example_auto_job = example_request"
    by (simp_all add: example_auto_job_def example_job_def)
  have "\<exists>out j. execute_capturing example_backend id example_auto_job (CancelHandle 0) example_broker
      = (Returned (OutCompleted out), j, example_broker)"
    using sc example_starts sink
    by (simp add: execute_capturing_def example_backend_def run_wasi_cancellable_def run_wasi_inner_def
        example_host_def Let_def)
  then obtain b' where run: "process_job example_backend id 0 example_auto_job example_broker = (Returned (), b')"
    "ab_open b' 0"
    using example_auto sink
    by (auto simp: process_job_def execute_and_release_def execute_def audit_of_def audit_record_eq
        Let_def) (simp add: example_broker_def)
  have "sink_channel (job_sink example_auto_job) = 0" by (simp add: sink sink_channel_def)
  then show ?thesis
    using executed_session_reports [OF example_auto(2) disjI1 [OF example_auto(1)] run(1)] run by auto
qed




text \<open>
  A cancellation that comes before a session's turn prevents its run: an admitted session
  whose handle is cancelled is reported and recorded as cancelled without touching the
  guest, the host or the other threads' work.
\<close>

theorem cancelled_session_never_runs:
  assumes "fmlookup (bs_handles b) (cr_id (job_request job)) = Some handle"
    and "is_cancelled (ab_signals b) handle"
    and "classify_risk (job_request job) = AutoApprove \<or> job_admission job = Approved"
  shows "\<exists>b'. process_job_guarded be meanwhile now job b = Some b'
    \<and> (\<forall>be' meanwhile'. process_job_guarded be' meanwhile' now job b = Some b')
    \<and> ae_outcome (last (audit_trail b')) = AuditCancelled
    \<and> map terminal_audit (ab_sent b' (sink_channel (job_sink job)))
       = map terminal_audit (ab_sent b (sink_channel (job_sink job)))
         @ (if ab_open b (sink_channel (job_sink job)) then [Some AuditCancelled] else [])
    \<and> cr_id (job_request job) |\<notin>| fmdom (bs_handles b')"
  using cancelled_job_closes [OF assms]
  by (cases "job_sink job")
    (simp_all add: audit_trail_def last_n_def DEFAULT_MAX_AUDIT_ENTRIES_def job_entry_def terminal_message_def)

theorem cancelled_session_never_runs_witness:
  "\<exists>b'. process_job_guarded example_backend id 0 example_auto_job (fst (cancel 7
       (example_broker\<lparr>bs_pending := fmempty\<rparr>))) = Some b'
     \<and> ae_outcome (last (audit_trail b')) = AuditCancelled"
proof -
  let ?b = "fst (cancel 7 (example_broker\<lparr>bs_pending := fmempty\<rparr>))"
  have "fmlookup (bs_handles ?b) (cr_id (job_request example_auto_job)) = Some (CancelHandle 0)"
    "is_cancelled (ab_signals ?b) (CancelHandle 0)"
    by (simp_all add: cancel_def example_broker_def example_auto_job_def example_request_def
        signal.raise_raises)
  from cancelled_session_never_runs [OF this disjI1 [OF example_auto(1)], of example_backend id 0]
  show ?thesis by blast
qed

text \<open>
  Denying a parked session ends it for good: the caller is told, the trail says a human
  denied it, parked entry and handle are gone, and nothing is queued; denying anything
  else fails and changes nothing.
\<close>

theorem deny_ends_session:
  "case fmlookup (bs_pending b) i of
     None \<Rightarrow> deny i b = (b, Err (NotPendingApproval i))
   | Some pending \<Rightarrow> (case deny i b of (b', res) \<Rightarrow>
       let job = pj_job pending; c = sink_channel (job_sink job) in
       res = Ok () \<and> i |\<notin>| fmdom (bs_pending b') \<and> i |\<notin>| fmdom (bs_handles b')
       \<and> ab_queue b' = ab_queue b
       \<and> audit_trail b' = last_n DEFAULT_MAX_AUDIT_ENTRIES (audit_trail b @
           [\<lparr>ae_id = i, ae_actor = cr_actor (job_request job), ae_program = cr_program (job_request job),
             ae_decision = DecisionDenied, ae_outcome = AuditDenied\<rparr>])
       \<and> map terminal_audit (ab_sent b' c) =
           map terminal_audit (ab_sent b c) @ (if ab_open b c then [Some AuditDenied] else []))"
proof (cases "fmlookup (bs_pending b) i")
  case (Some pending)
  then show ?thesis
    by (cases "job_sink (pj_job pending)")
      (simp_all add: deny_def audit_trail_def job_entry_def Let_def terminal_message_def)
qed (simp add: deny_def)

text \<open>
  Approving a parked session queues exactly that job, marked approved, behind what is
  queued, and sends nothing yet; if the session was cancelled meanwhile it ends as
  cancelled instead and is not queued; without a worker it is released with an error; and
  an id that is not parked is refused and changes nothing.
\<close>

theorem approve_admits_session:
  "case fmlookup (bs_pending b) i of
     None \<Rightarrow> approve i b = (b, Err (NotPendingApproval i))
   | Some pending \<Rightarrow> (case approve i b of (b', res) \<Rightarrow>
       let job = pj_job pending; c = sink_channel (job_sink job) in
       bs_pending b' = fmdrop i (bs_pending b)
       \<and> (if session_cancelled i b
          then res = Ok () \<and> ab_queue b' = ab_queue b \<and> i |\<notin>| fmdom (bs_handles b')
            \<and> ae_outcome (last (audit_trail b')) = AuditCancelled
            \<and> map terminal_audit (ab_sent b' c) =
                map terminal_audit (ab_sent b c) @ (if ab_open b c then [Some AuditCancelled] else [])
          else if ab_worker_up b
          then res = Ok () \<and> ab_queue b' = ab_queue b @ [job\<lparr>job_admission := Approved\<rparr>]
            \<and> bs_handles b' = bs_handles b \<and> audit_trail b' = audit_trail b \<and> ab_sent b' = ab_sent b
          else res = Err WorkerStopped \<and> ab_queue b' = ab_queue b \<and> i |\<notin>| fmdom (bs_handles b')))"
proof (cases "fmlookup (bs_pending b) i")
  case (Some pending)
  have "session_cancelled i (b\<lparr>bs_pending := p\<rparr>) = session_cancelled i b" for p
    by (simp add: session_cancelled_def split: option.splits)
  then show ?thesis using Some
    by (cases "job_sink (pj_job pending)")
      (simp_all add: approve_def audit_trail_def job_entry_def Let_def terminal_message_def
        last_n_def DEFAULT_MAX_AUDIT_ENTRIES_def)
qed (simp add: approve_def)

text \<open>
  Cancelling reaches exactly the session it names: a parked one ends at once as cancelled
  and is recorded so, a queued or running one has its signal raised and nothing else
  changes, and an id that is not live is refused.
\<close>

theorem cancel_reaches_session:
  "case (fmlookup (bs_pending b) i, fmlookup (bs_handles b) i) of
     (Some pending, _) \<Rightarrow> (case cancel i b of (b', res) \<Rightarrow>
       let job = pj_job pending; c = sink_channel (job_sink job) in
       res = Ok () \<and> i |\<notin>| fmdom (bs_pending b') \<and> i |\<notin>| fmdom (bs_handles b')
       \<and> ab_queue b' = ab_queue b
       \<and> (case last (audit_trail b') of entry \<Rightarrow>
            ae_id entry = i \<and> ae_decision entry = DecisionCancelled \<and> ae_outcome entry = AuditCancelled)
       \<and> map terminal_audit (ab_sent b' c) =
           map terminal_audit (ab_sent b c) @ (if ab_open b c then [Some AuditCancelled] else []))
   | (None, None) \<Rightarrow> cancel i b = (b, Err (UnknownSession i))
   | (None, Some handle) \<Rightarrow> (case cancel i b of (b', res) \<Rightarrow>
       res = Ok () \<and> session_cancelled i b'
       \<and> b' = b\<lparr>ab_signals := ab_signals b'\<rparr>
       \<and> (\<forall>q. is_cancelled (ab_signals b') q = (q = handle \<or> is_cancelled (ab_signals b) q)))"
proof (cases "fmlookup (bs_pending b) i")
  case (Some pending)
  then show ?thesis
    by (cases "job_sink (pj_job pending)")
      (simp_all add: cancel_def audit_trail_def job_entry_def Let_def terminal_message_def
        last_n_def DEFAULT_MAX_AUDIT_ENTRIES_def)
next
  case None
  then show ?thesis
    by (auto simp: cancel_def session_cancelled_def signal.raise_raises split: option.splits)
qed

text \<open>
  A sweep closes exactly the expired approvals: a parked session whose deadline has passed
  disappears with its handle and is recorded as timed out, in the order of the sweep; every
  other session, parked or not, and the queue stay as they are.
\<close>

theorem sweep_closes_expired:
  assumes "distinct order" and "set order = fset (fmdom (bs_pending b))"
    and "length (audit_trail b) \<le> DEFAULT_MAX_AUDIT_ENTRIES"
  shows "fmlookup (bs_pending (sweep order now b)) i
           = (if expired now b i then None else fmlookup (bs_pending b) i)
    \<and> fmlookup (bs_handles (sweep order now b)) i
           = (if expired now b i then None else fmlookup (bs_handles b) i)
    \<and> audit_trail (sweep order now b) = last_n DEFAULT_MAX_AUDIT_ENTRIES
        (audit_trail b @ map (expiry_entry b) (filter (expired now b) order))
    \<and> ab_queue (sweep order now b) = ab_queue b"
proof -
  let ?ids = "filter (expired now b) order"
  have ids: "i \<in> set ?ids \<longleftrightarrow> expired now b i" for i
    using assms(2) by (auto simp: expired_def split: option.splits intro: fmdomI)
  have "\<forall>k \<in> set ?ids. k |\<in>| fmdom (bs_pending b)" using assms(2) by simp
  note fold = sweep_fold [OF distinct_filter [OF assms(1)] this assms(3) [unfolded audit_trail_def], of i]
  show ?thesis using fold unfolding sweep_def audit_trail_def ids .
qed

theorem sweep_closes_expired_witness:
  "fmlookup (bs_pending (sweep [7] 100 example_broker)) 7 = None
   \<and> fmlookup (bs_pending (sweep [7] 99 example_broker)) 7 \<noteq> None"
proof -
  have "expired 100 example_broker 7" "\<not> expired 99 example_broker 7"
    "fmlookup (bs_pending example_broker) 7 \<noteq> None"
    by (simp_all add: expired_def example_broker_def)
  moreover have "set [7] = fset (fmdom (bs_pending example_broker))"
    "length (audit_trail example_broker) \<le> DEFAULT_MAX_AUDIT_ENTRIES"
    by (simp_all add: example_broker_def audit_trail_def)
  ultimately show ?thesis
    using sweep_closes_expired [of "[7]" example_broker 100 7] sweep_closes_expired [of "[7]" example_broker 99 7]
    by simp
qed

text \<open>
  The audit trail keeps the latest entries: after any sequence of entries it holds the last
  4096 of them in order, so it never outgrows its bound and loses only the oldest.
\<close>

theorem audit_keeps_latest:
  "audit_trail (fold audit_record entries (b\<lparr>bs_audit := []\<rparr>))
     = last_n DEFAULT_MAX_AUDIT_ENTRIES entries"
proof -
  have "bs_audit (fold audit_record entries b)
      = last_n DEFAULT_MAX_AUDIT_ENTRIES (bs_audit b @ entries)"
    if "length (bs_audit b) \<le> DEFAULT_MAX_AUDIT_ENTRIES" for b :: "('a, 'b) action_broker_scheme"
    using that
  proof (induction entries arbitrary: b)
    case (Cons e es)
    then show ?case
      using last_n_append [of DEFAULT_MAX_AUDIT_ENTRIES "bs_audit b @ [e]" es] by (simp add: audit_record_eq)
  qed (simp add: last_n_all)
  from this [of "b\<lparr>bs_audit := []\<rparr>"] show ?thesis by (simp add: audit_trail_def)
qed

text \<open>
  Dropping a broker between two sessions terminates without starting a guest: every live
  handle is cancelled, the queue is served to its end, and the outcome is the same whatever
  the guests, the host and the other threads would do.
\<close>

theorem drop_starts_no_guest:
  assumes "fset (fmdom (bs_handles b)) \<subseteq> set order"
  shows "\<exists>b'. (\<forall>be meanwhile. broker_drop be meanwhile now order b = Some b')
     \<and> ab_queue b' = [] \<and> \<not> ab_worker_up b'"
  using cancelled_loop [OF begin_drop_cancels [OF assms]] by (simp add: broker_drop_def)

theorem drop_starts_no_guest_witness:
  "\<exists>b'. broker_drop example_backend id 0 [7] (example_broker\<lparr>ab_queue := [example_auto_job]\<rparr>) = Some b'
     \<and> ab_queue b' = []"
proof -
  have "fset (fmdom (bs_handles (example_broker\<lparr>ab_queue := [example_auto_job]\<rparr>))) \<subseteq> set [7]"
    by (simp add: example_broker_def)
  from drop_starts_no_guest [OF this, of 0] show ?thesis by blast
qed

end
