(* ===== verification/Broker_Runs.thy ===== *)
theory Broker_Runs
  imports Broker
begin

text \<open>
  The broker over time: callers, the sweeper and the worker take turns on one broker, and
  while the worker is inside a guest the others go on.  The relation \<open>reachable\<close> generates
  the states, \<open>broker_inv\<close> is their invariant, and the properties say what holds in every
  history: who may run, what a channel can carry, and how large the broker grows.
\<close>

section \<open>Histories\<close>

text \<open>
  A history variable beside the broker's own fields, which no operation of the broker reads
  or writes: the channels of the sessions that callers approved.
\<close>

record 'c monitored = "'c action_broker" +
  mo_approved :: "nat list"

datatype 'c client_op =
    OpSubmit 'c command_request
  | OpSubmitStreaming 'c command_request
  | OpApprove u64
  | OpDeny u64
  | OpCancel u64
  | OpSweep "u64 list" nat
  | OpHangUp nat

definition channel_of :: "'c job \<Rightarrow> nat" where
  "channel_of job = sink_channel (job_sink job)"

text \<open>The parked job an id stands for is what an approval approves.\<close>

definition note_approval :: "u64 \<Rightarrow> 'c monitored \<Rightarrow> 'c monitored" where
  "note_approval i b = (case fmlookup (bs_pending b) i of
     None \<Rightarrow> b
   | Some pending \<Rightarrow> b\<lparr>mo_approved := mo_approved b @ [channel_of (pj_job pending)]\<rparr>)"

fun client_step :: "'c client_op \<Rightarrow> 'c monitored \<Rightarrow> 'c monitored" where
  "client_step (OpSubmit component r) b = fst (submit component r b)"
| "client_step (OpSubmitStreaming component r) b = fst (submit_streaming component r b)"
| "client_step (OpApprove i) b = fst (approve i (note_approval i b))"
| "client_step (OpDeny i) b = fst (deny i b)"
| "client_step (OpCancel i) b = fst (cancel i b)"
| "client_step (OpSweep order now) b = sweep order now b"
| "client_step (OpHangUp c) b = hang_up c b"

definition client_steps :: "'c client_op list \<Rightarrow> 'c monitored \<Rightarrow> 'c monitored" where
  "client_steps ops b = fold client_step ops b"

definition monitored_init :: "usize \<Rightarrow> nat \<Rightarrow> broker_error + 'c monitored" where
  "monitored_init capacity timeout = (case with_config (Inr ()) capacity timeout of
     Inl e \<Rightarrow> Err e
   | Inr b \<Rightarrow> Ok (action_broker.extend b (monitored.fields [])))"

text \<open>A run forwards output chunks only, also when it panics.\<close>

definition panics_cleanly :: "'c backend \<Rightarrow> bool" where
  "panics_cleanly be = (\<forall>job es. be_panics be job = Some es \<longrightarrow> list_all output_chunk es)"

inductive reachable :: "usize \<Rightarrow> nat \<Rightarrow> 'c monitored \<Rightarrow> bool" for capacity timeout where
  reachable_init: "monitored_init capacity timeout = Ok b \<Longrightarrow> reachable capacity timeout b"
| reachable_client: "reachable capacity timeout b \<Longrightarrow> reachable capacity timeout (client_step op b)"
| reachable_worker: "reachable capacity timeout b \<Longrightarrow> panics_cleanly be \<Longrightarrow>
    worker_turn be (client_steps ops) now b = Some b' \<Longrightarrow> reachable capacity timeout b'"

section \<open>What a channel may carry\<close>

text \<open>
  The grammar of a channel, closed under prefixes because a caller may hang up at any time:
  an optional request for approval, then for a capturing session at most one outcome, and
  for a streaming session either a refusal or a start, output, and at most one end.
\<close>

definition ends_session :: "message \<Rightarrow> bool" where
  "ends_session m = (terminal_audit m \<noteq> None)"

definition outcome_rest :: "message list \<Rightarrow> bool" where
  "outcome_rest ms = (case ms of
     [] \<Rightarrow> True
   | [Outcome o'] \<Rightarrow> ends_session (Outcome o')
   | _ \<Rightarrow> False)"

fun running_rest :: "message list \<Rightarrow> bool" where
  "running_rest [] = True"
| "running_rest [Event e] = (output_chunk e \<or> ends_session (Event e))"
| "running_rest (Event e # ms) = (output_chunk e \<and> running_rest ms)"
| "running_rest _ = False"

definition event_rest :: "message list \<Rightarrow> bool" where
  "event_rest ms = (case ms of
     [] \<Rightarrow> True
   | Event Started # rest \<Rightarrow> running_rest rest
   | [Event e] \<Rightarrow> ends_session (Event e)
   | _ \<Rightarrow> False)"

definition channel_protocol :: "message list \<Rightarrow> bool" where
  "channel_protocol ms = (case ms of
     Outcome (OutPendingApproval _) # rest \<Rightarrow> outcome_rest rest
   | Event (PendingApproval _) # rest \<Rightarrow> event_rest rest
   | _ \<Rightarrow> outcome_rest ms \<or> event_rest ms)"

text \<open>The messages a job may have been sent before its turn.\<close>

definition asked_first :: "'c job \<Rightarrow> message list \<Rightarrow> bool" where
  "asked_first job ms = (ms = [] \<or> (\<exists>reason. ms = [pending_message (job_sink job) reason]))"

lemma running_rest_outputs:
  "list_all output_chunk es \<Longrightarrow> running_rest (map Event es)"
  "list_all output_chunk es \<Longrightarrow> ends_session (Event e) \<Longrightarrow> running_rest (map Event es @ [Event e])"
proof -
  show "list_all output_chunk es \<Longrightarrow> running_rest (map Event es)"
  proof (induction es)
    case (Cons e es)
    then show ?case by (cases es) auto
  qed simp
  show "list_all output_chunk es \<Longrightarrow> ends_session (Event e) \<Longrightarrow> running_rest (map Event es @ [Event e])"
  proof (induction es)
    case (Cons e' es)
    then show ?case by (cases es) auto
  qed simp
qed

lemma ends_session_not [simp]:
  "\<not> ends_session (Outcome (OutPendingApproval r))" "\<not> ends_session (Event (PendingApproval r))"
  "\<not> ends_session (Event Started)" "\<not> ends_session (Event (Output s b))"
  by (simp_all add: ends_session_def)

lemma protocol_asked: "asked_first job ms \<Longrightarrow> channel_protocol ms"
  by (cases "job_sink job")
    (auto simp: asked_first_def channel_protocol_def pending_message_def outcome_rest_def event_rest_def)

lemma protocol_terminal:
  assumes "asked_first job ms" "of_sink (job_sink job) m" "ends_session m"
  shows "channel_protocol (ms @ [m])"
proof -
  have "(\<exists>o'. m = Outcome o' \<and> (\<exists>c. job_sink job = SinkOutcome c)) \<or> (\<exists>e. m = Event e \<and> (\<exists>c. job_sink job = SinkEvents c))"
    using assms(2) by (auto simp: of_sink_def split: job_sink.splits message.splits)
  then show ?thesis
    using assms(1,3)
    by (auto simp: asked_first_def channel_protocol_def pending_message_def outcome_rest_def event_rest_def
        split: broker_outcome.splits session_event.splits)
qed

lemma protocol_running:
  assumes "asked_first job ms" "job_sink job = SinkEvents c" "running_rest rest"
  shows "channel_protocol (ms @ Event Started # rest)"
  using assms by (auto simp: asked_first_def channel_protocol_def pending_message_def event_rest_def)

lemma terminal_message_ends: "ends_session (terminal_message sink t)" "of_sink sink (terminal_message sink t)"
  by (cases sink; cases t; simp add: ends_session_def terminal_message_def of_sink_def)+


section \<open>The invariant\<close>

definition asked :: "'c monitored \<Rightarrow> 'c job \<Rightarrow> bool" where
  "asked b job = (\<exists>reason. classify_risk (job_request job) = RequiresApproval reason
     \<and> ab_sent b (channel_of job) = [pending_message (job_sink job) reason])"

text \<open>A queued job is new and its caller has heard nothing, or was asked for and approved.\<close>

definition queued_ok :: "'c monitored \<Rightarrow> 'c job \<Rightarrow> bool" where
  "queued_ok b job = (channel_of job < ab_next_channel b
     \<and> (case job_admission job of
          AutoApproved \<Rightarrow> ab_sent b (channel_of job) = []
        | Approved \<Rightarrow> asked b job \<and> channel_of job \<in> set (mo_approved b)
        | _ \<Rightarrow> False))"

definition parked_ok :: "'c monitored \<Rightarrow> u64 \<Rightarrow> 'c job \<Rightarrow> bool" where
  "parked_ok b i job = (channel_of job < ab_next_channel b \<and> job_admission job = AutoApproved
     \<and> asked b job \<and> cr_id (job_request job) = i)"

definition parked_channels :: "'c monitored \<Rightarrow> nat set" where
  "parked_channels b = {channel_of (pj_job p) | i p. fmlookup (bs_pending b) i = Some p}"

text \<open>
  \<open>busy\<close> lists the channels of the jobs in the worker's hands.  Every live session has a
  channel of its own.
\<close>

definition sessions_ok :: "nat list \<Rightarrow> 'c monitored \<Rightarrow> bool" where
  "sessions_ok busy b \<longleftrightarrow>
     list_all (queued_ok b) (ab_queue b)
   \<and> (\<forall>i p. fmlookup (bs_pending b) i = Some p \<longrightarrow> parked_ok b i (pj_job p))
   \<and> (\<forall>i j p q. fmlookup (bs_pending b) i = Some p \<longrightarrow> fmlookup (bs_pending b) j = Some q \<longrightarrow>
        channel_of (pj_job p) = channel_of (pj_job q) \<longrightarrow> i = j)
   \<and> distinct (map channel_of (ab_queue b) @ busy)
   \<and> parked_channels b \<inter> set (map channel_of (ab_queue b) @ busy) = {}
   \<and> (\<forall>c \<in> set busy. c < ab_next_channel b)"

definition channels_ok :: "nat list \<Rightarrow> 'c monitored \<Rightarrow> bool" where
  "channels_ok busy b \<longleftrightarrow>
     (\<forall>c. c \<notin> set busy \<longrightarrow> channel_protocol (ab_sent b c))
   \<and> (\<forall>c \<ge> ab_next_channel b. ab_sent b c = [])"

definition sizes_ok :: "('c, 'z) action_broker_scheme \<Rightarrow> bool" where
  "sizes_ok b \<longleftrightarrow> fcard (fmdom (bs_handles b)) \<le> unat (ab_capacity b)
   \<and> length (bs_audit b) \<le> DEFAULT_MAX_AUDIT_ENTRIES"

definition broker_inv :: "nat list \<Rightarrow> 'c monitored \<Rightarrow> bool" where
  "broker_inv busy b \<longleftrightarrow> sessions_ok busy b \<and> channels_ok busy b \<and> sizes_ok b"

text \<open>An invariant-preserving step that leaves the channels in the worker's hands alone.\<close>

definition client_safe :: "nat list \<Rightarrow> 'c monitored \<Rightarrow> 'c monitored \<Rightarrow> bool" where
  "client_safe busy b b' \<longleftrightarrow> broker_inv busy b' \<and> list_all (\<lambda>c. ab_sent b' c = ab_sent b c) busy
     \<and> list_all (\<lambda>c. ab_open b' c \<longrightarrow> ab_open b c) busy \<and> set (mo_approved b) \<subseteq> set (mo_approved b')"

lemma close_session_history [simp]:
  "mo_approved (close_session i job t d out b) = mo_approved b"
  by (simp add: close_session_def release_def audit_record_eq send_terminal_def channel_send_def)

lemma fcard_fmdrop: "fcard (fmdom (fmdrop i m)) \<le> fcard (fmdom m)"
  by (auto intro!: fcard_mono)

text \<open>Closing a parked session.\<close>

lemma asked_cong:
  "ab_sent b' (channel_of job) = ab_sent b (channel_of job) \<Longrightarrow> asked b' job = asked b job"
  by (simp add: asked_def)

lemma queued_ok_cong:
  assumes "queued_ok b job" "ab_sent b' (channel_of job) = ab_sent b (channel_of job)"
    "ab_next_channel b \<le> ab_next_channel b'" "set (mo_approved b) \<subseteq> set (mo_approved b')"
  shows "queued_ok b' job"
  using assms asked_cong [of b' job b]
  by (auto simp: queued_ok_def split: approval_decision.splits)

lemma parked_ok_cong:
  assumes "parked_ok b i job" "ab_sent b' (channel_of job) = ab_sent b (channel_of job)"
    "ab_next_channel b \<le> ab_next_channel b'"
  shows "parked_ok b' i job"
  using assms asked_cong [of b' job b] by (auto simp: parked_ok_def)

lemma parked_channels_mem: "fmlookup (bs_pending b) i = Some p \<Longrightarrow> channel_of (pj_job p) \<in> parked_channels b"
  by (auto simp: parked_channels_def)

lemma asked_asked_first: "asked b job \<Longrightarrow> asked_first job (ab_sent b (channel_of job))"
  by (auto simp: asked_def asked_first_def)

lemma queued_asked_first: "queued_ok b job \<Longrightarrow> asked_first job (ab_sent b (channel_of job))"
  using asked_asked_first by (auto simp: queued_ok_def asked_first_def split: approval_decision.splits)

text \<open>
  The general step on sessions: the queue keeps its jobs, parked entries only disappear, and
  the channels of what stays are as they were.
\<close>

lemma sessions_ok_shrink:
  assumes "sessions_ok busy b"
    and "ab_queue b' = ab_queue b"
    and "\<And>j p. fmlookup (bs_pending b') j = Some p \<Longrightarrow> fmlookup (bs_pending b) j = Some p"
    and "\<And>c. c \<notin> gone \<Longrightarrow> ab_sent b' c = ab_sent b c"
    and "gone \<inter> set (map channel_of (ab_queue b)) = {}" "gone \<inter> parked_channels b' = {}"
    and "ab_next_channel b \<le> ab_next_channel b'" "set (mo_approved b) \<subseteq> set (mo_approved b')"
  shows "sessions_ok busy b'"
proof -
  have sub: "parked_channels b' \<subseteq> parked_channels b"
    using assms(3) by (auto simp: parked_channels_def)
  have q: "list_all (queued_ok b') (ab_queue b)"
    unfolding list_all_iff
  proof
    fix job assume job: "job \<in> set (ab_queue b)"
    then have "channel_of job \<notin> gone" using assms(5) by auto
    moreover have ok: "queued_ok b job" using assms(1) job by (simp add: sessions_ok_def list_all_iff)
    ultimately show "queued_ok b' job"
      using queued_ok_cong [OF ok assms(4) assms(7) assms(8)] by simp
  qed
  have p: "parked_ok b' i (pj_job p)" if "fmlookup (bs_pending b') i = Some p" for i p
  proof -
    have "channel_of (pj_job p) \<notin> gone" using that assms(6) by (auto simp: parked_channels_def)
    moreover have ok: "parked_ok b i (pj_job p)"
      using assms(1) assms(3) [OF that] unfolding sessions_ok_def by blast
    ultimately show ?thesis
      using parked_ok_cong [OF ok assms(4) assms(7)] by simp
  qed
  show ?thesis
    unfolding sessions_ok_def assms(2)
  proof (intro conjI)
    show "\<forall>i j p q. fmlookup (bs_pending b') i = Some p \<longrightarrow> fmlookup (bs_pending b') j = Some q \<longrightarrow>
        channel_of (pj_job p) = channel_of (pj_job q) \<longrightarrow> i = j"
      using assms(1,3) unfolding sessions_ok_def by blast
    show "parked_channels b' \<inter> set (map channel_of (ab_queue b) @ busy) = {}"
      using assms(1) sub unfolding sessions_ok_def by blast
    show "\<forall>c \<in> set busy. c < ab_next_channel b'"
      using assms(1,7) unfolding sessions_ok_def by fastforce
  qed (use q p assms(1) in \<open>simp_all add: sessions_ok_def\<close>)
qed


text \<open>Steps that change neither sessions nor channels.\<close>

lemma broker_inv_cong:
  assumes "broker_inv busy b"
    and "ab_queue b' = ab_queue b" "bs_pending b' = bs_pending b" "ab_sent b' = ab_sent b"
    and "ab_next_channel b' = ab_next_channel b" "mo_approved b' = mo_approved b" "sizes_ok b'"
  shows "broker_inv busy b'"
proof -
  have "sessions_ok busy b'"
    using assms by (intro sessions_ok_shrink [of busy b b' "{}"]) (simp_all add: broker_inv_def)
  then show ?thesis using assms by (simp add: broker_inv_def channels_ok_def)
qed

lemma client_safe_cong:
  assumes "broker_inv busy b"
    and "ab_queue b' = ab_queue b" "bs_pending b' = bs_pending b" "ab_sent b' = ab_sent b"
    and "ab_next_channel b' = ab_next_channel b" "mo_approved b' = mo_approved b" "sizes_ok b'"
    and "\<And>c. c \<in> set busy \<Longrightarrow> ab_open b' c \<Longrightarrow> ab_open b c"
  shows "client_safe busy b b'"
  using broker_inv_cong [OF assms(1-7)] assms(4,6,8) by (simp add: client_safe_def list_all_iff)

lemma client_safe_refl: "broker_inv busy b \<Longrightarrow> client_safe busy b b"
  by (simp add: client_safe_def list_all_iff)

lemma client_safe_trans:
  "client_safe busy b b' \<Longrightarrow> client_safe busy b' b'' \<Longrightarrow> client_safe busy b b''"
  by (auto simp: client_safe_def list_all_iff)

text \<open>Closing a parked session.\<close>

lemma close_parked:
  assumes "broker_inv busy b" "fmlookup (bs_pending b) i = Some p"
  shows "client_safe busy b
     (close_session i (pj_job p) t d out (b\<lparr>bs_pending := fmdrop i (bs_pending b)\<rparr>))"
    (is "client_safe busy b ?b'")
proof -
  let ?c = "channel_of (pj_job p)"
  have s: "sessions_ok busy b" and ch: "channels_ok busy b" and sz: "sizes_ok b"
    using assms(1) by (simp_all add: broker_inv_def)
  have c: "?c \<in> parked_channels b" using parked_channels_mem [OF assms(2)] .
  then have new: "?c \<notin> set (map channel_of (ab_queue b))" "?c \<notin> set busy"
    using s by (auto simp: sessions_ok_def)
  have park: "parked_ok b i (pj_job p)" using s assms(2) by (simp add: sessions_ok_def)
  have sent: "ab_sent ?b' d = (if d = ?c \<and> ab_open b ?c
      then ab_sent b ?c @ [terminal_message (job_sink (pj_job p)) t] else ab_sent b d)" for d
    by (auto simp: channel_of_def)
  have "sessions_ok busy ?b'"
  proof (rule sessions_ok_shrink [OF s, of _ "{?c}"])
    show "{?c} \<inter> parked_channels ?b' = {}"
      using s assms(2) unfolding sessions_ok_def by (auto simp: parked_channels_def split: if_splits)
  qed (use new in \<open>auto simp: channel_of_def split: if_splits\<close>)
  moreover have "channels_ok busy ?b'"
  proof -
    have "channel_protocol (ab_sent b ?c @ [terminal_message (job_sink (pj_job p)) t])"
      using park by (intro protocol_terminal [OF asked_asked_first] terminal_message_ends)
        (simp add: parked_ok_def)
    moreover have "?c < ab_next_channel b" using park by (simp add: parked_ok_def)
    ultimately show ?thesis using ch unfolding channels_ok_def sent by auto
  qed
  moreover have "sizes_ok ?b'"
    using sz fcard_fmdrop [of i "bs_handles b"] by (simp add: sizes_ok_def)
  moreover have "list_all (\<lambda>c. ab_sent ?b' c = ab_sent b c) busy"
    using new(2) unfolding list_all_iff sent by auto
  ultimately show ?thesis by (simp add: client_safe_def broker_inv_def list_all_iff)
qed

text \<open>Moving a parked session to the queue.\<close>

lemma approve_parked:
  assumes "broker_inv busy b" "fmlookup (bs_pending b) i = Some p"
  shows "broker_inv busy (b\<lparr>mo_approved := mo_approved b @ [channel_of (pj_job p)],
     bs_pending := fmdrop i (bs_pending b),
     ab_queue := ab_queue b @ [pj_job p\<lparr>job_admission := Approved\<rparr>]\<rparr>)"
    (is "broker_inv busy ?b'")
proof -
  let ?c = "channel_of (pj_job p)"
  let ?b0 = "b\<lparr>mo_approved := mo_approved b @ [?c], bs_pending := fmdrop i (bs_pending b)\<rparr>"
  have s: "sessions_ok busy b" using assms(1) by (simp add: broker_inv_def)
  have park: "parked_ok b i (pj_job p)" using s assms(2) by (simp add: sessions_ok_def)
  have new: "?c \<notin> set (map channel_of (ab_queue b))" "?c \<notin> set busy"
    using s parked_channels_mem [OF assms(2)] by (auto simp: sessions_ok_def)
  have gone: "?c \<notin> parked_channels ?b0"
    using s assms(2) unfolding sessions_ok_def by (auto simp: parked_channels_def split: if_splits)
  have s0: "sessions_ok busy ?b0"
    by (rule sessions_ok_shrink [OF s, of _ "{}"]) (auto split: if_splits)
  have fields: "ab_queue ?b0 = ab_queue b" "bs_pending ?b' = bs_pending ?b0"
    "ab_queue ?b' = ab_queue b @ [pj_job p\<lparr>job_admission := Approved\<rparr>]"
    "map channel_of (ab_queue ?b') = map channel_of (ab_queue b) @ [?c]"
    "ab_next_channel ?b' = ab_next_channel ?b0"
    by (simp_all add: channel_of_def)
  have new_ok: "queued_ok ?b' (pj_job p\<lparr>job_admission := Approved\<rparr>)"
    using park by (simp add: queued_ok_def parked_ok_def asked_def channel_of_def)
  have queued: "queued_ok ?b' job" if "queued_ok ?b0 job" for job
    using queued_ok_cong [OF that, of ?b'] by simp
  have parked: "parked_ok ?b' j job" if "parked_ok ?b0 j job" for j job
    using parked_ok_cong [OF that, of ?b'] by simp
  have channels: "parked_channels ?b' = parked_channels ?b0" by (simp add: parked_channels_def)
  note s0' = s0 [unfolded sessions_ok_def fields(1)]
  have "sessions_ok busy ?b'"
    unfolding sessions_ok_def channels fields(4)
  proof (intro conjI)
    have "list_all (queued_ok ?b0) (ab_queue b)" using s0' by (rule conjunct1)
    then have "list_all (queued_ok ?b') (ab_queue b)" by (rule list.pred_mono_strong) (rule queued)
    then show "list_all (queued_ok ?b') (ab_queue ?b')"
      using new_ok by (simp only: fields(3) list_all_append list.pred_inject simp_thms)
    show "distinct ((map channel_of (ab_queue b) @ [?c]) @ busy)" using s0' new by simp
    show "parked_channels ?b0 \<inter> set ((map channel_of (ab_queue b) @ [?c]) @ busy) = {}"
      using s0' gone by auto
  qed (use s0' parked in \<open>simp_all only: fields(2,5), blast+\<close>)
  then show ?thesis using assms(1) by (simp add: broker_inv_def channels_ok_def sizes_ok_def)
qed


text \<open>A new channel, and a new job on it.\<close>

lemma channel_new_inv:
  assumes "broker_inv busy b"
  shows "client_safe busy b (snd (channel_new b))" "ab_sent (snd (channel_new b)) = ab_sent b"
proof -
  have "ab_sent b (ab_next_channel b) = []" using assms by (simp add: broker_inv_def channels_ok_def)
  then show sent: "ab_sent (snd (channel_new b)) = ab_sent b" by auto
  have mo: "mo_approved (snd (channel_new b)) = mo_approved b" by (simp add: channel_new_def)
  have s: "sessions_ok busy b" using assms by (simp add: broker_inv_def)
  have "sessions_ok busy (snd (channel_new b))"
  proof (rule sessions_ok_shrink [OF s, of _ "{}"])
    show "ab_sent (snd (channel_new b)) c = ab_sent b c" for c unfolding sent ..
  qed (simp_all add: mo)
  moreover have "channels_ok busy (snd (channel_new b))"
    using assms unfolding broker_inv_def channels_ok_def sent by simp
  moreover have "\<forall>c \<in> set busy. c \<noteq> ab_next_channel b"
    using s by (auto simp: sessions_ok_def)
  ultimately show "client_safe busy b (snd (channel_new b))"
    using assms unfolding client_safe_def broker_inv_def sent mo
    by (simp add: list_all_iff sizes_ok_def)
qed

lemma queued_ok_new:
  assumes "ab_sent b c = []" "c < ab_next_channel b" "\<forall>d. sink_channel (sink d) = d"
  shows "queued_ok b (new_job sink component r c)"
  using assms by (simp add: queued_ok_def new_job_def channel_of_def)

lemma enqueue_inv:
  assumes "broker_inv busy b" "ab_sent b c = []" "c < ab_next_channel b"
    "\<forall>d. sink_channel (sink d) = d" "c \<notin> set (map channel_of (ab_queue b) @ busy)"
    "c \<notin> parked_channels b"
  shows "broker_inv busy (b\<lparr>ab_queue := ab_queue b @ [new_job sink component r c]\<rparr>)"
    (is "broker_inv busy ?b'")
proof -
  have s: "sessions_ok busy b" using assms(1) by (simp add: broker_inv_def)
  have c: "channel_of (new_job sink component r c) = c"
    using assms(4) by (simp add: new_job_def channel_of_def)
  have fields: "ab_queue ?b' = ab_queue b @ [new_job sink component r c]" "bs_pending ?b' = bs_pending b"
    "map channel_of (ab_queue ?b') = map channel_of (ab_queue b) @ [c]"
    "ab_next_channel ?b' = ab_next_channel b"
    by (simp_all add: c)
  have new_ok: "queued_ok ?b' (new_job sink component r c)"
    using queued_ok_new [of ?b' c sink component r] assms(2-4) by simp
  have queued: "queued_ok ?b' job" if "queued_ok b job" for job
    using queued_ok_cong [OF that, of ?b'] by simp
  have parked: "parked_ok ?b' j job" if "parked_ok b j job" for j job
    using parked_ok_cong [OF that, of ?b'] by simp
  have channels: "parked_channels ?b' = parked_channels b" by (simp add: parked_channels_def)
  have "sessions_ok busy ?b'"
    unfolding sessions_ok_def channels fields(3)
  proof (intro conjI)
    have "list_all (queued_ok b) (ab_queue b)" using s by (simp add: sessions_ok_def)
    then have "list_all (queued_ok ?b') (ab_queue b)" by (rule list.pred_mono_strong) (rule queued)
    then show "list_all (queued_ok ?b') (ab_queue ?b')"
      using new_ok by (simp only: fields(1) list_all_append list.pred_inject simp_thms)
    show "distinct ((map channel_of (ab_queue b) @ [c]) @ busy)"
      using s assms(5) by (auto simp: sessions_ok_def)
    show "parked_channels b \<inter> set ((map channel_of (ab_queue b) @ [c]) @ busy) = {}"
      using s assms(6) by (auto simp: sessions_ok_def)
  qed (use s parked in \<open>simp_all only: fields(2,4) sessions_ok_def, blast+\<close>)
  then show ?thesis using assms(1) by (simp add: broker_inv_def channels_ok_def sizes_ok_def)
qed

text \<open>Channels not yet made belong to no session.\<close>

lemma next_channel_free:
  assumes "broker_inv busy b"
  shows "ab_next_channel b \<notin> set (map channel_of (ab_queue b) @ busy)"
    "ab_next_channel b \<notin> parked_channels b" "ab_sent b (ab_next_channel b) = []"
proof -
  have s: "sessions_ok busy b" and "channels_ok busy b" using assms by (simp_all add: broker_inv_def)
  then show "ab_sent b (ab_next_channel b) = []" by (simp add: channels_ok_def)
  show "ab_next_channel b \<notin> set (map channel_of (ab_queue b) @ busy)"
    using s by (fastforce simp: sessions_ok_def list_all_iff queued_ok_def)
  show "ab_next_channel b \<notin> parked_channels b"
    using s by (fastforce simp: sessions_ok_def parked_ok_def parked_channels_def)
qed

lemma submit_job_safe:
  fixes b :: "'c monitored"
  assumes "broker_inv busy b" "\<forall>d. sink_channel (sink d) = d"
  shows "client_safe busy b (fst (submit_job sink component r b))"
proof -
  let ?c = "ab_next_channel b"
  let ?b1 = "(snd (channel_new b))\<lparr>ab_signals := snd (cancel_handle_new (ab_signals b)),
     bs_handles := fmupd (cr_id r) (fst (cancel_handle_new (ab_signals b))) (bs_handles b)\<rparr>"
  note fresh = channel_new_inv [OF assms(1)]
  have inv1: "broker_inv busy (snd (channel_new b))" using fresh(1) by (simp add: client_safe_def)
  have mo: "mo_approved (snd (channel_new b)) = mo_approved b" by (simp add: channel_new_def)
  have "fst (submit_job sink component r b) \<in> {b, snd (channel_new b)}
    \<or> (fst (submit_job sink component r b) = release (cr_id r) ?b1
        \<or> fst (submit_job sink component r b)
            = ?b1\<lparr>ab_queue := ab_queue b @ [new_job sink component r ?c]\<rparr>)
      \<and> fcard (fmdom (bs_handles b)) < unat (ab_capacity b)"
    by (simp add: submit_job_eq Let_def)
  then consider (full) "fst (submit_job sink component r b) \<in> {b, snd (channel_new b)}"
    | (stopped) "fst (submit_job sink component r b) = release (cr_id r) ?b1"
        "fcard (fmdom (bs_handles b)) < unat (ab_capacity b)"
    | (queued) "fst (submit_job sink component r b)
          = ?b1\<lparr>ab_queue := ab_queue b @ [new_job sink component r ?c]\<rparr>"
        "fcard (fmdom (bs_handles b)) < unat (ab_capacity b)"
    by blast
  then show ?thesis
  proof cases
    case full
    then show ?thesis using fresh(1) client_safe_refl [OF assms(1)] by auto
  next
    case stopped
    have "fcard (fmdom (fmdrop (cr_id r) (fmupd (cr_id r) h (bs_handles b)))) \<le> fcard (fmdom (bs_handles b))" for h
      by (auto intro!: fcard_mono)
    then have "sizes_ok (release (cr_id r) ?b1)"
      using assms(1) stopped(2) by (auto simp: sizes_ok_def broker_inv_def intro: order_trans)
    then have "client_safe busy (snd (channel_new b)) (release (cr_id r) ?b1)"
      by (intro client_safe_cong [OF inv1]) (simp_all add: release_def mo)
    then show ?thesis using client_safe_trans [OF fresh(1)] stopped(1) by simp
  next
    case queued
    have "fcard (finsert (cr_id r) (fmdom (bs_handles b))) \<le> Suc (fcard (fmdom (bs_handles b)))"
      by (simp add: fcard_finsert_if)
    then have "sizes_ok ?b1" using assms(1) queued(2) by (simp add: sizes_ok_def broker_inv_def)
    then have one: "client_safe busy (snd (channel_new b)) ?b1"
      by (intro client_safe_cong [OF inv1]) (simp_all add: mo)
    then have inv2: "broker_inv busy ?b1" by (simp add: client_safe_def)
    have "parked_channels ?b1 = parked_channels b" by (simp add: parked_channels_def)
    then have "broker_inv busy (?b1\<lparr>ab_queue := ab_queue ?b1 @ [new_job sink component r ?c]\<rparr>)"
      using next_channel_free [OF assms(1)] assms(2) by (intro enqueue_inv [OF inv2]) simp_all
    moreover have "client_safe busy b ?b1" using client_safe_trans [OF fresh(1) one] .
    ultimately show ?thesis unfolding queued(1) by (simp add: client_safe_def)
  qed
qed


section \<open>Every client step is safe\<close>

lemma note_approval_frame:
  assumes "broker_inv busy b"
  shows "client_safe busy b (note_approval i b)"
proof (cases "fmlookup (bs_pending b) i")
  case None
  then show ?thesis using client_safe_refl [OF assms] by (simp add: note_approval_def)
next
  case (Some p)
  let ?b' = "b\<lparr>mo_approved := mo_approved b @ [channel_of (pj_job p)]\<rparr>"
  have "sessions_ok busy b" using assms by (simp add: broker_inv_def)
  then have "sessions_ok busy ?b'"
    by (rule sessions_ok_shrink [of _ _ _ "{}"]) auto
  then show ?thesis using assms Some
    by (simp add: note_approval_def client_safe_def broker_inv_def channels_ok_def sizes_ok_def list_all_iff)
      auto
qed

lemma approve_safe:
  assumes "broker_inv busy b"
  shows "client_safe busy b (fst (approve i (note_approval i b)))"
proof (cases "fmlookup (bs_pending b) i")
  case None
  then show ?thesis using client_safe_refl [OF assms] by (simp add: note_approval_def approve_def)
next
  case (Some p)
  let ?n = "note_approval i b"
  have n: "?n = b\<lparr>mo_approved := mo_approved b @ [channel_of (pj_job p)]\<rparr>"
    using Some by (simp add: note_approval_def)
  have safe: "client_safe busy b ?n" using note_approval_frame [OF assms] .
  then have inv: "broker_inv busy ?n" by (simp add: client_safe_def)
  have look: "fmlookup (bs_pending ?n) i = Some p" using Some by (simp add: n)
  note close = close_parked [OF inv look]
  let ?q = "?n\<lparr>bs_pending := fmdrop i (bs_pending ?n)\<rparr>"
  have "fst (approve i ?n) = close_session i (pj_job p) TermCancelled DecisionCancelled AuditCancelled ?q
    \<or> fst (approve i ?n) = release i ?q
    \<or> fst (approve i ?n) = ?q\<lparr>ab_queue := ab_queue ?q @ [pj_job p\<lparr>job_admission := Approved\<rparr>]\<rparr>"
    using look by (simp add: approve_def Let_def)
  then consider (cancelled) "fst (approve i ?n)
        = close_session i (pj_job p) TermCancelled DecisionCancelled AuditCancelled ?q"
    | (stopped) "fst (approve i ?n) = release i ?q"
    | (queued) "fst (approve i ?n) = b\<lparr>mo_approved := mo_approved b @ [channel_of (pj_job p)],
         bs_pending := fmdrop i (bs_pending b), ab_queue := ab_queue b @ [pj_job p\<lparr>job_admission := Approved\<rparr>]\<rparr>"
    unfolding n by auto
  then show ?thesis
  proof cases
    case cancelled
    then show ?thesis using client_safe_trans [OF safe close] by simp
  next
    case stopped
    have s: "sessions_ok busy ?n" and ch: "channels_ok busy ?n" and sz: "sizes_ok ?n"
      using inv by (simp_all add: broker_inv_def)
    have "sessions_ok busy (release i ?q)"
      by (rule sessions_ok_shrink [OF s, of _ "{}"]) (auto simp: release_def split: if_splits)
    moreover have "sizes_ok (release i ?q)"
      using sz fcard_fmdrop [of i "bs_handles b"] by (simp add: sizes_ok_def n)
    moreover have "channels_ok busy (release i ?q)" using ch by (simp add: channels_ok_def release_def)
    ultimately have "client_safe busy ?n (release i ?q)"
      by (simp add: client_safe_def broker_inv_def list_all_iff) (simp add: release_def)
    then show ?thesis using client_safe_trans [OF safe] stopped by simp
  next
    case queued
    show ?thesis
      using approve_parked [OF assms Some] unfolding queued client_safe_def by (simp add: list_all_iff) auto
  qed
qed

lemma sweep_one_safe: "broker_inv busy b \<Longrightarrow> client_safe busy b (sweep_one i b)"
  using close_parked [of busy b i] client_safe_refl [of busy b] by (simp add: sweep_one_def split: option.splits)

lemma sweep_safe: "broker_inv busy b \<Longrightarrow> client_safe busy b (fold sweep_one ids b)"
proof (induction ids arbitrary: b)
  case (Cons i ids)
  have one: "client_safe busy b (sweep_one i b)" using sweep_one_safe [OF Cons.prems] .
  then have "broker_inv busy (sweep_one i b)" by (simp add: client_safe_def)
  then show ?case using client_safe_trans [OF one Cons.IH] by simp
qed (simp add: client_safe_refl)

lemma client_step_safe:
  assumes "broker_inv busy b"
  shows "client_safe busy b (client_step op b)"
proof (cases op)
  case (OpSubmit component r)
  then show ?thesis using submit_job_safe [OF assms, of SinkOutcome component r]
    by (simp add: submit_def sink_channel_def)
next
  case (OpSubmitStreaming component r)
  then show ?thesis using submit_job_safe [OF assms, of SinkEvents component r]
    by (simp add: submit_streaming_def sink_channel_def)
next
  case (OpApprove i)
  then show ?thesis using approve_safe [OF assms] by simp
next
  case (OpDeny i)
  then show ?thesis using close_parked [OF assms] client_safe_refl [OF assms]
    by (simp add: deny_def split: option.splits)
next
  case (OpCancel i)
  have "client_safe busy b (b\<lparr>ab_signals := m\<rparr>)" for m
    using assms by (intro client_safe_cong [OF assms]) (simp_all add: broker_inv_def sizes_ok_def)
  then show ?thesis using OpCancel close_parked [OF assms] client_safe_refl [OF assms]
    by (simp add: cancel_def split: option.splits)
next
  case (OpSweep order now)
  then show ?thesis using sweep_safe [OF assms] by (simp add: sweep_def)
next
  case (OpHangUp c)
  then show ?thesis using assms
    by (simp add: hang_up_def)
      (intro client_safe_cong [OF assms], simp_all add: broker_inv_def sizes_ok_def split: if_splits)
qed

lemma client_steps_safe: "broker_inv busy b \<Longrightarrow> client_safe busy b (client_steps ops b)"
proof (induction ops arbitrary: b)
  case (Cons op ops)
  have one: "client_safe busy b (client_step op b)" using client_step_safe [OF Cons.prems] .
  then have "broker_inv busy (client_step op b)" by (simp add: client_safe_def)
  then show ?case using client_safe_trans [OF one] Cons.IH by (simp add: client_steps_def)
qed (simp add: client_safe_refl client_steps_def)


section \<open>The worker's turn\<close>

text \<open>While a job is in the worker's hands, its channel is busy.\<close>

lemma take_job:
  assumes "broker_inv [] b" "ab_queue b = job # rest"
  shows "broker_inv [channel_of job] (b\<lparr>ab_queue := rest\<rparr>)" "queued_ok (b\<lparr>ab_queue := rest\<rparr>) job"
proof -
  let ?b = "b\<lparr>ab_queue := rest\<rparr>"
  have s: "sessions_ok [] b" using assms by (simp add: broker_inv_def)
  have cong: "queued_ok b j \<Longrightarrow> queued_ok ?b j" for j using queued_ok_cong [of b j ?b] by simp
  have parked: "parked_ok b i j \<Longrightarrow> parked_ok ?b i j" for i j using parked_ok_cong [of b i j ?b] by simp
  have all: "list_all (queued_ok ?b) (job # rest)"
    using s unfolding sessions_ok_def assms(2) by (blast intro: list.pred_mono_strong cong)
  then show "queued_ok ?b job" by simp
  then have "channel_of job < ab_next_channel ?b" by (simp add: queued_ok_def)
  moreover have "parked_channels ?b = parked_channels b" by (simp add: parked_channels_def)
  ultimately have "sessions_ok [channel_of job] ?b"
    using s all parked unfolding sessions_ok_def assms(2) by simp
  then show "broker_inv [channel_of job] ?b"
    using assms(1) by (simp add: broker_inv_def channels_ok_def sizes_ok_def)
qed

text \<open>What the worker does to the job's own channel, the audit trail and the handles is safe.\<close>

lemma busy_step:
  assumes "broker_inv [c] b"
    and "ab_queue b' = ab_queue b" "bs_pending b' = bs_pending b"
    and "\<And>d. d \<noteq> c \<Longrightarrow> ab_sent b' d = ab_sent b d"
    and "ab_next_channel b' = ab_next_channel b" "mo_approved b' = mo_approved b" "sizes_ok b'"
  shows "broker_inv [c] b'"
proof -
  have s: "sessions_ok [c] b" and ch: "channels_ok [c] b" using assms(1) by (simp_all add: broker_inv_def)
  have pc: "parked_channels b' = parked_channels b" using assms(3) by (simp add: parked_channels_def)
  have "sessions_ok [c] b'"
  proof (rule sessions_ok_shrink [OF s, of _ "{c}"])
    show "ab_sent b' d = ab_sent b d" if "d \<notin> {c}" for d using that assms(4) by simp
    show "{c} \<inter> set (map channel_of (ab_queue b)) = {}" "{c} \<inter> parked_channels b' = {}"
      using s unfolding pc by (auto simp: sessions_ok_def)
  qed (simp_all add: assms(2,3,5,6))
  moreover have "c < ab_next_channel b" using s by (simp add: sessions_ok_def)
  then have "channels_ok [c] b'"
    using ch assms(4) unfolding channels_ok_def assms(5) by (metis empty_set leD list.simps(15) singletonD singletonI)
  ultimately show ?thesis using assms(7) by (simp add: broker_inv_def)
qed

lemma busy_done:
  assumes "broker_inv [c] b" "channel_protocol (ab_sent b c)"
  shows "broker_inv [] b"
  using assms by (auto simp: broker_inv_def sessions_ok_def channels_ok_def)

lemma send_history [simp]: "mo_approved (snd (channel_send c m b)) = mo_approved b"
  by (simp add: channel_send_def)

lemma send_all_frame [simp]:
  "bs_handles (chan.send_all c ms b) = bs_handles b" "bs_pending (chan.send_all c ms b) = bs_pending b"
  "bs_audit (chan.send_all c ms b) = bs_audit b" "ab_queue (chan.send_all c ms b) = ab_queue b"
  "ab_capacity (chan.send_all c ms b) = ab_capacity b"
  "ab_next_channel (chan.send_all c ms b) = ab_next_channel b"
  by (induction ms arbitrary: b) simp_all

lemma send_all_signals [simp]: "ab_signals (chan.send_all c ms b) = ab_signals b"
  by (induction ms arbitrary: b) simp_all

lemma send_all_history [simp]: "mo_approved (chan.send_all c ms b) = mo_approved b"
  by (induction ms arbitrary: b) simp_all

lemma busy_send_all: "broker_inv [c] b \<Longrightarrow> broker_inv [c] (chan.send_all c ms b)"
  by (rule busy_step) (simp_all add: chan.send_all_sent broker_inv_def sizes_ok_def)

lemma sizes_release: "sizes_ok b \<Longrightarrow> sizes_ok (release i b)"
  using fcard_fmdrop [of i "bs_handles b"] by (simp add: sizes_ok_def)

lemma sizes_audit: "sizes_ok b \<Longrightarrow> sizes_ok (audit_record e b)"
  by (simp add: sizes_ok_def audit_record_eq)

lemma busy_release_audit:
  assumes "broker_inv [c] b"
  shows "broker_inv [c] (release i (audit_record e b))" "broker_inv [c] (release i b)"
proof -
  have sizes: "sizes_ok (release i (audit_record e b))" "sizes_ok (release i b)"
    using assms by (simp_all add: broker_inv_def sizes_release sizes_audit)
  show "broker_inv [c] (release i (audit_record e b))"
    by (rule busy_step [OF assms]) (simp_all add: sizes, simp_all add: audit_record_eq release_def)
  show "broker_inv [c] (release i b)"
    by (rule busy_step [OF assms]) (simp_all add: sizes, simp add: release_def)
qed

text \<open>What an execution leaves on the channel of its job.\<close>

lemma run_sent:
  fixes ops :: "'c client_op list"
  assumes "broker_inv [channel_of job] b"
    and "asked_first job (ab_sent b (channel_of job))"
    and "starts job handle b"
  defines "base \<equiv> after_run (client_steps ops) job handle b"
  shows "broker_inv [channel_of job] base"
    and "case job_sink job of
        SinkOutcome _ \<Rightarrow> ab_sent base (channel_of job) = ab_sent b (channel_of job)
      | SinkEvents _ \<Rightarrow>
          ab_sent base (channel_of job) = ab_sent b (channel_of job) @ [Event Started]
          \<or> (ab_sent base (channel_of job) = ab_sent b (channel_of job) \<and> \<not> ab_open base (channel_of job))"
proof -
  let ?b0 = "case job_sink job of SinkOutcome _ \<Rightarrow> b | SinkEvents c \<Rightarrow> send_events c [Started] b"
  have base: "base = client_steps ops ?b0" using assms(3) by (simp add: base_def after_run_def)
  have "broker_inv [channel_of job] ?b0"
    using assms(1) busy_send_all [of "channel_of job" b "[Event Started]"]
    by (cases "job_sink job") (simp_all add: channel_of_def sink_channel_def send_events_messages)
  from client_steps_safe [OF this, of ops] have safe: "broker_inv [channel_of job] base"
    "ab_sent base (channel_of job) = ab_sent ?b0 (channel_of job)"
    "ab_open base (channel_of job) \<Longrightarrow> ab_open ?b0 (channel_of job)"
    by (simp_all add: client_safe_def base)
  show "broker_inv [channel_of job] base" by (rule safe(1))
  show "case job_sink job of
        SinkOutcome _ \<Rightarrow> ab_sent base (channel_of job) = ab_sent b (channel_of job)
      | SinkEvents _ \<Rightarrow>
          ab_sent base (channel_of job) = ab_sent b (channel_of job) @ [Event Started]
          \<or> (ab_sent base (channel_of job) = ab_sent b (channel_of job) \<and> \<not> ab_open base (channel_of job))"
    using safe(2,3) by (cases "job_sink job") (auto simp: channel_of_def sink_channel_def)
qed


lemma of_sink_Event: "of_sink (SinkEvents c) m \<Longrightarrow> \<exists>e. m = Event e"
  by (cases m) (simp_all add: of_sink_def)

lemma protocol_started:
  assumes "asked_first job ms" "job_sink job = SinkEvents c" "list_all output_chunk es"
  shows "channel_protocol (ms @ [Event Started])"
    and "channel_protocol (ms @ Event Started # map Event es)"
    and "ends_session (Event e) \<Longrightarrow> channel_protocol (ms @ Event Started # map Event es @ [Event e])"
  using protocol_running [OF assms(1,2)] running_rest_outputs [OF assms(3)] by simp_all

text \<open>What a streaming session has received when its run has ended, or panicked with its caller there.\<close>

lemma protocol_streamed:
  assumes "asked_first job S" "job_sink job = SinkEvents c" "list_all output_chunk es"
    and "sent = S @ Event Started # map Event es \<or> sent = S @ [Event Started] \<or> sent = S"
  shows "channel_protocol sent"
    and "sent = S @ Event Started # map Event es \<Longrightarrow> of_sink (job_sink job) m \<Longrightarrow> ends_session m \<Longrightarrow>
      channel_protocol (sent @ [m])"
proof -
  show "channel_protocol sent"
    using assms(4) protocol_asked [OF assms(1)] protocol_started [OF assms(1-3)] by auto
  assume "sent = S @ Event Started # map Event es" "of_sink (job_sink job) m" "ends_session m"
  moreover from this obtain e where "m = Event e" using of_sink_Event assms(2) by metis
  ultimately show "channel_protocol (sent @ [m])"
    using protocol_started(3) [OF assms(1-3), of e] by simp
qed

text \<open>
  What is on the channel of an executed job: the protocol holds, and if the run panicked it
  still holds with the refusal that the barrier adds.
\<close>

lemma execution_protocol:
  fixes ops :: "'c client_op list"
  assumes inv: "broker_inv [channel_of job] b"
    and asked: "asked_first job (ab_sent b (channel_of job))"
    and ex: "execution be (client_steps ops) job handle b call b1"
    and clean: "panics_cleanly be" and call: "call \<noteq> NeverReturns"
  shows "broker_inv [channel_of job] b1"
    and "if call = Panicked \<and> ab_open b1 (channel_of job)
         then \<forall>t. channel_protocol (ab_sent b1 (channel_of job) @ [terminal_message (job_sink job) t])
         else channel_protocol (ab_sent b1 (channel_of job))"
proof -
  let ?c = "channel_of job" and ?base = "after_run (client_steps ops) job handle b"
  let ?S = "ab_sent b ?c"
  obtain ms where b1: "b1 = chan.send_all ?c ms ?base"
    and ms: "case call of
        Returned audit \<Rightarrow> (\<exists>pre m. ms = pre @ [m] \<and> terminal_audit m = Some audit
            \<and> of_sink (job_sink job) m \<and> interim job pre \<and> (\<not> starts job handle b \<longrightarrow> pre = []))
      | Panicked \<Rightarrow> starts job handle b \<and> (\<exists>es. be_panics be job = Some es
            \<and> ms = (case job_sink job of SinkOutcome _ \<Rightarrow> [] | SinkEvents _ \<Rightarrow> map Event es))
      | NeverReturns \<Rightarrow> starts job handle b \<and> ms = []"
    using ex unfolding execution_def channel_of_def by blast
  have sent: "ab_sent b1 ?c = (if ab_open ?base ?c then ab_sent ?base ?c @ ms else ab_sent ?base ?c)"
    "ab_open b1 ?c = ab_open ?base ?c"
    by (simp_all add: b1 chan.send_all_sent chan.send_all_open)
  have base_inv: "broker_inv [?c] ?base"
    using run_sent(1) [OF inv asked] inv by (cases "starts job handle b") (auto simp: after_run_def)
  then show "broker_inv [?c] b1" unfolding b1 by (rule busy_send_all)
  consider (refused) "\<not> starts job handle b"
    | (capturing) c where "starts job handle b" "job_sink job = SinkOutcome c"
    | (streaming) c where "starts job handle b" "job_sink job = SinkEvents c"
    by (cases "job_sink job") auto
  then show "if call = Panicked \<and> ab_open b1 ?c
         then \<forall>t. channel_protocol (ab_sent b1 ?c @ [terminal_message (job_sink job) t])
         else channel_protocol (ab_sent b1 ?c)"
  proof cases
    case refused
    then obtain audit m where m: "call = Returned audit" "ms = [m]" "terminal_audit m = Some audit"
      "of_sink (job_sink job) m"
      using ms call by (cases call) auto
    have "ab_sent b1 ?c = ?S @ [m] \<or> ab_sent b1 ?c = ?S"
      using sent m(2) refused by (simp add: after_run_def)
    then show ?thesis
      using protocol_asked [OF asked] protocol_terminal [OF asked m(4)] m(1,3) by (auto simp: ends_session_def)
  next
    case capturing
    have base: "ab_sent ?base ?c = ?S" using run_sent(2) [OF inv asked capturing(1), of ops] capturing(2) by simp
    show ?thesis
    proof (cases call)
      case (Returned audit)
      then obtain m where m: "ms = [m]" "terminal_audit m = Some audit" "of_sink (job_sink job) m"
        using ms capturing(2) by (auto simp: interim_def)
      then show ?thesis
        using protocol_asked [OF asked] protocol_terminal [OF asked m(3)] sent base Returned
        by (auto simp: ends_session_def)
    next
      case Panicked
      then have "ms = []" using ms capturing(2) by auto
      then show ?thesis
        using protocol_asked [OF asked] protocol_terminal [OF asked terminal_message_ends(2,1)] sent base Panicked
        by auto
    qed (use call in simp)
  next
    case streaming
    have base: "ab_sent ?base ?c = ?S @ [Event Started] \<or> ab_sent ?base ?c = ?S \<and> \<not> ab_open ?base ?c"
      using run_sent(2) [OF inv asked streaming(1), of ops] streaming(2) by simp
    show ?thesis
    proof (cases call)
      case (Returned audit)
      then obtain pre m where m: "ms = pre @ [m]" "terminal_audit m = Some audit" "of_sink (job_sink job) m"
        "interim job pre" using ms by auto
      obtain e where e: "m = Event e" using m(3) streaming(2) of_sink_Event by metis
      obtain es where "pre = map Event es" "list_all output_chunk es"
        using m(4) streaming(2) by (auto simp: interim_def)
      then show ?thesis using e
        using protocol_started [OF asked streaming(2)] protocol_asked [OF asked] sent base Returned m(1,2)
        by (auto simp: ends_session_def)
    next
      case Panicked
      then obtain es where es: "be_panics be job = Some es" "ms = map Event es"
        using ms streaming(2) by auto
      then have out: "list_all output_chunk es" using clean by (auto simp: panics_cleanly_def)
      have "ab_sent b1 ?c = ?S @ Event Started # map Event es
          \<or> (ab_sent b1 ?c = ?S @ [Event Started] \<or> ab_sent b1 ?c = ?S) \<and> \<not> ab_open b1 ?c"
        using base sent es(2) by auto
      then show ?thesis
        using protocol_streamed [OF asked streaming(2) out, of "ab_sent b1 ?c"] terminal_message_ends Panicked
        by auto
    qed (use call in simp)
  qed
qed


lemma send_terminal_frame:
  "broker_inv [channel_of job] b \<Longrightarrow> broker_inv [channel_of job] (send_terminal (job_sink job) t b)"
  using busy_send_all [of "channel_of job" b "[terminal_message (job_sink job) t]"]
  by (simp add: send_terminal_def channel_of_def)

lemma busy_close:
  assumes "broker_inv [channel_of job] b"
    and "if ab_open b (channel_of job)
         then channel_protocol (ab_sent b (channel_of job) @ [terminal_message (job_sink job) t])
         else channel_protocol (ab_sent b (channel_of job))"
  shows "broker_inv [] (close_session i job t d out b)"
proof (rule busy_done [of "channel_of job"])
  show "broker_inv [channel_of job] (close_session i job t d out b)"
    unfolding close_session_def by (intro busy_release_audit(1) send_terminal_frame assms(1))
  show "channel_protocol (ab_sent (close_session i job t d out b) (channel_of job))"
    using assms(2) by (simp add: channel_of_def split: if_splits)
qed

lemma park_inv:
  assumes "broker_inv [channel_of job] b" "queued_ok b job" "job_admission job \<noteq> Approved"
    "classify_risk (job_request job) = RequiresApproval reason"
  shows "broker_inv [] (park_job now reason job b)"
proof -
  let ?c = "channel_of job" and ?i = "cr_id (job_request job)"
  let ?p = "\<lparr>pj_job = note_event job (PendingApproval reason), pj_deadline = now + bs_approval_timeout b\<rparr>"
  have job: "job_admission job = AutoApproved" "ab_sent b ?c = []" "?c < ab_next_channel b"
    using assms(2,3) by (auto simp: queued_ok_def split: approval_decision.splits)
  have s: "sessions_ok [?c] b" and ch: "channels_ok [?c] b" and sz: "sizes_ok b"
    using assms(1) by (simp_all add: broker_inv_def)
  let ?d = "b\<lparr>bs_pending := fmdrop ?i (bs_pending b)\<rparr>"
  have d: "sessions_ok [?c] ?d"
    by (rule sessions_ok_shrink [OF s, of _ "{}"]) (auto split: if_splits)
  have sub: "parked_channels ?d \<subseteq> parked_channels b"
    by (auto simp: parked_channels_def split: if_splits)
  show ?thesis
  proof (cases "ab_open b ?c")
    case False
    moreover have "fmdrop ?i (fmupd ?i q m) = fmdrop ?i m" for q and m :: "(u64, 'a pending_job) fmap"
      by (rule fmap_ext) simp
    ultimately have "park_job now reason job b = release ?i ?d"
      by (simp add: park_job_def Let_def channel_send_def channel_of_def)
    moreover have "broker_inv [?c] (release ?i ?d)"
      using busy_release_audit(2) [of ?c ?d ?i] d ch sz by (simp add: broker_inv_def channels_ok_def sizes_ok_def)
    ultimately show ?thesis
      using busy_done [of ?c "release ?i ?d"] job(2) by (simp add: channel_protocol_def outcome_rest_def)
  next
    case True
    let ?b' = "snd (channel_send ?c (pending_message (job_sink job) reason)
         (b\<lparr>bs_pending := fmupd ?i ?p (bs_pending b)\<rparr>))"
    have b': "park_job now reason job b = ?b'"
      using True by (simp add: park_job_def Let_def channel_send_def channel_of_def)
    have sent: "ab_sent ?b' e = (if e = ?c then [pending_message (job_sink job) reason] else ab_sent b e)" for e
      using True job(2) by (simp add: chan.send_sent)
    have look: "fmlookup (bs_pending ?b') j = (if j = ?i then Some ?p else fmlookup (bs_pending b) j)" for j
      by simp
    have pc: "parked_channels ?b' = insert ?c (parked_channels ?d)"
      unfolding parked_channels_def look by (auto simp: channel_of_def split: if_splits)
    have fresh: "?c \<notin> set (map channel_of (ab_queue b))" "?c \<notin> parked_channels b"
      using s by (auto simp: sessions_ok_def)
    have "sessions_ok [] ?b'"
      unfolding sessions_ok_def pc
    proof (intro conjI allI impI)
      have "list_all (queued_ok b) (ab_queue b)" using s by (simp add: sessions_ok_def)
      then have "list_all (queued_ok ?b') (ab_queue b)"
      proof (rule list.pred_mono_strong)
        fix j assume "j \<in> set (ab_queue b)" "queued_ok b j"
        moreover from this have "channel_of j \<noteq> ?c" using fresh(1) by (metis image_eqI list.set_map)
        ultimately show "queued_ok ?b' j" using queued_ok_cong [of b j ?b'] sent by simp
      qed
      then show "list_all (queued_ok ?b') (ab_queue ?b')" by simp
      show "parked_ok ?b' j (pj_job q)" if q: "fmlookup (bs_pending ?b') j = Some q" for j q
      proof (cases "j = ?i")
        case True
        then show ?thesis using q job assms(4)
          by (auto simp: parked_ok_def asked_def channel_of_def chan.send_sent \<open>ab_open b ?c\<close> [unfolded channel_of_def])
      next
        case False
        then have ok: "fmlookup (bs_pending b) j = Some q" using q by simp
        then have "channel_of (pj_job q) \<noteq> ?c" using fresh(2) parked_channels_mem [of b j q] by auto
        moreover have "parked_ok b j (pj_job q)" using s ok by (simp add: sessions_ok_def)
        ultimately show ?thesis using parked_ok_cong [of b j "pj_job q" ?b'] sent by simp
      qed
      show "j = k" if "fmlookup (bs_pending ?b') j = Some q" "fmlookup (bs_pending ?b') k = Some r"
        "channel_of (pj_job q) = channel_of (pj_job r)" for j k q r
      proof -
        have c: "channel_of (pj_job ?p) = ?c" by (simp add: channel_of_def)
        have "fmlookup (bs_pending b) l = Some u \<Longrightarrow> channel_of (pj_job u) \<noteq> ?c" for l u
          using fresh(2) parked_channels_mem [of b l u] by auto
        then show ?thesis using that s c unfolding look sessions_ok_def
          by (metis option.inject)
      qed
      show "distinct (map channel_of (ab_queue ?b') @ [])" using s by (simp add: sessions_ok_def)
      show "insert ?c (parked_channels ?d) \<inter> set (map channel_of (ab_queue ?b') @ []) = {}"
        using s fresh(1) sub by (auto simp: sessions_ok_def)
    qed simp
    moreover have "channels_ok [] ?b'"
    proof -
      have "channel_protocol [pending_message (job_sink job) reason]"
        by (rule protocol_asked [of job]) (auto simp: asked_first_def)
      then show ?thesis using ch job(3) unfolding channels_ok_def sent by simp
    qed
    ultimately show ?thesis unfolding b' using sz by (simp add: broker_inv_def sizes_ok_def)
  qed
qed


lemma worker_turn_inv:
  fixes ops :: "'c client_op list"
  assumes "broker_inv [] b" "panics_cleanly be" "worker_turn be (client_steps ops) now b = Some b'"
  shows "broker_inv [] b'"
proof (cases "ab_queue b")
  case Nil
  then show ?thesis using assms by (simp add: worker_turn_def)
next
  case (Cons job rest)
  let ?b = "b\<lparr>ab_queue := rest\<rparr>" and ?c = "channel_of job" and ?i = "cr_id (job_request job)"
  have inv: "broker_inv [?c] ?b" and ok: "queued_ok ?b job"
    using take_job [OF assms(1) Cons] by blast+
  have asked: "asked_first job (ab_sent ?b ?c)" using queued_asked_first [OF ok] .
  have turn: "process_job_guarded be (client_steps ops) now job ?b = Some b'"
    using assms(3) Cons by (simp add: worker_turn_def)
  show ?thesis
  proof (cases "fmlookup (bs_handles ?b) ?i")
    case None
    let ?t = "TermDeniedWith (InvalidTransition ''session handle disappeared before start'')"
    have b': "b' = release ?i (send_terminal (job_sink job) ?t ?b)"
      using turn None by (simp add: process_job_guarded_def process_job_def)
    have "broker_inv [?c] b'" unfolding b' by (intro busy_release_audit(2) send_terminal_frame inv)
    moreover have "channel_protocol (ab_sent b' ?c)"
      using protocol_asked [OF asked] protocol_terminal [OF asked terminal_message_ends(2,1), of ?t]
      unfolding b' by (simp add: send_terminal_def chan.send_sent channel_of_def)
    ultimately show ?thesis by (rule busy_done)
  next
    case (Some handle)
    show ?thesis
    proof (cases "classify_risk (job_request job) \<noteq> AutoApprove \<and> job_admission job \<noteq> Approved")
      case True
      then obtain reason where r: "classify_risk (job_request job) = RequiresApproval reason"
        "job_admission job \<noteq> Approved"
        by (cases "classify_risk (job_request job)") auto
      then have "b' = park_job now reason job ?b"
        using turn Some by (simp add: process_job_guarded_def process_job_def)
      then show ?thesis using park_inv [OF inv ok r(2,1)] by simp
    next
      case False
      then have admitted: "process_job be (client_steps ops) now job ?b
          = execute_and_release be (client_steps ops) job handle (job_admission job) ?b"
        using process_job_admitted [OF Some] by blast
      obtain call job1 b1 where ex: "execute be (client_steps ops) job handle ?b = (call, job1, b1)"
        by (metis prod.exhaust)
      note run = execution_protocol [OF inv asked execute_execution [OF ex] assms(2)]
      show ?thesis
      proof (cases call)
        case (Returned audit)
        then have "b' = release ?i (audit_record (job_entry ?i job (job_admission job) audit) b1)"
          using turn ex execute_job(1) [OF ex] unfolding process_job_guarded_def admitted
          by (simp add: execute_and_release_def Let_def job_entry_def)
        moreover have "broker_inv [?c] (release ?i (audit_record (job_entry ?i job (job_admission job) audit) b1))"
          using run(1) Returned by (intro busy_release_audit(1)) simp
        moreover have "channel_protocol (ab_sent b1 ?c)" using run(2) Returned by simp
        ultimately show ?thesis by (intro busy_done [of ?c]) (simp_all add: audit_record_eq)
      next
        case Panicked
        then have "b' = close_session ?i job
            (TermDeniedWith (InvalidTransition ''worker panic while executing session''))
            (job_admission job) AuditFailed b1"
          using turn ex unfolding process_job_guarded_def admitted by (simp add: execute_and_release_def)
        then show ?thesis using run Panicked by (auto intro!: busy_close split: if_splits)
      next
        case NeverReturns
        then show ?thesis
          using turn ex unfolding process_job_guarded_def admitted by (simp add: execute_and_release_def)
      qed
    qed
  qed
qed

lemma monitored_init_inv:
  assumes "monitored_init capacity timeout = Ok b"
  shows "broker_inv [] b" "ab_capacity b = capacity"
  using assms
  by (auto simp: monitored_init_def with_config_def wasi_runtime_new_def map_err_def broker_inv_def
      sessions_ok_def channels_ok_def sizes_ok_def parked_channels_def action_broker.extend_def
      monitored.fields_def channel_protocol_def outcome_rest_def fcard.rep_eq split: if_splits)

lemma reachable_inv: "reachable capacity timeout b \<Longrightarrow> broker_inv [] b"
proof (induction rule: reachable.induct)
  case (reachable_client b op)
  then show ?case using client_step_safe [of "[]" b op] by (simp add: client_safe_def)
qed (auto intro: monitored_init_inv worker_turn_inv)


section \<open>The capacity\<close>

lemma client_step_capacity: "ab_capacity (client_step op b) = ab_capacity b"
proof -
  have sweep: "ab_capacity (fold sweep_one ids b) = ab_capacity b" for ids and b :: "'a monitored"
    by (induction ids arbitrary: b) simp_all
  have note_cap: "ab_capacity (note_approval i b) = ab_capacity b" for i
    by (simp add: note_approval_def split: option.splits)
  show ?thesis
    by (cases op)
      (simp_all add: submit_def submit_streaming_def submit_job_eq Let_def sweep sweep_def hang_up_def
        approve_def deny_def cancel_def note_cap split: option.splits)
qed

lemma client_steps_capacity: "ab_capacity (client_steps ops b) = ab_capacity b"
  unfolding client_steps_def by (induction ops arbitrary: b) (simp_all add: client_step_capacity)

lemma execute_capacity:
  assumes "\<And>c. ab_capacity (meanwhile c) = ab_capacity c"
    and "execute be meanwhile job handle b = (call, job1, b1)"
  shows "ab_capacity b1 = ab_capacity b"
proof -
  obtain ms where "b1 = chan.send_all (sink_channel (job_sink job)) ms (after_run meanwhile job handle b)"
    using execute_execution [OF assms(2)] by (auto simp: execution_def)
  then show ?thesis by (simp add: after_run_def assms(1) split: job_sink.splits)
qed

lemma worker_turn_capacity:
  assumes "\<And>c. ab_capacity (meanwhile c) = ab_capacity c"
    and "worker_turn be meanwhile now b = Some b'"
  shows "ab_capacity b' = ab_capacity b"
proof -
  have ear: "ab_capacity (snd (execute_and_release be meanwhile job handle d b)) = ab_capacity b"
    for job handle d b
    using execute_capacity [of meanwhile be job handle b, OF assms(1)]
    by (auto simp: execute_and_release_def audit_record_eq Let_def split: prod.splits call.splits)
  have pj: "ab_capacity (snd (process_job be meanwhile now job b)) = ab_capacity b" for job b
    by (auto simp: process_job_def ear park_job_def send_terminal_def Let_def case_prod_beta
        split: option.splits risk.splits)
  have guarded: "ab_capacity c = ab_capacity b"
    if "process_job_guarded be meanwhile now job b = Some c" for job b c
    using that pj [of job b]
    by (cases "process_job be meanwhile now job b"; cases "fst (process_job be meanwhile now job b)")
      (auto simp: process_job_guarded_def)
  show ?thesis
  proof (cases "ab_queue b")
    case (Cons job rest)
    then show ?thesis using guarded [of job "b\<lparr>ab_queue := rest\<rparr>" b'] assms(2) by (simp add: worker_turn_def)
  qed (use assms in \<open>simp add: worker_turn_def\<close>)
qed

lemma reachable_capacity: "reachable capacity timeout b \<Longrightarrow> ab_capacity b = capacity"
  by (induction rule: reachable.induct)
    (simp_all add: monitored_init_inv client_step_capacity worker_turn_capacity [OF client_steps_capacity])


section \<open>A short history\<close>

text \<open>One read-only session is submitted to a fresh broker.\<close>

definition example_start :: "unit monitored" where
  "example_start = projr (monitored_init 2 100)"

definition example_submitted :: "unit monitored" where
  "example_submitted = client_step (OpSubmit () example_request) example_start"

lemma example_start_eq: "monitored_init 2 100 = Ok example_start"
proof -
  have "\<exists>b. monitored_init 2 100 = Ok (b :: unit monitored)"
    by (simp add: monitored_init_def with_config_def wasi_runtime_new_def map_err_def)
  then show ?thesis by (auto simp: example_start_def)
qed

lemma example_reachable: "reachable 2 100 example_start" "reachable 2 100 example_submitted"
  unfolding example_submitted_def by (intro reachable_client reachable_init example_start_eq)+

lemma example_valid: "validate example_request = Inr ()" "cr_mode example_request = Wasi"
  using example_checks by (simp_all add: example_request_def)

lemma example_start_fields:
  "fcard (fmdom (bs_handles example_start)) = 0" "ab_capacity example_start = 2"
  "ab_worker_up example_start" "ab_queue example_start = []" "bs_pending example_start = fmempty"
  "ab_next_channel example_start = 0" "bs_handles example_start = fmempty"
  "ab_signals example_start = cancel_store_init"
  by (simp_all add: example_start_def monitored_init_def with_config_def wasi_runtime_new_def map_err_def
      action_broker.extend_def monitored.fields_def)

lemma example_submitted_fields:
  "ab_queue example_submitted = [new_job SinkOutcome () example_request 0]"
  "fmlookup (bs_handles example_submitted) (cr_id example_request) = Some (CancelHandle 0)"
  "\<not> is_cancelled (ab_signals example_submitted) (CancelHandle 0)"
  by (simp_all add: example_submitted_def submit_def submit_job_eq example_valid example_start_fields Let_def
      cancel_handle_new_def cancel_store_init_def is_cancelled_def fcard.rep_eq)


section \<open>Properties\<close>

text \<open>
  C1. Human approval gates every risk: in any history, if the turn of the next queued session
  can depend on the guest, the host or the threads around it at all, then the session is
  read-only or a caller approved this very session after being asked for its risk.
\<close>

theorem risk_needs_approval:
  assumes "reachable capacity timeout b" and "ab_queue b = job # rest"
    and "process_job_guarded be meanwhile now job (b\<lparr>ab_queue := rest\<rparr>)
         \<noteq> process_job_guarded be' meanwhile' now job (b\<lparr>ab_queue := rest\<rparr>)"
  shows "classify_risk (job_request job) = AutoApprove
    \<or> channel_of job \<in> set (mo_approved b)
      \<and> (\<exists>reason. classify_risk (job_request job) = RequiresApproval reason
           \<and> ab_sent b (channel_of job) = [pending_message (job_sink job) reason])"
proof (cases "classify_risk (job_request job)")
  case (RequiresApproval reason)
  have "job_admission job = Approved"
  proof (rule ccontr)
    assume "job_admission job \<noteq> Approved"
    then have "process_job be meanwhile now job (b\<lparr>ab_queue := rest\<rparr>)
        = process_job be' meanwhile' now job (b\<lparr>ab_queue := rest\<rparr>)
      \<and> fst (process_job be meanwhile now job (b\<lparr>ab_queue := rest\<rparr>)) = Returned ()"
      using RequiresApproval by (simp add: process_job_def split: option.splits)
    then show False using assms(3) by (simp add: process_job_guarded_def)
  qed
  moreover have "queued_ok (b\<lparr>ab_queue := rest\<rparr>) job"
    using take_job(2) [OF reachable_inv [OF assms(1)] assms(2)] .
  ultimately show ?thesis by (simp add: queued_ok_def asked_def)
qed simp

theorem risk_needs_approval_witness:
  "classify_risk example_request = AutoApprove"
proof -
  let ?job = "new_job SinkOutcome () example_request 0" and ?b = "example_submitted\<lparr>ab_queue := []\<rparr>"
  let ?be = "example_backend\<lparr>be_panics := \<lambda>_. Some []\<rparr>"
  have job: "job_request ?job = example_request" "job_sink ?job = SinkOutcome 0"
    "job_session ?job = session_new (cr_id example_request) (cg_limits (cr_grant example_request))"
    by (simp_all add: new_job_def)
  have look: "fmlookup (bs_handles ?b) (cr_id (job_request ?job)) = Some (CancelHandle 0)"
    using example_submitted_fields(2) job by simp
  have auto: "classify_risk (job_request ?job) = AutoApprove"
    using example_auto(1) by (simp add: job example_auto_job_def)
  have started: "\<exists>s. accept (job_session ?job) Started = (s, Inr ())"
    by (simp add: job accept_def session_new_def)
  have live: "\<not> is_cancelled (ab_signals ?b) (CancelHandle 0)" using example_submitted_fields(3) by simp
  have "\<exists>x. process_job_guarded ?be id 0 ?job ?b = Some x \<and> ae_outcome (last (bs_audit x)) = AuditFailed"
    using look auto started live job
    by (auto simp: process_job_guarded_def process_job_def execute_and_release_def execute_def
        execute_capturing_def Let_def job_entry_def last_n_def DEFAULT_MAX_AUDIT_ENTRIES_def)
  moreover have "\<exists>x. process_job_guarded example_backend id 0 ?job ?b = Some x
      \<and> ae_outcome (last (bs_audit x)) = AuditCompleted 0"
  proof -
    obtain sc where sc: "build_store example_host example_request (h_env example_host) = Ok sc"
      using example_store_built by blast
    then show ?thesis
      using look auto started live job
      by (auto simp: process_job_guarded_def process_job_def execute_and_release_def execute_def
          execute_capturing_def Let_def job_entry_def last_n_def DEFAULT_MAX_AUDIT_ENTRIES_def
          example_backend_def run_wasi_cancellable_def run_wasi_inner_def example_host_def audit_of_def
          audit_record_eq)
  qed
  ultimately have "process_job_guarded ?be id 0 ?job ?b \<noteq> process_job_guarded example_backend id 0 ?job ?b"
    by auto
  from risk_needs_approval [OF example_reachable(2) example_submitted_fields(1) this]
  show ?thesis using auto job by simp
qed

text \<open>
  C3. Every caller hears a well-formed story: in any history the messages on a channel are an
  optional request for approval and then at most one end, with the start and the output
  between them on a streaming channel; nothing follows the end.
\<close>

theorem channels_follow_protocol:
  assumes "reachable capacity timeout b"
  shows "channel_protocol (ab_sent b c)"
  using reachable_inv [OF assms] by (simp add: broker_inv_def channels_ok_def)

theorem channels_follow_protocol_witness:
  "channel_protocol (ab_sent (client_step (OpDeny 7) example_submitted) 0)"
  by (rule channels_follow_protocol [OF reachable_client [OF example_reachable(2)]])

text \<open>
  The broker stays small: in any history the number of registered session ids never
  exceeds the capacity it was created with, and the audit trail never exceeds its bound.
\<close>

theorem broker_stays_bounded:
  assumes "reachable capacity timeout b"
  shows "fcard (fmdom (bs_handles b)) \<le> unat capacity
    \<and> length (audit_trail b) \<le> DEFAULT_MAX_AUDIT_ENTRIES"
  using reachable_inv [OF assms] reachable_capacity [OF assms]
  by (simp add: broker_inv_def sizes_ok_def audit_trail_def)

theorem broker_stays_bounded_witness:
  "fcard (fmdom (bs_handles example_submitted)) \<le> 2"
  using broker_stays_bounded [OF example_reachable(2)] by simp

text \<open>
  C38. The capacity does not bound the sessions: ids may repeat, so a caller that submits one
  request under the same id again and again queues any number of sessions on a broker of
  capacity two, with a single registered handle.
\<close>

theorem repeated_id_escapes_capacity:
  assumes "validate r = Ok ()" and "cr_mode r = Wasi" and "2 \<le> unat capacity"
  shows "\<exists>b :: 'c monitored. reachable capacity timeout b \<and> length (ab_queue b) = n
    \<and> fcard (fmdom (bs_handles b)) \<le> 1"
proof -
  let ?ok = "\<lambda>n (b :: 'c monitored). reachable capacity timeout b \<and> length (ab_queue b) = n
     \<and> fmdom (bs_handles b) |\<subseteq>| {|cr_id r|} \<and> ab_worker_up b"
  have "\<exists>b. ?ok n b"
  proof (induction n)
    case 0
    have "capacity \<noteq> 0" using assms(3) by auto
    then obtain b :: "'c monitored" where b: "monitored_init capacity timeout = Ok b" "ab_queue b = []"
      "bs_handles b = fmempty" "ab_worker_up b"
      by (auto simp: monitored_init_def with_config_def wasi_runtime_new_def map_err_def
          action_broker.extend_def monitored.fields_def)
    then have "?ok 0 b" by (auto intro: reachable_init)
    then show ?case by blast
  next
    case (Suc n)
    then obtain b where b: "?ok n b" by blast
    let ?b' = "client_step (OpSubmit undefined r) b"
    have "fcard (fmdom (bs_handles b)) \<le> fcard {|cr_id r|}" using b by (intro fcard_mono) simp
    then have room: "\<not> unat (ab_capacity b) \<le> fcard (fmdom (bs_handles b))"
      using assms(3) reachable_capacity [of capacity timeout b] b by (simp add: fcard.rep_eq)
    have "?ok (Suc n) ?b'"
      using b room assms(1,2) reachable_client [of capacity timeout b "OpSubmit undefined r"]
      by (auto simp: submit_def submit_job_eq Let_def)
    then show ?case by blast
  qed
  then obtain b where b: "?ok n b" by blast
  have "fcard (fmdom (bs_handles b)) \<le> fcard {|cr_id r|}" using b by (intro fcard_mono) simp
  then show ?thesis using b by (intro exI [of _ b]) (simp add: fcard.rep_eq)
qed

theorem repeated_id_escapes_capacity_witness:
  "\<exists>b :: unit monitored. reachable 2 100 b \<and> length (ab_queue b) = 1000 \<and> fcard (fmdom (bs_handles b)) \<le> 1"
  using repeated_id_escapes_capacity [OF example_valid, of 2 100 1000] by simp

end
