(* ===== verification/Live_Sessions.thy ===== *)
theory Live_Sessions
  imports Broker_Runs
begin

text \<open>
  The sessions a broker answers for.  Callers who never reuse the id of a registered session
  get what the broker promises them: every live session is registered under its id, so it
  can be cancelled, and there are never more of them than the capacity.  And whoever waits
  for a queued session is answered: a worker left alone empties the queue, and each session
  in it ends or asks for approval.  When the broker is dropped while a guest runs, that guest
  is interrupted and no other starts.
\<close>

section \<open>Histories without repeated ids\<close>

fun fresh_op :: "'c client_op \<Rightarrow> ('c, 'z) action_broker_scheme \<Rightarrow> bool" where
  "fresh_op (OpSubmit _ r) b = (cr_id r |\<notin>| fmdom (bs_handles b))"
| "fresh_op (OpSubmitStreaming _ r) b = (cr_id r |\<notin>| fmdom (bs_handles b))"
| "fresh_op _ _ = True"

text \<open>While a guest runs, callers keep to the rule as well.\<close>

definition fresh_steps :: "'c client_op list \<Rightarrow> 'c monitored \<Rightarrow> 'c monitored" where
  "fresh_steps ops b = fold (\<lambda>op b. if fresh_op op b then client_step op b else b) ops b"

inductive fresh_history :: "usize \<Rightarrow> nat \<Rightarrow> 'c monitored \<Rightarrow> bool" for capacity timeout where
  fresh_init: "monitored_init capacity timeout = Ok b \<Longrightarrow> fresh_history capacity timeout b"
| fresh_client: "fresh_history capacity timeout b \<Longrightarrow> fresh_op op b \<Longrightarrow>
    fresh_history capacity timeout (client_step op b)"
| fresh_worker: "fresh_history capacity timeout b \<Longrightarrow>
    worker_turn be (fresh_steps ops) now b = Some b' \<Longrightarrow> fresh_history capacity timeout b'"

section \<open>The accounts\<close>

definition job_id :: "'c job \<Rightarrow> u64" where
  "job_id job = cr_id (job_request job)"

text \<open>\<open>busy\<close> are the ids in the worker's hands.\<close>

definition accounted :: "u64 list \<Rightarrow> ('c, 'z) action_broker_scheme \<Rightarrow> bool" where
  "accounted busy b \<longleftrightarrow>
     distinct (map job_id (ab_queue b) @ busy)
   \<and> set (map job_id (ab_queue b) @ busy) \<inter> fset (fmdom (bs_pending b)) = {}
   \<and> set (map job_id (ab_queue b) @ busy) \<union> fset (fmdom (bs_pending b)) \<subseteq> fset (fmdom (bs_handles b))
   \<and> fcard (fmdom (bs_handles b)) \<le> unat (ab_capacity b)
   \<and> (\<forall>i p. fmlookup (bs_pending b) i = Some p \<longrightarrow> job_id (pj_job p) = i)"

lemma accounted_cong:
  assumes "accounted busy b" "ab_queue b' = ab_queue b" "bs_pending b' = bs_pending b"
    "bs_handles b' = bs_handles b" "ab_capacity b' = ab_capacity b"
  shows "accounted busy b'"
  using assms by (simp add: accounted_def)

text \<open>A parked session leaves with its handle; a session in hand is done with its handle.\<close>

lemma accounted_close_parked:
  assumes "accounted busy b" "fmlookup (bs_pending b) i = Some p" "ab_queue b' = ab_queue b"
    "bs_pending b' = fmdrop i (bs_pending b)" "bs_handles b' = fmdrop i (bs_handles b)"
    "ab_capacity b' = ab_capacity b"
  shows "accounted busy b'"
proof -
  have i: "i \<in> fset (fmdom (bs_pending b))" using assms(2) by (meson fmdomI)
  then have "i \<notin> set (map job_id (ab_queue b) @ busy)" using assms(1) unfolding accounted_def by blast
  moreover have "fcard (fmdom (fmdrop i (bs_handles b))) \<le> unat (ab_capacity b)"
    using assms(1) fcard_fmdrop [of i "bs_handles b"] by (simp add: accounted_def)
  ultimately show ?thesis
    using assms(1) unfolding accounted_def assms(3-6) by (auto split: if_splits)
qed

lemma accounted_done:
  assumes "accounted [i] b" "ab_queue b' = ab_queue b" "bs_pending b' = bs_pending b"
    "bs_handles b' = fmdrop i (bs_handles b)" "ab_capacity b' = ab_capacity b"
  shows "accounted [] b'"
  using assms(1) fcard_fmdrop [of i "bs_handles b"] unfolding accounted_def assms(2-5) by auto

lemma accounted_take:
  assumes "accounted [] b" "ab_queue b = job # rest"
  shows "accounted [job_id job] (b\<lparr>ab_queue := rest\<rparr>)"
  using assms by (auto simp: accounted_def)

section \<open>The callers\<close>

lemma accounted_submit:
  assumes "accounted busy b" "cr_id r |\<notin>| fmdom (bs_handles b)"
  shows "accounted busy (fst (submit_job sink component r b))"
proof -
  have new: "job_id (new_job sink component r c) = cr_id r" for c by (simp add: job_id_def new_job_def)
  have fresh: "cr_id r \<notin> set (map job_id (ab_queue b) @ busy)" "cr_id r \<notin> fset (fmdom (bs_pending b))"
    using assms unfolding accounted_def by blast+
  have card: "fcard (finsert (cr_id r) (fmdom (bs_handles b))) \<le> unat (ab_capacity b)"
    if "\<not> unat (ab_capacity b) \<le> fcard (fmdom (bs_handles b))"
    using that assms(2) by (simp add: fcard_finsert_disjoint)
  have "fmdrop (cr_id r) (fmupd (cr_id r) h (bs_handles b)) = bs_handles b" for h
    using assms(2) by (intro fmap_ext) (auto simp: fmdom_notD)
  then show ?thesis
    using assms(1) fresh card by (auto simp: submit_job_eq Let_def accounted_def new)
qed

lemma accounted_client:
  fixes b :: "'c monitored"
  assumes "accounted busy b" "fresh_op op b"
  shows "accounted busy (client_step op b)"
proof -
  have close: "accounted busy (close_session i (pj_job p) t d out (c\<lparr>bs_pending := fmdrop i (bs_pending c)\<rparr>))"
    if "accounted busy c" "fmlookup (bs_pending c) i = Some p" for i p t d out and c :: "'c monitored"
    by (rule accounted_close_parked [OF that]) simp_all
  have sweep: "accounted busy (sweep_one i c)" if "accounted busy c" for i and c :: "'c monitored"
    using that close by (auto simp: sweep_one_def split: option.split)
  have sweeps: "accounted busy (fold sweep_one ids c)" if "accounted busy c" for ids and c :: "'c monitored"
    using that by (induction ids arbitrary: c) (simp_all add: sweep)
  show ?thesis
  proof (cases op)
    case (OpApprove i)
    let ?n = "note_approval i b"
    have n: "accounted busy ?n" "bs_pending ?n = bs_pending b"
      by (rule accounted_cong [OF assms(1)]) (simp_all add: note_approval_def split: option.split)
    show ?thesis
    proof (cases "fmlookup (bs_pending b) i")
      case None
      then show ?thesis using n OpApprove by (simp add: approve_def)
    next
      case (Some p)
      let ?m = "?n\<lparr>bs_pending := fmdrop i (bs_pending ?n)\<rparr>"
      have id: "job_id (pj_job p) = i" using assms(1) Some by (simp add: accounted_def)
      have closed: "accounted busy (close_session i (pj_job p) t d out ?m)" for t d out
        using close [OF n(1)] Some n(2) by simp
      have gone: "accounted busy (release i ?m)"
        by (rule accounted_close_parked [OF n(1), of i p]) (simp_all add: Some n(2) release_def)
      have i: "i \<in> fset (fmdom (bs_pending ?n))" using Some n(2) by (metis fmdomI)
      have "accounted busy (?m\<lparr>ab_queue := ab_queue ?m @ [(pj_job p)\<lparr>job_admission := Approved\<rparr>]\<rparr>)"
        using n(1) i id unfolding accounted_def by (auto simp: job_id_def)
      then show ?thesis using Some n(2) OpApprove closed gone by (simp add: approve_def Let_def)
    qed
  next
    case (OpDeny i)
    then show ?thesis using assms(1) close by (auto simp: deny_def split: option.split)
  next
    case (OpCancel i)
    have "accounted busy (b\<lparr>ab_signals := m\<rparr>)" for m by (rule accounted_cong [OF assms(1)]) simp_all
    then show ?thesis using OpCancel assms(1) close by (auto simp: cancel_def split: option.split)
  next
    case (OpHangUp c)
    then show ?thesis using accounted_cong [OF assms(1), of "hang_up c b"] by (simp add: hang_up_def)
  qed (use assms accounted_submit sweeps in \<open>auto simp: submit_def submit_streaming_def sweep_def\<close>)
qed

lemma accounted_fresh_steps: "accounted busy b \<Longrightarrow> accounted busy (fresh_steps ops b)"
  unfolding fresh_steps_def
  by (induction ops arbitrary: b) (simp_all add: accounted_client)

section \<open>The worker\<close>

lemma send_all_worker [simp]: "ab_worker_up (chan.send_all c ms b) = ab_worker_up b"
  by (induction ms arbitrary: b) simp_all

lemma accounted_send_all: "accounted busy b \<Longrightarrow> accounted busy (chan.send_all c ms b)"
  by (rule accounted_cong) simp_all

lemma accounted_execute:
  assumes "accounted busy b" "execute be (fresh_steps ops) job handle b = (call, job1, b1)"
  shows "accounted busy b1"
proof -
  have "accounted busy (send_events c [Started] b)" for c
    by (rule accounted_cong [OF assms(1)]) simp_all
  then have "accounted busy (after_run (fresh_steps ops) job handle b)"
    using assms(1) by (auto simp: after_run_def intro: accounted_fresh_steps split: job_sink.split)
  then show ?thesis
    using execute_execution [OF assms(2)] accounted_send_all by (auto simp: execution_def)
qed

lemma accounted_park:
  assumes "accounted [job_id job] b" "fmlookup (bs_handles b) (job_id job) = Some handle"
  shows "accounted [] (park_job now reason job b)"
proof -
  let ?i = "job_id job" and ?c = "sink_channel (job_sink job)"
  let ?p = "\<lparr>pj_job = note_event job (PendingApproval reason), pj_deadline = now + bs_approval_timeout b\<rparr>"
  let ?b = "b\<lparr>bs_pending := fmupd ?i ?p (bs_pending b)\<rparr>"
  have handle: "?i \<in> fset (fmdom (bs_handles b))" using assms(2) by (meson fmdomI)
  have id: "job_id (pj_job ?p) = ?i" by (simp add: job_id_def)
  have parked: "accounted [] ?b" using assms(1) handle id unfolding accounted_def by auto
  show ?thesis
  proof (cases "ab_open b ?c")
    case True
    then have "park_job now reason job b = snd (channel_send ?c (pending_message (job_sink job) reason) ?b)"
      by (simp add: park_job_def job_id_def Let_def channel_send_def)
    moreover have "accounted [] (snd (channel_send ?c (pending_message (job_sink job) reason) ?b))"
      by (rule accounted_cong [OF parked]) simp_all
    ultimately show ?thesis by simp
  next
    case False
    have "fmdrop ?i (fmupd ?i q m) = fmdrop ?i m" for q and m :: "(u64, 'a pending_job) fmap"
      by (rule fmap_ext) simp
    then have park: "park_job now reason job b = release ?i (b\<lparr>bs_pending := fmdrop ?i (bs_pending b)\<rparr>)"
      using False by (simp add: park_job_def job_id_def Let_def channel_send_def)
    have "?i |\<notin>| fmdom (bs_pending b)" using assms(1) unfolding accounted_def by auto
    then have "fmdrop ?i (bs_pending b) = bs_pending b" by (intro fmap_ext) (auto simp: fmdom_notD)
    then show ?thesis unfolding park
      by (intro accounted_done [OF assms(1)]) (simp_all add: release_def)
  qed
qed

lemma accounted_turn:
  assumes "accounted [] b" "worker_turn be (fresh_steps ops) now b = Some b'"
  shows "accounted [] b'"
proof (cases "ab_queue b")
  case (Cons job rest)
  let ?b = "b\<lparr>ab_queue := rest\<rparr>" and ?i = "job_id job"
  have busy: "accounted [?i] ?b" using accounted_take [OF assms(1) Cons] .
  have turn: "process_job_guarded be (fresh_steps ops) now job ?b = Some b'"
    using assms(2) Cons by (simp add: worker_turn_def)
  have "?i \<in> fset (fmdom (bs_handles ?b))" using busy unfolding accounted_def by simp
  then obtain handle where handle: "fmlookup (bs_handles ?b) ?i = Some handle" by (meson fmdomE)
  note handle' = handle [unfolded job_id_def]
  consider (parked) reason where "b' = park_job now reason job ?b"
    | (ran) "process_job be (fresh_steps ops) now job ?b
          = execute_and_release be (fresh_steps ops) job handle (job_admission job) ?b"
    using turn handle' process_job_admitted [OF handle']
    by (cases "classify_risk (job_request job)"; cases "job_admission job = Approved")
      (auto simp: process_job_guarded_def process_job_def)
  then show ?thesis
  proof cases
    case parked
    then show ?thesis using accounted_park [OF busy handle] by simp
  next
    case ran
    obtain call job1 b1 where ex: "execute be (fresh_steps ops) job handle ?b = (call, job1, b1)"
      by (metis prod.exhaust)
    have b1: "accounted [?i] b1" by (rule accounted_execute [OF busy ex])
    consider audit where "b' = release ?i (audit_record (job_entry ?i job1 (job_admission job) audit) b1)"
      | t where "b' = close_session ?i job t (job_admission job) AuditFailed b1"
      using turn ex execute_job(1) [OF ex] unfolding process_job_guarded_def ran
      by (cases call) (auto simp: execute_and_release_def Let_def job_id_def)
    then show ?thesis
    proof cases
      case 1
      then show ?thesis
        by (intro accounted_done [OF b1]) (simp_all add: audit_record_eq release_def)
    next
      case 2
      then show ?thesis by (intro accounted_done [OF b1]) simp_all
    qed
  qed
qed (use assms in \<open>simp add: worker_turn_def\<close>)

lemma fresh_history_accounted: "fresh_history capacity timeout b \<Longrightarrow> accounted [] b \<and> ab_capacity b = capacity"
proof (induction rule: fresh_history.induct)
  case (fresh_init b)
  then show ?case
    by (auto simp: monitored_init_def with_config_def wasi_runtime_new_def map_err_def accounted_def
        action_broker.extend_def monitored.fields_def fcard.rep_eq split: if_splits)
next
  case (fresh_client b op)
  then show ?case using accounted_client client_step_capacity by metis
next
  case (fresh_worker b be ops now b')
  have "ab_capacity (fresh_steps ops c) = ab_capacity c" for c :: "'a monitored"
    unfolding fresh_steps_def by (induction ops arbitrary: c) (simp_all add: client_step_capacity)
  then show ?case using accounted_turn [of b be ops now b'] worker_turn_capacity fresh_worker by metis
qed

section \<open>A worker left alone\<close>

text \<open>Every interleaving of the backend lasts until its reader is done, as a join waits for it.\<close>

definition readers_end :: "'c backend \<Rightarrow> bool" where
  "readers_end be = (\<forall>component store budget ticks.
     sr_pc (stream_run budget ticks (snd (be_stream_guest be component store))) = ReaderDone)"

lemma readers_end_run:
  assumes "readers_end be"
  shows "run_wasi_events h (\<lambda>comp store. case be_stream_guest be comp store of (res, actions) \<Rightarrow> (res, actions, m))
      component r handle es \<noteq> None"
proof (cases "build_store h r (h_env h)")
  case (Inr store)
  obtain res actions where guest: "be_stream_guest be component store = (res, actions)"
    by (cases "be_stream_guest be component store")
  have "sr_pc (stream_run budget ticks actions) = ReaderDone" for budget ticks
    using assms guest unfolding readers_end_def by (metis snd_conv)
  then show ?thesis
    using Inr guest by (simp add: run_wasi_events_def run_wasi_events_impl_def Let_def split: option.split guest_result.split)
qed (simp add: run_wasi_events_def run_wasi_events_impl_def)

lemma readers_end_returns:
  assumes "readers_end be"
  shows "fst (execute be meanwhile job handle b) \<noteq> NeverReturns"
proof -
  have "fst (execute_capturing be meanwhile job handle b) \<noteq> NeverReturns"
    by (auto simp: execute_capturing_def Let_def split: prod.splits sum.splits runtime_error.splits)
  moreover have "fst (execute_streaming be meanwhile job handle b) \<noteq> NeverReturns"
    by (auto simp: execute_streaming_def Let_def dest: notE [OF readers_end_run [OF assms]]
        split: job_sink.splits prod.splits sum.splits option.splits runtime_error.splits)
  ultimately show ?thesis
    by (auto simp: execute_def split: job_sink.splits prod.splits call.splits)
qed

definition answered :: "message list \<Rightarrow> bool" where
  "answered ms = (ms \<noteq> [] \<and> (ends_session (last ms)
     \<or> (\<exists>reason. last ms = Outcome (OutPendingApproval reason) \<or> last ms = Event (PendingApproval reason))))"

lemma answered_end [simp]:
  "ends_session m \<Longrightarrow> answered (ms @ [m])" "ends_session m \<Longrightarrow> answered (ms @ ns @ [m])"
  by (simp_all add: answered_def)

lemma answered_request [simp]: "answered (ms @ [pending_message sink reason])"
  by (simp add: answered_def pending_message_def split: job_sink.split)

text \<open>One turn answers its session and leaves the other channels alone.\<close>

definition serves :: "'c job \<Rightarrow> 'c monitored \<Rightarrow> 'c monitored \<Rightarrow> bool" where
  "serves job b b' \<longleftrightarrow> ab_queue b' = ab_queue b \<and> ab_open b' = ab_open b
     \<and> (\<forall>c. c \<noteq> channel_of job \<longrightarrow> ab_sent b' c = ab_sent b c)
     \<and> (ab_open b (channel_of job) \<longrightarrow> answered (ab_sent b' (channel_of job)))"

lemma send_all_open_eq [simp]: "ab_open (chan.send_all c ms b) = ab_open b"
  by (rule ext) (rule chan.send_all_open)

lemma turn_serves:
  fixes b :: "'c monitored"
  assumes "readers_end be"
  shows "\<exists>b'. process_job_guarded be (client_steps []) now job b = Some b' \<and> serves job b b'"
proof (cases "fmlookup (bs_handles b) (cr_id (job_request job))")
  case None
  then show ?thesis
    using terminal_message_ends(1)
    by (simp add: process_job_guarded_def process_job_def serves_def channel_of_def send_terminal_def chan.send_sent)
next
  case (Some handle)
  consider reason where "classify_risk (job_request job) = RequiresApproval reason" "job_admission job \<noteq> Approved"
    | "classify_risk (job_request job) = AutoApprove \<or> job_admission job = Approved"
    by (cases "classify_risk (job_request job)") auto
  then show ?thesis
  proof cases
    case 1
    then show ?thesis using Some
      by (simp add: process_job_guarded_def process_job_def park_job_def Let_def case_prod_beta serves_def
          channel_of_def chan.send_sent chan.send_reports)
  next
    case 2
    obtain call job1 b1 where ex: "execute be (client_steps []) job handle b = (call, job1, b1)"
      by (metis prod.exhaust)
    have base: "ab_queue (after_run (client_steps []) job handle b) = ab_queue b"
      "ab_open (after_run (client_steps []) job handle b) = ab_open b"
      "c \<noteq> channel_of job \<Longrightarrow> ab_sent (after_run (client_steps []) job handle b) c = ab_sent b c" for c
      by (auto simp: after_run_def client_steps_def channel_of_def sink_channel_def split: job_sink.split)
    note process = process_job_admitted [OF Some 2, of be "client_steps []" now]
    show ?thesis
    proof (cases call)
      case (Returned audit)
      obtain pre m where b1: "b1 = chan.send_all (channel_of job) (pre @ [m]) (after_run (client_steps []) job handle b)"
        "terminal_audit m = Some audit"
        using executionE [OF execute_execution [OF ex, unfolded Returned]] unfolding channel_of_def by metis
      then have "ends_session m" by (simp add: ends_session_def)
      then have "answered (ab_sent b1 (channel_of job))" if "ab_open b (channel_of job)"
        using b1(1) that base(2) by (simp add: chan.send_all_sent chan.send_sent)
      then show ?thesis
        using ex b1(1) base Returned unfolding process_job_guarded_def process
        by (simp add: execute_and_release_def Let_def serves_def audit_record_eq chan.send_all_sent chan.send_sent)
    next
      case Panicked
      obtain ms where "b1 = chan.send_all (channel_of job) ms (after_run (client_steps []) job handle b)"
        using execute_execution [OF ex] by (auto simp: execution_def channel_of_def)
      then show ?thesis
        using ex base Panicked terminal_message_ends(1) unfolding process_job_guarded_def process
        by (simp add: execute_and_release_def serves_def chan.send_all_sent channel_of_def)
    next
      case NeverReturns
      then show ?thesis using readers_end_returns [OF assms, of "client_steps []" job handle b] ex by simp
    qed
  qed
qed

lemma loop_serves:
  fixes b :: "'c monitored"
  assumes "readers_end be" "distinct (map channel_of (ab_queue b))"
  shows "\<exists>b'. worker_loop be (client_steps []) now b = Some b' \<and> ab_queue b' = []
    \<and> (\<forall>job \<in> set (ab_queue b). ab_open b (channel_of job) \<longrightarrow> answered (ab_sent b' (channel_of job)))
    \<and> (\<forall>c. c \<notin> channel_of ` set (ab_queue b) \<longrightarrow> ab_sent b' c = ab_sent b c)"
  using assms(2)
proof (induction "ab_queue b" arbitrary: b)
  case Nil
  then show ?case by (simp add: worker_loop.simps)
next
  case (Cons job rest)
  obtain d where d: "process_job_guarded be (client_steps []) now job (b\<lparr>ab_queue := rest\<rparr>) = Some d"
    "serves job (b\<lparr>ab_queue := rest\<rparr>) d"
    using turn_serves [OF assms(1)] by blast
  then have d': "ab_queue d = rest" "ab_open d = ab_open b"
    "\<And>c. c \<noteq> channel_of job \<Longrightarrow> ab_sent d c = ab_sent b c"
    "ab_open b (channel_of job) \<Longrightarrow> answered (ab_sent d (channel_of job))"
    by (simp_all add: serves_def)
  have loop: "worker_loop be (client_steps []) now b = worker_loop be (client_steps []) now d"
    using d(1) by (subst worker_loop.simps) (simp add: worker_turn_def flip: Cons.hyps(2))
  have "distinct (map channel_of (ab_queue d))" using Cons.prems d'(1) by (simp flip: Cons.hyps(2))
  from Cons.hyps(1) [OF d'(1) [symmetric] this] obtain b' where b':
    "worker_loop be (client_steps []) now d = Some b'" "ab_queue b' = []"
    "\<forall>j \<in> set rest. ab_open b (channel_of j) \<longrightarrow> answered (ab_sent b' (channel_of j))"
    "\<forall>c. c \<notin> channel_of ` set rest \<longrightarrow> ab_sent b' c = ab_sent d c"
    unfolding d'(1,2) by blast
  have "channel_of job \<notin> channel_of ` set rest" using Cons.prems by (simp flip: Cons.hyps(2))
  then have "ab_sent b' (channel_of job) = ab_sent d (channel_of job)" using b'(4) by blast
  then show ?case using loop b' d'(3,4) by (intro exI [of _ b']) (simp flip: Cons.hyps(2))
qed

section \<open>Dropping a broker whose guest runs\<close>

text \<open>What the worker still does to a broker whose handles are all cancelled keeps them so.\<close>

lemma all_cancelled_cong:
  assumes "all_cancelled b" "ab_signals b' = ab_signals b" "fmdom (bs_handles b') |\<subseteq>| fmdom (bs_handles b)"
    "\<And>i. i |\<in>| fmdom (bs_handles b') \<Longrightarrow> fmlookup (bs_handles b') i = fmlookup (bs_handles b) i"
  shows "all_cancelled b'"
  using assms unfolding all_cancelled_def by (metis fmdomI)

lemma all_cancelled_send_all: "all_cancelled b \<Longrightarrow> all_cancelled (chan.send_all c ms b)"
  by (simp add: all_cancelled_def)

lemma all_cancelled_closed:
  "all_cancelled b \<Longrightarrow> all_cancelled (release i (audit_record e b))"
  "all_cancelled b \<Longrightarrow> all_cancelled (close_session i job t d out b)"
  by (auto simp: all_cancelled_def audit_record_eq split: if_splits)

lemma dropped_turn:
  fixes b :: "('c, 'z) action_broker_scheme"
  assumes "fmlookup (bs_handles b) (cr_id (job_request job)) = Some handle"
    and "classify_risk (job_request job) = AutoApprove \<or> job_admission job = Approved"
    and "starts job handle b" and "fset (fmdom (bs_handles b)) \<subseteq> set order"
    and "process_job_guarded be (begin_drop order) now job b = Some b1"
  shows "all_cancelled b1" and "ab_queue b1 = ab_queue b" and "is_cancelled (ab_signals b1) handle"
proof -
  let ?r = "after_run (begin_drop order) job handle b"
  obtain call job1 d where ex: "execute be (begin_drop order) job handle b = (call, job1, d)"
    by (metis prod.exhaust)
  have "all_cancelled (begin_drop order c)" if "bs_handles c = bs_handles b"
    for c :: "('c, 'z) action_broker_scheme"
    using begin_drop_cancels [of c order] that assms(4) by simp
  then have r: "all_cancelled ?r"
    using assms(3) by (simp add: after_run_def split: job_sink.split)
  have frame: "ab_queue ?r = ab_queue b" "bs_handles ?r = bs_handles b"
    using assms(3) by (simp_all add: after_run_def begin_drop_def split: job_sink.split)
  then have raised: "is_cancelled (ab_signals ?r) handle"
    using assms(1) r by (simp add: all_cancelled_def)
  obtain ms where "d = chan.send_all (sink_channel (job_sink job)) ms ?r"
    using execute_execution [OF ex] by (auto simp: execution_def)
  then have "all_cancelled d" "ab_queue d = ab_queue b" "is_cancelled (ab_signals d) handle"
    using r frame raised by (simp_all add: all_cancelled_send_all)
  then show "all_cancelled b1" "ab_queue b1 = ab_queue b" "is_cancelled (ab_signals b1) handle"
    using assms(5) ex unfolding process_job_guarded_def process_job_admitted [OF assms(1,2)]
    by (cases call; auto simp: execute_and_release_def Let_def audit_record_eq all_cancelled_closed
          all_cancelled_closed(1) [unfolded audit_record_eq])+
qed

section \<open>A short history\<close>

lemma example_fresh: "fresh_history 2 100 example_submitted"
proof -
  have "fresh_op (OpSubmit () example_request) example_start" by (simp add: example_start_fields)
  from fresh_client [OF fresh_init [OF example_start_eq] this] show ?thesis
    by (simp add: example_submitted_def)
qed

definition silent_backend :: "unit backend" where
  "silent_backend = example_backend\<lparr>be_stream_guest := \<lambda>_ _. (GuestOk, silent_run)\<rparr>"

lemma silent_backend_ends: "readers_end silent_backend"
  by (simp add: readers_end_def silent_backend_def silent_run)

section \<open>Properties\<close>

text \<open>
  With fresh ids the capacity is a capacity: in any history in which no caller submits an id
  that is still registered, also while guests run, the queued and the parked sessions
  together never exceed the capacity.
\<close>

theorem fresh_ids_respect_capacity:
  assumes "fresh_history capacity timeout b"
  shows "length (ab_queue b) + fcard (fmdom (bs_pending b)) \<le> unat capacity"
proof -
  have acc: "accounted [] b" and cap: "ab_capacity b = capacity"
    using fresh_history_accounted [OF assms] by simp_all
  let ?Q = "set (map job_id (ab_queue b))" and ?P = "fset (fmdom (bs_pending b))"
  have "length (ab_queue b) = card ?Q"
    using acc distinct_card [of "map job_id (ab_queue b)"] by (simp add: accounted_def)
  moreover have "card ?Q + card ?P = card (?Q \<union> ?P)"
    using acc by (simp add: accounted_def card_Un_disjoint)
  moreover have "card (?Q \<union> ?P) \<le> card (fset (fmdom (bs_handles b)))"
    using acc by (intro card_mono) (simp_all add: accounted_def)
  ultimately show ?thesis using acc cap by (simp add: accounted_def fcard.rep_eq)
qed

theorem fresh_ids_respect_capacity_witness:
  "length (ab_queue example_submitted) + fcard (fmdom (bs_pending example_submitted)) \<le> 2"
  using fresh_ids_respect_capacity [OF example_fresh] by simp

text \<open>
  With fresh ids every live session can be cancelled: in any such history, a cancellation
  of a queued session succeeds and raises its signal, and one of a parked session succeeds
  and ends it on the channel of that session.
\<close>

theorem live_sessions_can_be_cancelled:
  assumes "fresh_history capacity timeout b"
  shows "(\<forall>job \<in> set (ab_queue b). snd (cancel (job_id job) b) = Ok ()
        \<and> session_cancelled (job_id job) (fst (cancel (job_id job) b)))
    \<and> (\<forall>i p. fmlookup (bs_pending b) i = Some p \<longrightarrow> job_id (pj_job p) = i \<and> snd (cancel i b) = Ok ()
        \<and> fmlookup (bs_pending (fst (cancel i b))) i = None
        \<and> (ab_open b (channel_of (pj_job p)) \<longrightarrow>
             ab_sent (fst (cancel i b)) (channel_of (pj_job p))
               = ab_sent b (channel_of (pj_job p)) @ [terminal_message (job_sink (pj_job p)) TermCancelled]))"
proof -
  have acc: "accounted [] b" using fresh_history_accounted [OF assms] by simp
  have "snd (cancel (job_id job) b) = Ok () \<and> session_cancelled (job_id job) (fst (cancel (job_id job) b))"
    if "job \<in> set (ab_queue b)" for job
  proof -
    have "job_id job \<in> fset (fmdom (bs_handles b))" "job_id job \<notin> fset (fmdom (bs_pending b))"
      using acc that unfolding accounted_def by auto
    then obtain handle where "fmlookup (bs_handles b) (job_id job) = Some handle"
      "fmlookup (bs_pending b) (job_id job) = None" by (meson fmdomE fmdom_notD)
    then show ?thesis by (simp add: cancel_def session_cancelled_def signal.raise_raises)
  qed
  moreover have "job_id (pj_job p) = i" if "fmlookup (bs_pending b) i = Some p" for i p
    using acc that by (simp add: accounted_def)
  ultimately show ?thesis by (simp add: cancel_def channel_of_def)
qed

theorem live_sessions_can_be_cancelled_witness:
  "snd (cancel 7 example_submitted) = Ok () \<and> session_cancelled 7 (fst (cancel 7 example_submitted))"
  using live_sessions_can_be_cancelled [OF example_fresh]
  by (simp add: example_submitted_fields job_id_def new_job_def example_request_def)

text \<open>
  Whoever waits is answered: from any broker a history reaches, a worker that nobody
  interrupts and whose streaming readers end empties the queue; each session that was in
  it and whose caller still listens has then ended or asked for approval, and no other
  channel has received anything.
\<close>

theorem queued_sessions_are_answered:
  assumes "reachable capacity timeout b" and "readers_end be"
  shows "\<exists>b'. worker_loop be (client_steps []) now b = Some b' \<and> ab_queue b' = []
    \<and> (\<forall>job \<in> set (ab_queue b). ab_open b (channel_of job) \<longrightarrow> answered (ab_sent b' (channel_of job)))
    \<and> (\<forall>c. c \<notin> channel_of ` set (ab_queue b) \<longrightarrow> ab_sent b' c = ab_sent b c)"
proof (rule loop_serves [OF assms(2)])
  show "distinct (map channel_of (ab_queue b))"
    using reachable_inv [OF assms(1)] by (simp add: broker_inv_def sessions_ok_def)
qed

theorem queued_sessions_are_answered_witness:
  "\<exists>b'. worker_loop silent_backend (client_steps []) 0 example_submitted = Some b'
     \<and> answered (ab_sent b' 0)"
proof -
  have "ab_open example_submitted 0"
    by (simp add: example_submitted_def submit_def submit_job_eq example_valid example_start_fields Let_def
        fcard.rep_eq)
  moreover have "channel_of (new_job SinkOutcome () example_request 0) = 0"
    by (simp add: channel_of_def new_job_def sink_channel_def)
  ultimately show ?thesis
    using queued_sessions_are_answered [OF example_reachable(2) silent_backend_ends]
    by (auto simp: example_submitted_fields)
qed

text \<open>
  Dropping a broker while a guest runs interrupts it and starts no other: when the drop
  cancels every registered handle during the run of a session, that session's own signal
  is raised, and once the run is over the worker serves the rest of the queue to the end,
  in a way that depends on no guest.
\<close>

theorem drop_interrupts_running_session:
  assumes "ab_queue b = job # rest" and "fmlookup (bs_handles b) (cr_id (job_request job)) = Some handle"
    and "classify_risk (job_request job) = AutoApprove \<or> job_admission job = Approved"
    and "starts job handle b" and "fset (fmdom (bs_handles b)) \<subseteq> set order"
    and "worker_turn be (begin_drop order) now b = Some b1"
  shows "is_cancelled (ab_signals b1) handle \<and> ab_queue b1 = rest
    \<and> (\<exists>b'. (\<forall>be meanwhile. worker_loop be meanwhile now b1 = Some b') \<and> ab_queue b' = [] \<and> \<not> ab_worker_up b')"
proof -
  let ?b = "b\<lparr>ab_queue := rest\<rparr>"
  have turn: "process_job_guarded be (begin_drop order) now job ?b = Some b1"
    using assms(1,6) by (simp add: worker_turn_def)
  have "fmlookup (bs_handles ?b) (cr_id (job_request job)) = Some handle" "starts job handle ?b"
    "fset (fmdom (bs_handles ?b)) \<subseteq> set order"
    using assms(2,4,5) by (simp_all add: starts_def)
  note served = dropped_turn [OF this(1) assms(3) this(2,3) turn]
  then show ?thesis using cancelled_loop [OF served(1)] by simp
qed

theorem drop_interrupts_running_session_witness:
  "\<exists>b1. worker_turn silent_backend (begin_drop [7]) 0 example_submitted = Some b1
     \<and> is_cancelled (ab_signals b1) (CancelHandle 0)"
proof -
  let ?b = example_submitted and ?job = "new_job SinkOutcome () example_request 0"
  have job: "job_request ?job = example_request" "classify_risk example_request = AutoApprove"
    "cr_id example_request = 7"
    using example_auto(1) by (simp_all add: new_job_def example_auto_job_def example_request_def)
  have starts: "starts ?job (CancelHandle 0) ?b"
    using example_submitted_fields(3) by (simp add: starts_def new_job_def accept_def session_new_def is_ok_def)
  have handles: "fset (fmdom (bs_handles ?b)) \<subseteq> set [7]"
    by (simp add: example_submitted_def submit_def submit_job_eq example_valid example_start_fields Let_def
        fcard.rep_eq job(3))
  obtain b1 where turn: "worker_turn silent_backend (begin_drop [7]) 0 ?b = Some b1"
    using readers_end_returns [OF silent_backend_ends, of "begin_drop [7]" ?job "CancelHandle 0" "?b\<lparr>ab_queue := []\<rparr>"]
      example_submitted_fields job
    by (cases "execute silent_backend (begin_drop [7]) ?job (CancelHandle 0) (?b\<lparr>ab_queue := []\<rparr>)"; cases "fst
        (execute silent_backend (begin_drop [7]) ?job (CancelHandle 0) (?b\<lparr>ab_queue := []\<rparr>))")
      (auto simp: worker_turn_def process_job_guarded_def process_job_def execute_and_release_def Let_def)
  have "fmlookup (bs_handles ?b) (cr_id (job_request ?job)) = Some (CancelHandle 0)"
    using example_submitted_fields(2) job(1) by simp
  from drop_interrupts_running_session [OF example_submitted_fields(1) this _ starts handles turn] job
  show ?thesis using turn by auto
qed

end
