(* ===== verification/Broker_Locks.thy ===== *)
theory Broker_Locks
  imports Broker_Runs "HOL-Library.Multiset"
begin

text \<open>
  \<open>broker.rs\<close> at the granularity of its locks: between two critical sections, channel
  sends or atomic accesses of one operation, every other thread may run.  An action is one
  of these, with the data the thread carries from one to the next in its constructor; \<open>act\<close>
  executes it and says what the thread does next.  The theory \<open>Broker\<close> has the same
  operations as one step each; the refinement at the end relates the two.
\<close>

section \<open>Actions\<close>

datatype reply = Receiver nat | Accepted

datatype 'c action =
    Submit "nat \<Rightarrow> job_sink" 'c command_request
  | Enqueue "'c job"
  | Push u64 "'c job" reply
  | ApproveTake u64
  | ApproveLook u64 "'c job"
  | DenyTake u64
  | CancelTake u64
  | CancelLook u64
  | Raise cancel_handle
  | SweepList "u64 list" nat
  | ExpireTake u64
  | HangUp nat
  | Tell nat "message list"
  | Record audit_entry
  | Release u64
  | Return "broker_error + reply"
  | Look "'c job"
  | Start "'c job" cancel_handle approval_decision
  | Announce nat "'c job" cancel_handle approval_decision
  | Guest "'c job" cancel_handle approval_decision
  | Forward "message list" "'c job" cancel_handle approval_decision
      "cancel_store \<Rightarrow> (runtime_error + wasi_output) option"
  | Park "'c job" approval_reason
  | Notify u64 job_sink approval_reason
  | Unpark u64

text \<open>The end of a session that does not run: the message, the audit entry, the handle.\<close>

definition closing ::
    "u64 \<Rightarrow> 'c job \<Rightarrow> terminal \<Rightarrow> approval_decision \<Rightarrow> audit_outcome \<Rightarrow> 'c action list" where
  "closing i job t d out =
     [Tell (sink_channel (job_sink job)) [terminal_message (job_sink job) t],
      Record (job_entry i job d out), Release i]"

text \<open>The end of an admitted session: what is left to send, the audit entry, the handle.\<close>

definition finishing ::
    "'c job \<Rightarrow> approval_decision \<Rightarrow> message list \<Rightarrow> audit_outcome \<Rightarrow> 'c action list" where
  "finishing job d ms audit = (let i = cr_id (job_request job) in
     [Tell (sink_channel (job_sink job)) ms, Record (job_entry i job d audit), Release i])"

section \<open>The broker's operations\<close>

definition submit_act ::
    "(nat \<Rightarrow> job_sink) \<Rightarrow> 'c \<Rightarrow> command_request \<Rightarrow> ('c, 'z) action_broker_scheme
       \<Rightarrow> 'c action list \<times> ('c, 'z) action_broker_scheme" where
  "submit_act sink component r b = (case validate r of
     Inl e \<Rightarrow> ([Return (Err (InvalidRequest e))], b)
   | Inr _ \<Rightarrow>
      if cr_mode r \<noteq> Wasi then ([Return (Err NotWasi)], b)
      else (case channel_new b of (c, b1) \<Rightarrow>
        ([Enqueue \<lparr>job_request = r, job_component = component, job_sink = sink c,
            job_session = session_new (cr_id r) (grant_limits (cr_grant r)),
            job_admission = AutoApproved\<rparr>], b1)))"

definition enqueue_act ::
    "'c job \<Rightarrow> ('c, 'z) action_broker_scheme \<Rightarrow> 'c action list \<times> ('c, 'z) action_broker_scheme" where
  "enqueue_act job b =
     (let i = cr_id (job_request job)
      in if unat (ab_capacity b) \<le> fcard (fmdom (bs_handles b)) then ([Return (Err QueueFull)], b)
         else (case cancel_handle_new (ab_signals b) of (handle, m) \<Rightarrow>
           ([Push i job (Receiver (sink_channel (job_sink job)))],
            b\<lparr>ab_signals := m, bs_handles := fmupd i handle (bs_handles b)\<rparr>)))"

text \<open>The queue is a channel to the worker; both \<open>enqueue\<close> and \<open>approve\<close> end like this.\<close>

definition push_act ::
    "u64 \<Rightarrow> 'c job \<Rightarrow> reply \<Rightarrow> ('c, 'z) action_broker_scheme
       \<Rightarrow> 'c action list \<times> ('c, 'z) action_broker_scheme" where
  "push_act i job reply b =
     (if ab_worker_up b then ([Return (Ok reply)], b\<lparr>ab_queue := ab_queue b @ [job]\<rparr>)
      else ([Release i, Return (Err WorkerStopped)], b))"

text \<open>Removing a parked job under the lock of the pending map.\<close>

definition take_pending ::
    "u64 \<Rightarrow> ('c, 'z) action_broker_scheme \<Rightarrow> 'c job option \<times> ('c, 'z) action_broker_scheme" where
  "take_pending i b =
     (map_option pj_job (fmlookup (bs_pending b) i), b\<lparr>bs_pending := fmdrop i (bs_pending b)\<rparr>)"

definition approve_take ::
    "u64 \<Rightarrow> ('c, 'z) action_broker_scheme \<Rightarrow> 'c action list \<times> ('c, 'z) action_broker_scheme" where
  "approve_take i b = (case take_pending i b of
     (None, b1) \<Rightarrow> ([Return (Err (NotPendingApproval i))], b1)
   | (Some job, b1) \<Rightarrow> ([ApproveLook i job], b1))"

definition approve_look ::
    "u64 \<Rightarrow> 'c job \<Rightarrow> ('c, 'z) action_broker_scheme
       \<Rightarrow> 'c action list \<times> ('c, 'z) action_broker_scheme" where
  "approve_look i job b =
     (if session_cancelled i b
      then (closing i job TermCancelled DecisionCancelled AuditCancelled @ [Return (Ok Accepted)], b)
      else ([Push i (job\<lparr>job_admission := Approved\<rparr>) Accepted], b))"

definition deny_take ::
    "u64 \<Rightarrow> ('c, 'z) action_broker_scheme \<Rightarrow> 'c action list \<times> ('c, 'z) action_broker_scheme" where
  "deny_take i b = (case take_pending i b of
     (None, b1) \<Rightarrow> ([Return (Err (NotPendingApproval i))], b1)
   | (Some job, b1) \<Rightarrow>
       (closing i job TermDenied DecisionDenied AuditDenied @ [Return (Ok Accepted)], b1))"

definition cancel_take ::
    "u64 \<Rightarrow> ('c, 'z) action_broker_scheme \<Rightarrow> 'c action list \<times> ('c, 'z) action_broker_scheme" where
  "cancel_take i b = (case take_pending i b of
     (Some job, b1) \<Rightarrow>
       (closing i job TermCancelled DecisionCancelled AuditCancelled @ [Return (Ok Accepted)], b1)
   | (None, b1) \<Rightarrow> ([CancelLook i], b1))"

definition cancel_look ::
    "u64 \<Rightarrow> ('c, 'z) action_broker_scheme \<Rightarrow> 'c action list \<times> ('c, 'z) action_broker_scheme" where
  "cancel_look i b = (case fmlookup (bs_handles b) i of
     None \<Rightarrow> ([Return (Err (UnknownSession i))], b)
   | Some handle \<Rightarrow> ([Raise handle, Return (Ok Accepted)], b))"

text \<open>A round of the sweeper lists the expired ids under one lock and takes them one by one.\<close>

definition sweep_list ::
    "u64 list \<Rightarrow> nat \<Rightarrow> ('c, 'z) action_broker_scheme
       \<Rightarrow> 'c action list \<times> ('c, 'z) action_broker_scheme" where
  "sweep_list order now b = (map ExpireTake (filter (expired now b) order), b)"

definition expire_take ::
    "u64 \<Rightarrow> ('c, 'z) action_broker_scheme \<Rightarrow> 'c action list \<times> ('c, 'z) action_broker_scheme" where
  "expire_take i b = (case take_pending i b of
     (None, b1) \<Rightarrow> ([], b1)
   | (Some job, b1) \<Rightarrow> (closing i job TermDenied TimedOut AuditDenied, b1))"

section \<open>The worker\<close>

text \<open>\<open>process_job\<close> up to its three branches; the risk is computed from the request alone.\<close>

definition look_act ::
    "'c job \<Rightarrow> ('c, 'z) action_broker_scheme \<Rightarrow> 'c action list \<times> ('c, 'z) action_broker_scheme" where
  "look_act job b = (case fmlookup (bs_handles b) (cr_id (job_request job)) of
     None \<Rightarrow> ([Tell (sink_channel (job_sink job)) [terminal_message (job_sink job)
         (TermDeniedWith (InvalidTransition ''session handle disappeared before start''))],
       Release (cr_id (job_request job))], b)
   | Some handle \<Rightarrow> (case classify_risk (job_request job) of
       AutoApprove \<Rightarrow> ([Start job handle (job_admission job)], b)
     | RequiresApproval reason \<Rightarrow>
         if job_admission job = Approved then ([Start job handle Approved], b)
         else ([Park job reason], b)))"

text \<open>The check of the signal and of the session; a streaming session is announced next.\<close>

definition start_act ::
    "'c job \<Rightarrow> cancel_handle \<Rightarrow> approval_decision \<Rightarrow> ('c, 'z) action_broker_scheme
       \<Rightarrow> 'c action list \<times> ('c, 'z) action_broker_scheme" where
  "start_act job handle d b =
     (if is_cancelled (ab_signals b) handle
      then (finishing (note_event job Cancelled) d [terminal_message (job_sink job) TermCancelled]
              AuditCancelled, b)
      else case accept (job_session job) Started of
        (s, Inl _) \<Rightarrow> (finishing (job\<lparr>job_session := s\<rparr>) d [terminal_message (job_sink job)
            (TermDeniedWith (InvalidTransition ''session cannot start''))] AuditDenied, b)
      | (s, Inr _) \<Rightarrow> (case job_sink job of
          SinkOutcome _ \<Rightarrow> ([Guest (job\<lparr>job_session := s\<rparr>) handle d], b)
        | SinkEvents c \<Rightarrow> ([Announce c (job\<lparr>job_session := s\<rparr>) handle d], b)))"

text \<open>
  The end of the guest, which finds the signals as the other threads left them.  A run that
  panics unwinds to the barrier of \<open>process_job_guarded\<close>.
\<close>

definition barrier :: "'c job \<Rightarrow> message list \<Rightarrow> 'c action list" where
  "barrier job ms = (let i = cr_id (job_request job) in
     [Tell (sink_channel (job_sink job)) (ms @ [terminal_message (job_sink job)
        (TermDeniedWith (InvalidTransition ''worker panic while executing session''))]),
      Record (job_entry i job (job_admission job) AuditFailed), Release i])"

definition capture_result :: "runtime_error + wasi_output \<Rightarrow> 'c job \<Rightarrow> broker_outcome \<times> 'c job" where
  "capture_result result job = (case result of
     Inr output \<Rightarrow> (OutCompleted output, note_event job (Exited (Some (wo_exit_code output))))
   | Inl RtCancelled \<Rightarrow> (OutCancelled, note_event job Cancelled)
   | Inl RtWrongMode \<Rightarrow>
       (OutDenied (InvalidTransition ''non-WASI request reached the WASI backend''), job)
   | Inl e \<Rightarrow> (OutFailed e, note_event job Unsupported))"

definition stream_result ::
    "runtime_error + wasi_output \<Rightarrow> 'c job \<Rightarrow> session_event \<times> audit_outcome \<times> 'c job" where
  "stream_result result job = (case result of
     Inr output \<Rightarrow> (Exited (Some (wo_exit_code output)), AuditCompleted (wo_exit_code output),
        note_event job (Exited (Some (wo_exit_code output))))
   | Inl RtCancelled \<Rightarrow> (Cancelled, AuditCancelled, note_event job Cancelled)
   | Inl RtWrongMode \<Rightarrow> (Denied, AuditDenied, job)
   | Inl _ \<Rightarrow> (Unsupported, AuditFailed, note_event job Unsupported))"

text \<open>
  A streaming run, with the signals that its last look at the handle finds.  Its reader
  sends the output while the guest runs: one send is one action, and the run ends with
  that look.  A run whose reader never ends stays where it is.
\<close>

definition stream_guest_at ::
    "'c backend \<Rightarrow> cancel_store \<Rightarrow> 'c job \<Rightarrow> cancel_handle
       \<Rightarrow> ((runtime_error + wasi_output) \<times> session_event list) option" where
  "stream_guest_at be m job handle = run_wasi_events (be_host be)
     (\<lambda>comp store. case be_stream_guest be comp store of (res, actions) \<Rightarrow> (res, actions, m))
     (job_component job) (job_request job) handle []"

definition forward_act ::
    "message list \<Rightarrow> 'c job \<Rightarrow> cancel_handle \<Rightarrow> approval_decision
       \<Rightarrow> (cancel_store \<Rightarrow> (runtime_error + wasi_output) option) \<Rightarrow> ('c, 'z) action_broker_scheme
       \<Rightarrow> 'c action list \<times> ('c, 'z) action_broker_scheme" where
  "forward_act ms job handle d result b = (case ms of
     m # ms' \<Rightarrow> ([Forward ms' job handle d result], snd (channel_send (sink_channel (job_sink job)) m b))
   | [] \<Rightarrow> (case result (ab_signals b) of
       None \<Rightarrow> ([Forward [] job handle d result], b)
     | Some r \<Rightarrow> (case stream_result r job of
         (e, audit, job1) \<Rightarrow> (finishing job1 d [Event e] audit, b))))"

definition guest_act ::
    "'c backend \<Rightarrow> 'c job \<Rightarrow> cancel_handle \<Rightarrow> approval_decision \<Rightarrow> ('c, 'z) action_broker_scheme
       \<Rightarrow> 'c action list \<times> ('c, 'z) action_broker_scheme" where
  "guest_act be job handle d b = (case job_sink job of
     SinkOutcome _ \<Rightarrow>
       (if be_panics be job \<noteq> None then (barrier job [], b)
        else case capture_result (run_wasi_cancellable (be_host be)
               (\<lambda>comp store. case be_guest be comp store of (res, out, err) \<Rightarrow>
                  (res, out, err, ab_signals b))
               (job_component job) (job_request job) handle) job of
          (outcome, job1) \<Rightarrow> (case audit_of outcome of
             Returned audit \<Rightarrow> (finishing job1 d [Outcome outcome] audit, b)
           | _ \<Rightarrow> (barrier job [], b)))
   | SinkEvents _ \<Rightarrow> (case be_panics be job of
        Some es \<Rightarrow> (barrier job (map Event es), b)
      | None \<Rightarrow> (case stream_guest_at be (ab_signals b) job handle of
          None \<Rightarrow> ([Guest job handle d], b)
        | Some (_, es) \<Rightarrow> ([Forward (map Event es) job handle d
             (\<lambda>m. map_option fst (stream_guest_at be m job handle))], b))))"

text \<open>The risky branch: parked under one lock, announced after it.\<close>

definition park_act ::
    "nat \<Rightarrow> 'c job \<Rightarrow> approval_reason \<Rightarrow> ('c, 'z) action_broker_scheme
       \<Rightarrow> 'c action list \<times> ('c, 'z) action_broker_scheme" where
  "park_act now job reason b =
     (let job1 = note_event job (PendingApproval reason); i = cr_id (job_request job1)
      in ([Notify i (job_sink job1) reason],
          b\<lparr>bs_pending := fmupd i \<lparr>pj_job = job1, pj_deadline = now + approval_timeout b\<rparr>
              (bs_pending b)\<rparr>))"

definition notify_act ::
    "u64 \<Rightarrow> job_sink \<Rightarrow> approval_reason \<Rightarrow> ('c, 'z) action_broker_scheme
       \<Rightarrow> 'c action list \<times> ('c, 'z) action_broker_scheme" where
  "notify_act i sink reason b =
     (case channel_send (sink_channel sink) (pending_message sink reason) b of
        (notified, b1) \<Rightarrow> (if notified then [] else [Unpark i, Release i], b1))"

section \<open>One action\<close>

fun act ::
    "'c backend \<Rightarrow> nat \<Rightarrow> 'c action \<Rightarrow> ('c, 'z) action_broker_scheme
       \<Rightarrow> 'c action list \<times> ('c, 'z) action_broker_scheme" where
  "act be now (Submit sink component r) b = submit_act sink component r b"
| "act be now (Enqueue job) b = enqueue_act job b"
| "act be now (Push i job reply) b = push_act i job reply b"
| "act be now (ApproveTake i) b = approve_take i b"
| "act be now (ApproveLook i job) b = approve_look i job b"
| "act be now (DenyTake i) b = deny_take i b"
| "act be now (CancelTake i) b = cancel_take i b"
| "act be now (CancelLook i) b = cancel_look i b"
| "act be now (Raise handle) b =
     ([], b\<lparr>ab_signals := cancel_handle_cancel (ab_signals b) handle\<rparr>)"
| "act be now (SweepList order time) b = sweep_list order time b"
| "act be now (ExpireTake i) b = expire_take i b"
| "act be now (HangUp c) b = ([], hang_up c b)"
| "act be now (Tell c ms) b = (case ms of
     [] \<Rightarrow> ([], b)
   | m # ms' \<Rightarrow> ([Tell c ms'], snd (channel_send c m b)))"
| "act be now (Record entry) b = ([], audit_record entry b)"
| "act be now (Release i) b = ([], release i b)"
| "act be now (Return r) b = ([], b)"
| "act be now (Look job) b = look_act job b"
| "act be now (Start job handle d) b = start_act job handle d b"
| "act be now (Announce c job handle d) b =
     ([Guest job handle d], snd (channel_send c (Event Started) b))"
| "act be now (Guest job handle d) b = guest_act be job handle d b"
| "act be now (Forward ms job handle d result) b = forward_act ms job handle d result b"
| "act be now (Park job reason) b = park_act now job reason b"
| "act be now (Notify i sink reason) b = notify_act i sink reason b"
| "act be now (Unpark i) b = ([], b\<lparr>bs_pending := fmdrop i (bs_pending b)\<rparr>)"

text \<open>The first action of each operation a caller may ask for.\<close>

fun first_action :: "'c client_op \<Rightarrow> 'c action" where
  "first_action (OpSubmit component r) = Submit SinkOutcome component r"
| "first_action (OpSubmitStreaming component r) = Submit SinkEvents component r"
| "first_action (OpApprove i) = ApproveTake i"
| "first_action (OpDeny i) = DenyTake i"
| "first_action (OpCancel i) = CancelTake i"
| "first_action (OpSweep order now) = SweepList order now"
| "first_action (OpHangUp c) = HangUp c"

section \<open>The system\<close>

text \<open>
  The worker has one program; the callers and the sweeper are a multiset of programs, one
  for each operation in progress.
\<close>

record 'c system =
  sy_broker :: "'c monitored"
  sy_worker :: "'c action list"
  sy_others :: "'c action list multiset"

text \<open>The history variable notes an approval when the parked job is taken.\<close>

definition note_action :: "'c action \<Rightarrow> 'c monitored \<Rightarrow> 'c monitored" where
  "note_action a b = (case a of ApproveTake i \<Rightarrow> note_approval i b | _ \<Rightarrow> b)"

text \<open>A thread runs its first action and goes on with what the action left to do.\<close>

definition thread_step ::
    "'c backend \<Rightarrow> nat \<Rightarrow> 'c action list \<times> 'c monitored \<Rightarrow> 'c action list \<times> 'c monitored" where
  "thread_step be now s = (case fst s of
     [] \<Rightarrow> s
   | a # rest \<Rightarrow> (case act be now a (note_action a (snd s)) of (next, b) \<Rightarrow> (next @ rest, b)))"

inductive system_step :: "'c system \<Rightarrow> 'c system \<Rightarrow> bool" where
  call: "system_step s (s\<lparr>sy_others := add_mset [first_action op] (sy_others s)\<rparr>)"
| other: "sy_others s = add_mset p others \<Longrightarrow> p \<noteq> [] \<Longrightarrow>
    thread_step be now (p, sy_broker s) = (p', b) \<Longrightarrow>
    system_step s (s\<lparr>sy_broker := b, sy_others := add_mset p' others\<rparr>)"
| exit: "sy_others s = add_mset [] others \<Longrightarrow> system_step s (s\<lparr>sy_others := others\<rparr>)"
| receive: "sy_worker s = [] \<Longrightarrow> ab_queue (sy_broker s) = job # queue \<Longrightarrow>
    system_step s (s\<lparr>sy_broker := (sy_broker s)\<lparr>ab_queue := queue\<rparr>, sy_worker := [Look job]\<rparr>)"
| worker: "sy_worker s \<noteq> [] \<Longrightarrow> panics_cleanly be \<Longrightarrow>
    thread_step be now (sy_worker s, sy_broker s) = (p, b) \<Longrightarrow>
    system_step s (s\<lparr>sy_broker := b, sy_worker := p\<rparr>)"

definition system_init :: "usize \<Rightarrow> nat \<Rightarrow> broker_error + 'c system" where
  "system_init capacity timeout = (case monitored_init capacity timeout of
     Inl e \<Rightarrow> Err e
   | Inr b \<Rightarrow> Ok \<lparr>sy_broker = b, sy_worker = [], sy_others = {#}\<rparr>)"

inductive interleaving :: "usize \<Rightarrow> nat \<Rightarrow> 'c system \<Rightarrow> bool" for capacity timeout where
  interleaving_init: "system_init capacity timeout = Ok s \<Longrightarrow> interleaving capacity timeout s"
| interleaving_step: "interleaving capacity timeout s \<Longrightarrow> system_step s s' \<Longrightarrow>
    interleaving capacity timeout s'"

section \<open>An operation that runs alone\<close>

text \<open>What an operation of \<open>Broker\<close> answers.\<close>

fun answer :: "'c client_op \<Rightarrow> 'c monitored \<Rightarrow> 'c action list" where
  "answer (OpSubmit component r) b = [Return (map_sum id Receiver (snd (submit component r b)))]"
| "answer (OpSubmitStreaming component r) b =
     [Return (map_sum id Receiver (snd (submit_streaming component r b)))]"
| "answer (OpApprove i) b = [Return (map_sum id (\<lambda>_. Accepted) (snd (approve i b)))]"
| "answer (OpDeny i) b = [Return (map_sum id (\<lambda>_. Accepted) (snd (deny i b)))]"
| "answer (OpCancel i) b = [Return (map_sum id (\<lambda>_. Accepted) (snd (cancel i b)))]"
| "answer (OpSweep order now) b = []"
| "answer (OpHangUp c) b = []"

definition runs_to ::
    "'c backend \<Rightarrow> nat \<Rightarrow> 'c action list \<times> 'c monitored \<Rightarrow> 'c action list \<times> 'c monitored \<Rightarrow> bool" where
  "runs_to be now s t = (\<exists>n. (thread_step be now ^^ n) s = t)"

lemma runs_refl: "runs_to be now s s"
  unfolding runs_to_def by (rule exI [of _ 0]) simp

lemma runs_trans: "runs_to be now s t \<Longrightarrow> runs_to be now t u \<Longrightarrow> runs_to be now s u"
  unfolding runs_to_def by (metis comp_apply funpow_add)

lemma runs_step: "runs_to be now (thread_step be now s) t \<Longrightarrow> runs_to be now s t"
  unfolding runs_to_def by (metis comp_apply funpow_Suc_right)

lemma thread_step_Cons:
  assumes "act be now a (note_action a b) = (next, b')"
  shows "thread_step be now (a # rest, b) = (next @ rest, b')"
  using assms by (simp add: thread_step_def)

lemma runs_act:
  assumes "act be now a (note_action a b) = (next, b')" "runs_to be now (next @ rest, b') t"
  shows "runs_to be now (a # rest, b) t"
  by (rule runs_step) (use assms in \<open>simp add: thread_step_Cons\<close>)

lemma runs_tell:
  "runs_to be now (rest, chan.send_all c ms b) t \<Longrightarrow> runs_to be now (Tell c ms # rest, b) t"
proof (induction ms arbitrary: b)
  case Nil
  then show ?case by (intro runs_act [of _ _ _ _ "[]" b]) (simp_all add: note_action_def)
next
  case (Cons m ms)
  show ?case
    by (rule runs_act [of _ _ _ _ "[Tell c ms]" "snd (channel_send c m b)"])
      (use Cons in \<open>simp_all add: note_action_def\<close>)
qed

lemma runs_record:
  "runs_to be now (rest, audit_record e b) t \<Longrightarrow> runs_to be now (Record e # rest, b) t"
  by (rule runs_act [of _ _ _ _ "[]"]) (simp_all add: note_action_def)

lemma runs_release:
  "runs_to be now (rest, release i b) t \<Longrightarrow> runs_to be now (Release i # rest, b) t"
  by (rule runs_act [of _ _ _ _ "[]"]) (simp_all add: note_action_def)

lemma runs_closing:
  "runs_to be now (rest, close_session i job t d out b) u
     \<Longrightarrow> runs_to be now (closing i job t d out @ rest, b) u"
  unfolding closing_def close_session_def send_terminal_def append_Cons append_Nil
  by (intro runs_tell runs_record runs_release) simp

lemma take_pending_simps [simp]:
  "fmlookup (bs_pending b) i = None \<Longrightarrow> take_pending i b = (None, b)"
  "fmlookup (bs_pending b) i = Some p \<Longrightarrow>
     take_pending i b = (Some (pj_job p), b\<lparr>bs_pending := fmdrop i (bs_pending b)\<rparr>)"
proof -
  show "take_pending i b = (None, b)" if "fmlookup (bs_pending b) i = None"
  proof -
    have "fmdrop i (bs_pending b) = bs_pending b" using that by (intro fmap_ext) auto
    then show ?thesis using that by (simp add: take_pending_def)
  qed
qed (simp add: take_pending_def)


lemma runs_return:
  "act be now a (note_action a b) = (next, b') \<Longrightarrow> runs_to be now (a # rest, b) (next @ rest, b')"
  by (rule runs_act [OF _ runs_refl])

lemma note_action_simps [simp]:
  "note_action (ApproveTake i) b = note_approval i b"
  "\<forall>i. a \<noteq> ApproveTake i \<Longrightarrow> note_action a b = b"
  by (simp_all add: note_action_def split: action.splits)

lemma enqueue_runs:
  "runs_to be now ([Enqueue job], b) ([Return (map_sum id
       (\<lambda>_. Receiver (sink_channel (job_sink job))) (snd (enqueue job b)))], fst (enqueue job b))"
proof (cases "unat (ab_capacity b) \<le> fcard (fmdom (bs_handles b))")
  case True
  then show ?thesis
    using runs_return [of be now "Enqueue job" b _ _ "[]"]
    by (simp add: enqueue_act_def enqueue_def Let_def)
next
  case False
  obtain handle m where new: "cancel_handle_new (ab_signals b) = (handle, m)" by fastforce
  let ?i = "cr_id (job_request job)"
  let ?b1 = "b\<lparr>ab_signals := m, bs_handles := fmupd ?i handle (bs_handles b)\<rparr>"
  let ?r = "Receiver (sink_channel (job_sink job))"
  have one: "act be now (Enqueue job) (note_action (Enqueue job) b) = ([Push ?i job ?r], ?b1)"
    using False new by (simp add: enqueue_act_def Let_def)
  show ?thesis
  proof (cases "ab_worker_up b")
    case True
    have "runs_to be now ([Push ?i job ?r], ?b1)
        ([Return (Ok ?r)], ?b1\<lparr>ab_queue := ab_queue ?b1 @ [job]\<rparr>)"
      using runs_return [of be now "Push ?i job ?r" ?b1 _ _ "[]"] True by (simp add: push_act_def)
    then show ?thesis
      using runs_act [OF one, of "[]"] False new True by (simp add: enqueue_def Let_def)
  next
    case False
    have "act be now (Push ?i job ?r) (note_action (Push ?i job ?r) ?b1)
        = ([Release ?i, Return (Err WorkerStopped)], ?b1)"
      using False by (simp add: push_act_def)
    then have "runs_to be now ([Push ?i job ?r], ?b1) ([Return (Err WorkerStopped)], release ?i ?b1)"
      by (rule runs_act) (simp add: runs_release runs_refl)
    then show ?thesis
      using runs_act [OF one, of "[]"] False new \<open>\<not> unat _ \<le> _\<close> by (simp add: enqueue_def Let_def)
  qed
qed

lemma submit_runs:
  "runs_to be now ([Submit sink component r], b) ([Return (map_sum id Receiver
       (snd (submit_job sink component r b)))], fst (submit_job sink component r b))"
  if "\<forall>c. sink_channel (sink c) = c" for sink :: "nat \<Rightarrow> job_sink"
proof (cases "validate r = Inr () \<and> cr_mode r = Wasi")
  case False
  then show ?thesis
    using runs_return [of be now "Submit sink component r" b _ _ "[]"]
    by (cases "validate r") (simp_all add: submit_act_def submit_job_def)
next
  case True
  obtain c b1 where ch: "channel_new b = (c, b1)" by fastforce
  let ?job = "\<lparr>job_request = r, job_component = component, job_sink = sink c,
      job_session = session_new (cr_id r) (cg_limits (cr_grant r)), job_admission = AutoApproved\<rparr>"
  have one: "act be now (Submit sink component r) (note_action (Submit sink component r) b)
      = ([Enqueue ?job], b1)"
    using True ch by (simp add: submit_act_def)
  have "submit_job sink component r b = (fst (enqueue ?job b1), map_sum id (\<lambda>_. c) (snd (enqueue ?job b1)))"
    using True ch by (simp add: submit_job_def Let_def case_prod_beta prod_eq_iff split: sum.splits)
  then show ?thesis
    using runs_act [OF one, of "[]"] enqueue_runs [of be now ?job b1] that
    by (simp add: sum.map_comp comp_def id_def)
qed

lemma deny_runs:
  "runs_to be now ([DenyTake i], b)
     ([Return (map_sum id (\<lambda>_. Accepted) (snd (deny i b)))], fst (deny i b))"
proof (cases "fmlookup (bs_pending b) i")
  case None
  then show ?thesis
    using runs_return [of be now "DenyTake i" b _ _ "[]"] by (simp add: deny_take_def deny_def)
next
  case (Some p)
  let ?b1 = "b\<lparr>bs_pending := fmdrop i (bs_pending b)\<rparr>"
  have "act be now (DenyTake i) (note_action (DenyTake i) b)
      = (closing i (pj_job p) TermDenied DecisionDenied AuditDenied @ [Return (Ok Accepted)], ?b1)"
    using Some by (simp add: deny_take_def)
  then show ?thesis
    by (rule runs_act) (use Some in \<open>simp add: deny_def runs_closing runs_refl\<close>)
qed

lemma cancel_runs:
  "runs_to be now ([CancelTake i], b)
     ([Return (map_sum id (\<lambda>_. Accepted) (snd (cancel i b)))], fst (cancel i b))"
proof (cases "fmlookup (bs_pending b) i")
  case (Some p)
  let ?b1 = "b\<lparr>bs_pending := fmdrop i (bs_pending b)\<rparr>"
  have "act be now (CancelTake i) (note_action (CancelTake i) b)
      = (closing i (pj_job p) TermCancelled DecisionCancelled AuditCancelled @ [Return (Ok Accepted)], ?b1)"
    using Some by (simp add: cancel_take_def)
  then show ?thesis
    by (rule runs_act) (use Some in \<open>simp add: cancel_def runs_closing runs_refl\<close>)
next
  case None
  have one: "act be now (CancelTake i) (note_action (CancelTake i) b) = ([CancelLook i], b)"
    using None by (simp add: cancel_take_def)
  show ?thesis
  proof (cases "fmlookup (bs_handles b) i")
    case no: None
    then show ?thesis
      using runs_act [OF one, of "[]"] runs_return [of be now "CancelLook i" b _ _ "[]"] None
      by (simp add: cancel_look_def cancel_def)
  next
    case (Some handle)
    have "act be now (CancelLook i) (note_action (CancelLook i) b)
        = ([Raise handle, Return (Ok Accepted)], b)"
      using Some by (simp add: cancel_look_def)
    then have "runs_to be now ([CancelLook i], b) ([Return (Ok Accepted)],
        b\<lparr>ab_signals := cancel_handle_cancel (ab_signals b) handle\<rparr>)"
      by (rule runs_act) (use runs_return [of be now "Raise handle"] in simp)
    then show ?thesis using runs_act [OF one, of "[]"] Some None by (simp add: cancel_def)
  qed
qed


lemma approve_noted:
  "fmlookup (bs_pending b) i = None \<Longrightarrow> note_approval i b = b"
  "fmlookup (bs_pending b) i = Some p \<Longrightarrow>
     note_approval i b = b\<lparr>mo_approved := mo_approved b @ [channel_of (pj_job p)]\<rparr>"
  by (simp_all add: note_approval_def)

lemma approve_runs:
  "runs_to be now ([ApproveTake i], b)
     ([Return (map_sum id (\<lambda>_. Accepted) (snd (approve i b)))], fst (approve i (note_approval i b)))"
proof (cases "fmlookup (bs_pending b) i")
  case None
  then show ?thesis
    using runs_return [of be now "ApproveTake i" b _ _ "[]"]
    by (simp add: approve_take_def approve_def approve_noted)
next
  case (Some p)
  let ?b0 = "note_approval i b" and ?job = "pj_job p"
  let ?b1 = "?b0\<lparr>bs_pending := fmdrop i (bs_pending ?b0)\<rparr>"
  let ?job1 = "?job\<lparr>job_admission := Approved\<rparr>"
  have pend: "fmlookup (bs_pending ?b0) i = Some p" using Some by (simp add: approve_noted)
  have one: "act be now (ApproveTake i) (note_action (ApproveTake i) b) = ([ApproveLook i ?job], ?b1)"
    using pend by (simp add: approve_take_def)
  have same: "session_cancelled i (b\<lparr>bs_pending := fmdrop i (bs_pending b)\<rparr>) = session_cancelled i ?b1"
    "ab_worker_up ?b0 = ab_worker_up b"
    using Some by (simp_all add: approve_noted session_cancelled_def split: option.split)
  have ans: "map_sum id (\<lambda>_. Accepted) (snd (approve i b)) = map_sum id (\<lambda>_. Accepted) (snd (approve i ?b0))"
    using Some pend same by (simp add: approve_def Let_def)
  have "runs_to be now ([ApproveLook i ?job], ?b1)
     ([Return (map_sum id (\<lambda>_. Accepted) (snd (approve i ?b0)))], fst (approve i ?b0))"
  proof (cases "session_cancelled i ?b1")
    case True
    then have "act be now (ApproveLook i ?job) (note_action (ApproveLook i ?job) ?b1)
        = (closing i ?job TermCancelled DecisionCancelled AuditCancelled @ [Return (Ok Accepted)], ?b1)"
      by (simp add: approve_look_def)
    then show ?thesis
      by (rule runs_act) (use pend True in \<open>simp add: approve_def Let_def runs_closing runs_refl\<close>)
  next
    case False
    then have look: "act be now (ApproveLook i ?job) (note_action (ApproveLook i ?job) ?b1)
        = ([Push i ?job1 Accepted], ?b1)"
      by (simp add: approve_look_def)
    have "runs_to be now ([Push i ?job1 Accepted], ?b1)
       ([Return (map_sum id (\<lambda>_. Accepted) (snd (approve i ?b0)))], fst (approve i ?b0))"
    proof (cases "ab_worker_up ?b1")
      case True
      then show ?thesis
        using runs_return [of be now "Push i ?job1 Accepted" ?b1 _ _ "[]"] pend False
        by (simp add: push_act_def approve_def Let_def)
    next
      case down: False
      then have "act be now (Push i ?job1 Accepted) (note_action (Push i ?job1 Accepted) ?b1)
          = ([Release i, Return (Err WorkerStopped)], ?b1)"
        by (simp add: push_act_def)
      then show ?thesis
        by (rule runs_act) (use pend False down in \<open>simp add: approve_def Let_def runs_release runs_refl\<close>)
    qed
    then show ?thesis using runs_act [OF look, of "[]"] by simp
  qed
  then show ?thesis using runs_act [OF one, of "[]"] by (simp add: ans)
qed

lemma expire_runs:
  "runs_to be now (rest, sweep_one i b) u \<Longrightarrow> runs_to be now (ExpireTake i # rest, b) u"
proof (cases "fmlookup (bs_pending b) i")
  case None
  assume "runs_to be now (rest, sweep_one i b) u"
  then show ?thesis
    by (intro runs_act [of be now "ExpireTake i" b "[]" b])
      (use None in \<open>simp_all add: expire_take_def sweep_one_def\<close>)
next
  case (Some p)
  assume u: "runs_to be now (rest, sweep_one i b) u"
  have "act be now (ExpireTake i) (note_action (ExpireTake i) b)
      = (closing i (pj_job p) TermDenied TimedOut AuditDenied, b\<lparr>bs_pending := fmdrop i (bs_pending b)\<rparr>)"
    using Some by (simp add: expire_take_def)
  then show ?thesis
    by (rule runs_act) (use Some u in \<open>simp add: sweep_one_def runs_closing\<close>)
qed

lemma sweep_runs: "runs_to be now ([SweepList order time], b) ([], sweep order time b)"
proof -
  have "runs_to be now (map ExpireTake ids, b) ([], fold sweep_one ids b)" for ids
    by (induction ids arbitrary: b) (simp_all add: runs_refl expire_runs)
  then show ?thesis
    by (intro runs_act [of be now _ b "map ExpireTake (filter (expired time b) order)" b])
      (simp_all add: sweep_list_def sweep_def)
qed

lemma operation_runs:
  "runs_to be now ([first_action op], b) (answer op b, client_step op b)"
proof (cases op)
  case (OpSubmit component r)
  then show ?thesis using submit_runs [of SinkOutcome be now component r b]
    by (simp add: submit_def sink_channel_def)
next
  case (OpSubmitStreaming component r)
  then show ?thesis using submit_runs [of SinkEvents be now component r b]
    by (simp add: submit_streaming_def sink_channel_def)
next
  case (OpHangUp c)
  then show ?thesis using runs_return [of be now "HangUp c" b _ _ "[]"] by simp
qed (simp_all add: approve_runs deny_runs cancel_runs sweep_runs)


section \<open>The worker, alone but for the run of a guest\<close>

text \<open>How \<open>process_job_guarded\<close> leaves an admitted session after its execution.\<close>

definition settled ::
    "'c job \<Rightarrow> audit_outcome call \<Rightarrow> 'c monitored \<Rightarrow> 'c monitored option" where
  "settled job call b = (let i = cr_id (job_request job) in case call of
     Returned audit \<Rightarrow> Some (release i (audit_record (job_entry i job (job_admission job) audit) b))
   | Panicked \<Rightarrow> Some (close_session i job
        (TermDeniedWith (InvalidTransition ''worker panic while executing session''))
        (job_admission job) AuditFailed b)
   | NeverReturns \<Rightarrow> None)"

lemma guarded_settled:
  assumes "fmlookup (bs_handles b) (cr_id (job_request job)) = Some handle"
    and "classify_risk (job_request job) = AutoApprove \<or> job_admission job = Approved"
    and "execute be meanwhile job handle b = (call, job1, b1)"
  shows "process_job_guarded be meanwhile now job b = settled job call b1"
proof -
  have "job_entry i job1 d audit = job_entry i job d audit" for i d audit
    using execute_job(1) [OF assms(3)] by (simp add: job_entry_def)
  then show ?thesis
    using assms(3) execute_job(1) [OF assms(3)]
    by (cases call) (simp_all add: process_job_guarded_def process_job_admitted [OF assms(1,2)]
        execute_and_release_def settled_def Let_def)
qed

lemma runs_finishing:
  assumes "job_request job1 = job_request job" "job_sink job1 = job_sink job" "d = job_admission job"
  shows "runs_to be now (finishing job1 d ms audit, b)
     ([], the (settled job (Returned audit) (chan.send_all (sink_channel (job_sink job)) ms b)))"
proof -
  have entry: "job_entry i job1 d audit = job_entry i job d audit" for i
    using assms by (simp add: job_entry_def)
  show ?thesis
    unfolding finishing_def settled_def Let_def assms(1,2) entry
    by (intro runs_tell runs_record runs_release) (simp add: runs_refl assms(3))
qed

lemma runs_barrier:
  assumes "job_request job1 = job_request job" "job_sink job1 = job_sink job"
    "job_admission job1 = job_admission job"
  shows "runs_to be now (barrier job1 ms, b)
     ([], the (settled job Panicked (chan.send_all (sink_channel (job_sink job)) ms b)))"
proof -
  have entry: "job_entry i job1 d audit = job_entry i job d audit" for i d audit
    using assms by (simp add: job_entry_def)
  show ?thesis
    unfolding barrier_def settled_def Let_def assms entry
    by (intro runs_tell runs_record runs_release)
      (simp add: runs_refl close_session_def send_terminal_def)
qed

lemma note_event_frame [simp]:
  "job_request (note_event job e) = job_request job" "job_sink (note_event job e) = job_sink job"
  "job_admission (note_event job e) = job_admission job"
  by simp_all

lemma capture_result_frame:
  "capture_result result job = (outcome, job1) \<Longrightarrow>
     job_request job1 = job_request job \<and> job_sink job1 = job_sink job
     \<and> job_admission job1 = job_admission job \<and> (\<exists>audit. audit_of outcome = Returned audit)"
  by (auto simp: capture_result_def audit_of_def split: sum.splits runtime_error.splits)

lemma stream_result_frame:
  "stream_result result job = (e, audit, job1) \<Longrightarrow>
     job_request job1 = job_request job \<and> job_sink job1 = job_sink job
     \<and> job_admission job1 = job_admission job \<and> terminal_audit (Event e) = Some audit"
  by (auto simp: stream_result_def split: sum.splits runtime_error.splits)

text \<open>
  The guest's end: from the broker as the other threads left it, the rest of the worker's
  turn is what \<open>execute\<close> and the barrier make of it.
\<close>

lemma guest_runs_capturing:
  assumes ex: "execute be meanwhile job handle b = (call, job1, b1)" and "call \<noteq> NeverReturns"
    and SinkOutcome: "job_sink job = SinkOutcome c"
    and s: "accept (job_session job) Started = (s, Inr ())" and live: "\<not> is_cancelled (ab_signals b) handle"
  shows "runs_to (be\<lparr>be_panics := \<lambda>_. be_panics be job\<rparr>) now
     ([Guest (job\<lparr>job_session := s\<rparr>) handle (job_admission job)], after_run meanwhile job handle b)
     ([], the (settled job call b1))"
    (is "runs_to ?be now ([Guest ?job handle ?d], ?b) _")
proof -
  have starts: "starts job handle b" using s live by (simp add: starts_def)
  let ?run = "run_wasi_cancellable (be_host be) (\<lambda>comp store. case be_guest be comp store of
      (res, out, err) \<Rightarrow> (res, out, err, ab_signals ?b)) (job_component job) (job_request job) handle"
  have b: "?b = meanwhile b" using starts SinkOutcome by (simp add: after_run_def)
  show ?thesis
  proof (cases "be_panics be job")
    case (Some es)
    then have "call = Panicked" "b1 = ?b"
      using ex s live SinkOutcome b by (simp_all add: execute_def execute_capturing_def Let_def)
    moreover have "act ?be now (Guest ?job handle ?d) (note_action (Guest ?job handle ?d) ?b)
        = (barrier ?job [], ?b)"
      using Some SinkOutcome by (simp add: guest_act_def)
    then have "runs_to ?be now ([Guest ?job handle ?d], ?b) ([], the (settled job Panicked ?b))"
      by (rule runs_act) (use runs_barrier [of ?job job ?be now "[]" ?b] in simp)
    ultimately show ?thesis by simp
  next
    case None
    obtain outcome job2 where cap: "capture_result ?run ?job = (outcome, job2)" by fastforce
    note frame = capture_result_frame [OF cap]
    then obtain audit where audit: "audit_of outcome = Returned audit" by blast
    have "execute_capturing be meanwhile job handle b = (Returned outcome, job2, ?b)"
      using cap s live None b
      by (auto simp: execute_capturing_def capture_result_def Let_def split: sum.splits runtime_error.splits)
    then have "call = Returned audit" "b1 = snd (channel_send c (Outcome outcome) ?b)"
      using ex SinkOutcome audit by (simp_all add: execute_def)
    moreover have "act ?be now (Guest ?job handle ?d) (note_action (Guest ?job handle ?d) ?b)
        = (finishing job2 ?d [Outcome outcome] audit, ?b)"
      using None SinkOutcome cap audit by (simp add: guest_act_def)
    then have "runs_to ?be now ([Guest ?job handle ?d], ?b)
        ([], the (settled job (Returned audit) (chan.send_all c [Outcome outcome] ?b)))"
      by (rule runs_act)
        (use runs_finishing [of job2 job ?d ?be now "[Outcome outcome]" audit ?b] frame SinkOutcome
          in \<open>simp add: sink_channel_def\<close>)
    ultimately show ?thesis by simp
  qed
qed

lemma runs_forward:
  assumes "result (ab_signals b) = Some r" "stream_result r job = (e, audit, job1)"
    and "runs_to be now (finishing job1 d [Event e] audit, chan.send_all (sink_channel (job_sink job)) ms b) t"
  shows "runs_to be now ([Forward ms job handle d result], b) t"
  using assms
proof (induction ms arbitrary: b)
  case Nil
  then show ?case
    by (intro runs_act [of _ _ _ _ "finishing job1 d [Event e] audit" b])
      (simp_all add: note_action_def forward_act_def)
next
  case (Cons m ms)
  show ?case
    by (rule runs_act [of _ _ _ _ "[Forward ms job handle d result]"
          "snd (channel_send (sink_channel (job_sink job)) m b)"])
      (use Cons in \<open>simp_all add: note_action_def forward_act_def\<close>)
qed

text \<open>The signals decide how the run ends, not whether it does nor what it sends.\<close>

lemma stream_guest_signals:
  "map_option snd (stream_guest_at be m job handle) = map_option snd (stream_guest_at be m' job handle)"
  unfolding stream_guest_at_def run_wasi_events_def run_wasi_events_impl_def
  by (auto simp: Let_def split: sum.split prod.split option.split guest_result.split)

lemma guest_runs_streaming:
  assumes ex: "execute be meanwhile job handle b = (call, job1, b1)" and "call \<noteq> NeverReturns"
    and SinkEvents: "job_sink job = SinkEvents c"
    and s: "accept (job_session job) Started = (s, Inr ())" and live: "\<not> is_cancelled (ab_signals b) handle"
  shows "runs_to (be\<lparr>be_panics := \<lambda>_. be_panics be job\<rparr>) now
     ([Guest (job\<lparr>job_session := s\<rparr>) handle (job_admission job)], after_run meanwhile job handle b)
     ([], the (settled job call b1))"
    (is "runs_to ?be now ([Guest ?job handle ?d], ?b) _")
proof -
  have starts: "starts job handle b" using s live by (simp add: starts_def)
  let ?run = "stream_guest_at be (ab_signals ?b) ?job handle"
  have b: "?b = meanwhile (send_events c [Started] b)"
    using starts SinkEvents by (simp add: after_run_def)
  have ex': "execute_streaming be meanwhile job handle b = (call, job1, b1)"
    using ex SinkEvents by (simp add: execute_def)
  show ?thesis
  proof (cases "be_panics be job")
    case (Some es)
    then have "call = Panicked" "b1 = chan.send_all c (map Event es) ?b"
      using ex' s live SinkEvents b
      by (simp_all add: execute_streaming_def Let_def send_events_messages)
    moreover have "act ?be now (Guest ?job handle ?d) (note_action (Guest ?job handle ?d) ?b)
        = (barrier ?job (map Event es), ?b)"
      using Some SinkEvents by (simp add: guest_act_def)
    then have "runs_to ?be now ([Guest ?job handle ?d], ?b)
        ([], the (settled job Panicked (chan.send_all c (map Event es) ?b)))"
      by (rule runs_act) (use runs_barrier [of ?job job ?be now "map Event es" ?b] SinkEvents
          in \<open>simp add: sink_channel_def\<close>)
    ultimately show ?thesis by simp
  next
    case None
    have "?run \<noteq> None"
    proof
      assume "?run = None"
      then have "call = NeverReturns"
        using ex' s live SinkEvents b None by (simp add: execute_streaming_def stream_guest_at_def Let_def)
      then show False using assms(2) by simp
    qed
    then obtain result es where run: "?run = Some (result, es)" by auto
    let ?result = "\<lambda>m. map_option fst (stream_guest_at be m ?job handle)"
    obtain e audit job2 where res: "stream_result result ?job = (e, audit, job2)" by (metis prod.exhaust)
    note frame = stream_result_frame [OF res]
    have "call = Returned audit" "b1 = chan.send_all c (map Event (es @ [e])) ?b"
      using ex' s live SinkEvents b None run res
      by (auto simp: execute_streaming_def stream_result_def stream_guest_at_def Let_def send_events_messages
          split: sum.splits runtime_error.splits)
    moreover have "act ?be now (Guest ?job handle ?d) (note_action (Guest ?job handle ?d) ?b)
        = ([Forward (map Event es) ?job handle ?d ?result], ?b)"
      using None SinkEvents run by (simp add: guest_act_def stream_guest_at_def)
    moreover have "runs_to ?be now (finishing job2 ?d [Event e] audit, chan.send_all c (map Event es) ?b)
        ([], the (settled job (Returned audit) (chan.send_all c (map Event (es @ [e])) ?b)))"
      using runs_finishing [of job2 job ?d ?be now "[Event e]" audit "chan.send_all c (map Event es) ?b"]
        frame SinkEvents by (simp add: sink_channel_def)
    then have "runs_to ?be now ([Forward (map Event es) ?job handle ?d ?result], ?b)
        ([], the (settled job (Returned audit) (chan.send_all c (map Event (es @ [e])) ?b)))"
      using run res SinkEvents by (intro runs_forward [where r = result]) (simp_all add: sink_channel_def)
    ultimately have "runs_to ?be now ([Guest ?job handle ?d], ?b)
        ([], the (settled job (Returned audit) (chan.send_all c (map Event (es @ [e])) ?b)))"
      by (intro runs_act [of ?be now "Guest ?job handle ?d" ?b _ ?b "[]"]) simp_all
    then show ?thesis using \<open>call = Returned audit\<close> \<open>b1 = _\<close> by simp
  qed
qed

lemma guest_runs:
  assumes ex: "execute be meanwhile job handle b = (call, job1, b1)" and "call \<noteq> NeverReturns"
    and s: "accept (job_session job) Started = (s, Inr ())" and live: "\<not> is_cancelled (ab_signals b) handle"
  shows "runs_to (be\<lparr>be_panics := \<lambda>_. be_panics be job\<rparr>) now
     ([Guest (job\<lparr>job_session := s\<rparr>) handle (job_admission job)], after_run meanwhile job handle b)
     ([], the (settled job call b1))"
    (is "runs_to ?be now ([Guest ?job handle ?d], ?b) _")
proof (cases "job_sink job")
  case (SinkOutcome c)
  then show ?thesis using guest_runs_capturing [OF ex assms(2) _ s live] by blast
next
  case (SinkEvents c)
  then show ?thesis using guest_runs_streaming [OF ex assms(2) _ s live] by blast
qed


section \<open>Every history of whole operations is an interleaving\<close>

abbreviation system_steps :: "'c system \<Rightarrow> 'c system \<Rightarrow> bool" where
  "system_steps \<equiv> system_step\<^sup>*\<^sup>*"

definition system_of :: "'c monitored \<Rightarrow> 'c action list \<Rightarrow> 'c action list multiset \<Rightarrow> 'c system" where
  "system_of b p others = \<lparr>sy_broker = b, sy_worker = p, sy_others = others\<rparr>"

lemma others_run:
  assumes "runs_to be now (p, b) (p', b')"
  shows "system_steps (system_of b w (add_mset p others)) (system_of b' w (add_mset p' others))"
proof -
  have "(thread_step be now ^^ n) (p, b) = (p', b') \<Longrightarrow>
      system_steps (system_of b w (add_mset p others)) (system_of b' w (add_mset p' others))" for n
  proof (induction n arbitrary: p b)
    case (Suc n)
    obtain p1 b1 where one: "thread_step be now (p, b) = (p1, b1)" by fastforce
    then have rest: "system_steps (system_of b1 w (add_mset p1 others)) (system_of b' w (add_mset p' others))"
      using Suc by (simp add: funpow_Suc_right del: funpow.simps)
    show ?case
    proof (cases "p = []")
      case True
      then show ?thesis using one rest by (simp add: thread_step_def)
    next
      case False
      have "system_step (system_of b w (add_mset p others)) (system_of b1 w (add_mset p1 others))"
        using system_step.other [of "system_of b w (add_mset p others)" p others be now p1 b1] False one
        by (simp add: system_of_def)
      then show ?thesis using rest by (rule converse_rtranclp_into_rtranclp)
    qed
  qed simp
  then show ?thesis using assms by (auto simp: runs_to_def)
qed

lemma worker_run:
  assumes "runs_to be now (p, b) (p', b')" "panics_cleanly be"
  shows "system_steps (system_of b p others) (system_of b' p' others)"
proof -
  have "(thread_step be now ^^ n) (p, b) = (p', b') \<Longrightarrow>
      system_steps (system_of b p others) (system_of b' p' others)" for n
  proof (induction n arbitrary: p b)
    case (Suc n)
    obtain p1 b1 where one: "thread_step be now (p, b) = (p1, b1)" by fastforce
    then have rest: "system_steps (system_of b1 p1 others) (system_of b' p' others)"
      using Suc by (simp add: funpow_Suc_right del: funpow.simps)
    show ?case
    proof (cases "p = []")
      case True
      then show ?thesis using one rest by (simp add: thread_step_def)
    next
      case False
      have "system_step (system_of b p others) (system_of b1 p1 others)"
        using system_step.worker [of "system_of b p others" be now p1 b1] False one assms(2)
        by (simp add: system_of_def)
      then show ?thesis using rest by (rule converse_rtranclp_into_rtranclp)
    qed
  qed simp
  then show ?thesis using assms by (auto simp: runs_to_def)
qed

text \<open>A caller's operation from its call to the return of its answer.\<close>

lemma operation_system:
  "system_steps (system_of b w others) (system_of (client_step op b) w others)"
proof -
  have "system_step (system_of b w others) (system_of b w (add_mset [first_action op] others))"
    using system_step.call [of "system_of b w others" op] by (simp add: system_of_def)
  also have "system_steps (system_of b w (add_mset [first_action op] others))
      (system_of (client_step op b) w (add_mset (answer op b) others))"
    by (rule others_run [OF operation_runs [of undefined 0]])
  also have "system_steps (system_of (client_step op b) w (add_mset (answer op b) others))
      (system_of (client_step op b) w (add_mset [] others))"
  proof (rule others_run)
    have ret: "runs_to undefined 0 ([Return r], b') ([], b')" for r and b' :: "'a monitored"
      using runs_return [of undefined 0 "Return r" b' "[]" _ "[]"] by simp
    show "runs_to undefined 0 (answer op b, client_step op b) ([], client_step op b)"
      by (cases op) (simp_all only: answer.simps ret runs_refl)
  qed
  also have "system_step (system_of (client_step op b) w (add_mset [] others))
      (system_of (client_step op b) w others)"
    using system_step.exit [of "system_of (client_step op b) w (add_mset [] others)" others]
    by (simp add: system_of_def)
  finally show ?thesis .
qed

lemma operations_system:
  "system_steps (system_of b w others) (system_of (client_steps ops b) w others)"
  unfolding client_steps_def
proof (induction ops arbitrary: b)
  case (Cons op ops)
  show ?case
    using rtranclp_trans [OF operation_system Cons.IH [of "client_step op b"]] by simp
qed simp

lemma panics_cleanly_once:
  "panics_cleanly be \<Longrightarrow> panics_cleanly (be\<lparr>be_panics := \<lambda>_. be_panics be job\<rparr>)"
  by (simp add: panics_cleanly_def)

text \<open>The worker's turn, with the operations of the others while a guest runs.\<close>

lemma look_admitted:
  assumes "fmlookup (bs_handles b) (cr_id (job_request job)) = Some handle"
    and "classify_risk (job_request job) = AutoApprove \<or> job_admission job = Approved"
    and "runs_to be now (fst (start_act job handle (job_admission job) b), b) t"
  shows "runs_to be now ([Look job], b) t"
proof -
  have start: "snd (start_act job handle d b) = b" for d
    by (simp add: start_act_def split: prod.split sum.split job_sink.split)
  have "act be now (Look job) (note_action (Look job) b) = ([Start job handle (job_admission job)], b)"
    using assms(1,2) by (auto simp: look_act_def split: risk.split)
  then show ?thesis
    by (rule runs_act) (use assms(3) start in \<open>auto intro!: runs_act simp: prod_eq_iff\<close>)
qed

lemma not_started_runs:
  assumes look: "fmlookup (bs_handles b) (cr_id (job_request job)) = Some handle"
    and adm: "classify_risk (job_request job) = AutoApprove \<or> job_admission job = Approved"
    and "\<not> starts job handle b" and ex: "execute be meanwhile job handle b = (call, job1, b1)"
  shows "runs_to be' now ([Look job], b) ([], the (settled job call b1))"
proof -
  define job2 where "job2 = (if is_cancelled (ab_signals b) handle then note_event job Cancelled
    else job\<lparr>job_session := fst (accept (job_session job) Started)\<rparr>)"
  define m where "m = terminal_message (job_sink job) (if is_cancelled (ab_signals b) handle then TermCancelled
    else TermDeniedWith (InvalidTransition ''session cannot start''))"
  define audit where "audit = (if is_cancelled (ab_signals b) handle then AuditCancelled else AuditDenied)"
  have frame: "job_request job2 = job_request job" "job_sink job2 = job_sink job"
    by (simp_all add: job2_def)
  have err: "is_cancelled (ab_signals b) handle \<or> (\<exists>e. snd (accept (job_session job) Started) = Inl e)"
    using assms(3) by (auto simp: starts_def not_is_ok_iff)
  have start: "fst (start_act job handle (job_admission job) b)
      = finishing job2 (job_admission job) [m] audit"
    using err unfolding start_act_def job2_def m_def audit_def
    by (cases "accept (job_session job) Started") auto
  have "call = Returned audit \<and> b1 = chan.send_all (sink_channel (job_sink job)) [m] b"
    using err ex unfolding m_def audit_def
    by (cases "accept (job_session job) Started"; cases "job_sink job")
      (auto simp: execute_def execute_capturing_def execute_streaming_def audit_of_def sink_channel_def
        terminal_message_def send_events_def)
  then show ?thesis
    using runs_finishing [OF frame refl, of be' now "[m]" audit b]
    by (intro look_admitted [OF look adm]) (simp add: start)
qed

lemma started_runs:
  assumes look: "fmlookup (bs_handles b) (cr_id (job_request job)) = Some handle"
    and adm: "classify_risk (job_request job) = AutoApprove \<or> job_admission job = Approved"
    and s: "accept (job_session job) Started = (s, Inr ())" and live: "\<not> is_cancelled (ab_signals b) handle"
  shows "runs_to be now ([Look job], b) ([Guest (job\<lparr>job_session := s\<rparr>) handle (job_admission job)],
     case job_sink job of SinkOutcome _ \<Rightarrow> b | SinkEvents c \<Rightarrow> send_events c [Started] b)"
proof (rule look_admitted [OF look adm], cases "job_sink job")
  case (SinkOutcome c)
  then show "runs_to be now (fst (start_act job handle (job_admission job) b), b)
     ([Guest (job\<lparr>job_session := s\<rparr>) handle (job_admission job)],
     case job_sink job of SinkOutcome _ \<Rightarrow> b | SinkEvents c \<Rightarrow> send_events c [Started] b)"
    using s live by (simp add: start_act_def runs_refl)
next
  case (SinkEvents c)
  then show "runs_to be now (fst (start_act job handle (job_admission job) b), b)
     ([Guest (job\<lparr>job_session := s\<rparr>) handle (job_admission job)],
     case job_sink job of SinkOutcome _ \<Rightarrow> b | SinkEvents c \<Rightarrow> send_events c [Started] b)"
    using s live runs_return [of be now "Announce c (job\<lparr>job_session := s\<rparr>) handle (job_admission job)" b _ _ "[]"]
    by (simp add: start_act_def send_events_def)
qed

lemma park_runs:
  assumes "fmlookup (bs_handles b) (cr_id (job_request job)) = Some handle"
    and "classify_risk (job_request job) = RequiresApproval reason" "job_admission job \<noteq> Approved"
  shows "runs_to be now ([Look job], b) ([], park_job now reason job b)"
proof -
  let ?job = "note_event job (PendingApproval reason)" and ?i = "cr_id (job_request job)"
  let ?b1 = "b\<lparr>bs_pending := fmupd ?i \<lparr>pj_job = ?job, pj_deadline = now + bs_approval_timeout b\<rparr>
      (bs_pending b)\<rparr>"
  obtain notified b2 where sent: "channel_send (sink_channel (job_sink job))
      (pending_message (job_sink job) reason) ?b1 = (notified, b2)" by fastforce
  have "act be now (Notify ?i (job_sink job) reason) (note_action (Notify ?i (job_sink job) reason) ?b1)
      = (if notified then [] else [Unpark ?i, Release ?i], b2)"
    using sent by (simp add: notify_act_def)
  then have "runs_to be now ([Notify ?i (job_sink job) reason], ?b1) ([], park_job now reason job b)"
  proof (rule runs_act, cases notified)
    case False
    have "act be now (Unpark ?i) (note_action (Unpark ?i) b2)
        = ([], b2\<lparr>bs_pending := fmdrop ?i (bs_pending b2)\<rparr>)" by simp
    then have "runs_to be now ([Unpark ?i, Release ?i], b2)
        ([], release ?i (b2\<lparr>bs_pending := fmdrop ?i (bs_pending b2)\<rparr>))"
      by (rule runs_act) (simp add: runs_release runs_refl)
    then show "runs_to be now ((if notified then [] else [Unpark ?i, Release ?i]) @ [], b2)
        ([], park_job now reason job b)"
      using sent False by (simp add: park_job_def Let_def)
  qed (use sent in \<open>simp add: park_job_def Let_def runs_refl\<close>)
  moreover have "act be now (Park job reason) (note_action (Park job reason) b)
      = ([Notify ?i (job_sink job) reason], ?b1)"
    by (simp add: park_act_def Let_def)
  ultimately have "runs_to be now ([Park job reason], b) ([], park_job now reason job b)"
    using runs_act [of be now "Park job reason" b _ _ "[]"] by simp
  moreover have "act be now (Look job) (note_action (Look job) b) = ([Park job reason], b)"
    using assms by (simp add: look_act_def)
  ultimately show ?thesis using runs_act [of be now "Look job" b _ _ "[]"] by simp
qed


text \<open>
  The worker's own steps for one session: up to the guest's run if it starts one, and from
  its end on the broker as the other threads left it meanwhile.
\<close>

lemma guarded_runs:
  fixes be :: "'c backend"
  assumes turn: "process_job_guarded be (client_steps ops) now job b = Some b'"
  shows "\<exists>p b1. runs_to (be\<lparr>be_panics := \<lambda>_. be_panics be job\<rparr>) now ([Look job], b) (p, b1)
    \<and> (p = [] \<and> b1 = b' \<or> (\<exists>j h d. p = [Guest j h d])
       \<and> runs_to (be\<lparr>be_panics := \<lambda>_. be_panics be job\<rparr>) now (p, client_steps ops b1) ([], b'))"
proof -
  let ?be = "be\<lparr>be_panics := \<lambda>_. be_panics be job\<rparr>"
  have alone: ?thesis if "runs_to ?be now ([Look job], b) ([], b')" using that by blast
  show ?thesis
  proof (cases "fmlookup (bs_handles b) (cr_id (job_request job))")
    case None
    let ?i = "cr_id (job_request job)"
    let ?t = "TermDeniedWith (InvalidTransition ''session handle disappeared before start'')"
    have b': "b' = release ?i (send_terminal (job_sink job) ?t b)"
      using turn None by (simp add: process_job_guarded_def process_job_def)
    have "act ?be now (Look job) (note_action (Look job) b)
        = ([Tell (sink_channel (job_sink job)) [terminal_message (job_sink job) ?t], Release ?i], b)"
      using None by (simp add: look_act_def)
    then show ?thesis
      by (intro alone) (rule runs_act, auto simp: b' send_terminal_def runs_refl intro!: runs_tell runs_release)
  next
    case look: (Some handle)
    show ?thesis
    proof (cases "classify_risk (job_request job) = AutoApprove \<or> job_admission job = Approved")
      case False
      then obtain reason where r: "classify_risk (job_request job) = RequiresApproval reason"
        "job_admission job \<noteq> Approved" by (cases "classify_risk (job_request job)") auto
      then have "b' = park_job now reason job b"
        using turn look by (simp add: process_job_guarded_def process_job_def)
      then show ?thesis using alone park_runs [OF look r] by simp
    next
      case adm: True
      obtain call job1 b1 where ex: "execute be (client_steps ops) job handle b = (call, job1, b1)"
        by (metis prod.exhaust)
      have "settled job call b1 = Some b'" using guarded_settled [OF look adm ex] turn by simp
      then have b': "b' = the (settled job call b1)" and ret: "call \<noteq> NeverReturns"
        by (auto simp: settled_def)
      show ?thesis
      proof (cases "starts job handle b")
        case False
        show ?thesis using alone not_started_runs [OF look adm False ex] b' by simp
      next
        case True
        then obtain s where s: "accept (job_session job) Started = (s, Inr ())"
          and live: "\<not> is_cancelled (ab_signals b) handle"
          by (cases rule: accept_cases [of "job_session job" Started]) (auto simp: starts_def is_ok_def)
        define b0 where "b0 = (case job_sink job of SinkOutcome _ \<Rightarrow> b | SinkEvents c \<Rightarrow> send_events c [Started] b)"
        have after: "after_run (client_steps ops) job handle b = client_steps ops b0"
          using True by (simp add: after_run_def b0_def)
        show ?thesis
          using started_runs [OF look adm s live, of ?be now, folded b0_def]
            guest_runs [OF ex ret s live, of now, unfolded after, folded b'] by blast
      qed
    qed
  qed
qed

lemma guarded_system:
  assumes turn: "process_job_guarded be (client_steps ops) now job b = Some b'" and be: "panics_cleanly be"
  shows "system_steps (system_of b [Look job] others) (system_of b' [] others)"
proof -
  obtain p b1 where run: "runs_to (be\<lparr>be_panics := \<lambda>_. be_panics be job\<rparr>) now ([Look job], b) (p, b1)"
    "p = [] \<and> b1 = b' \<or> runs_to (be\<lparr>be_panics := \<lambda>_. be_panics be job\<rparr>) now (p, client_steps ops b1) ([], b')"
    using guarded_runs [OF turn] by blast
  note worker = worker_run [OF _ panics_cleanly_once [OF be]]
  from run(2) show ?thesis
  proof
    assume "p = [] \<and> b1 = b'"
    then show ?thesis using worker [OF run(1)] by simp
  next
    assume "runs_to (be\<lparr>be_panics := \<lambda>_. be_panics be job\<rparr>) now (p, client_steps ops b1) ([], b')"
    from worker [OF this] show ?thesis
      using worker [OF run(1)] operations_system by (meson rtranclp_trans)
  qed
qed

lemma turn_system:
  assumes "worker_turn be (client_steps ops) now b = Some b'" "panics_cleanly be"
  shows "system_steps (system_of b [] others) (system_of b' [] others)"
proof (cases "ab_queue b")
  case Nil
  then show ?thesis using assms(1) by (simp add: worker_turn_def)
next
  case (Cons job rest)
  have "system_step (system_of b [] others) (system_of (b\<lparr>ab_queue := rest\<rparr>) [Look job] others)"
    using system_step.receive [of "system_of b [] others" job rest] Cons by (simp add: system_of_def)
  moreover have "process_job_guarded be (client_steps ops) now job (b\<lparr>ab_queue := rest\<rparr>) = Some b'"
    using assms(1) Cons by (simp add: worker_turn_def)
  ultimately show ?thesis
    using guarded_system [OF _ assms(2)] by (blast intro: converse_rtranclp_into_rtranclp)
qed

lemma interleaving_steps:
  "system_steps s s' \<Longrightarrow> interleaving capacity timeout s \<Longrightarrow> interleaving capacity timeout s'"
  by (induction rule: rtranclp_induct) (auto intro: interleaving_step)

lemma reachable_interleaving:
  "reachable capacity timeout b \<Longrightarrow> interleaving capacity timeout (system_of b [] {#})"
proof (induction rule: reachable.induct)
  case (reachable_init b)
  then show ?case by (intro interleaving_init) (simp add: system_init_def system_of_def)
next
  case (reachable_client b op)
  then show ?case using interleaving_steps [OF operation_system] by blast
next
  case (reachable_worker b be ops now b')
  then show ?case using interleaving_steps [OF turn_system] by blast
qed

section \<open>Properties\<close>

text \<open>
  C12. The one-step operations are faithful to the locks.  Every operation a caller can ask
  for, run one critical section, send or atomic access at a time with no other thread between
  them, ends with the answer and in the state of its one-step definition.  So does the
  worker's turn for a session: its steps end in the state of \<open>process_job_guarded\<close>, either
  without a guest, or up to the guest's run and, from whatever the operations \<open>ops\<close> of the
  callers made of the broker during that run, on from its end.  (Whether the guest panics is
  asked of the job as it was queued; the lock sections hold it as it was started.)
\<close>

theorem operations_run_alone:
  fixes be :: "'c backend" and job :: "'c job"
  shows "(\<exists>n. (thread_step be now ^^ n) ([first_action op], b) = (answer op b, client_step op b))
    \<and> (process_job_guarded be (client_steps ops) now job b = Some b' \<longrightarrow>
        (\<exists>n p b1. (thread_step (be\<lparr>be_panics := \<lambda>_. be_panics be job\<rparr>) now ^^ n) ([Look job], b) = (p, b1)
          \<and> (p = [] \<and> b1 = b'
             \<or> (\<exists>j h d. p = [Guest j h d]) \<and> (\<exists>m. (thread_step (be\<lparr>be_panics := \<lambda>_. be_panics be job\<rparr>) now ^^ m)
                    (p, client_steps ops b1) = ([], b')))))"
  using operation_runs guarded_runs [of be ops now job b b'] unfolding runs_to_def by metis

theorem operations_run_alone_witness:
  "\<exists>job be n m p b1 b'.
     (thread_step be 0 ^^ n) ([Look job], example_submitted\<lparr>ab_queue := []\<rparr>) = (p, b1)
     \<and> (p = [] \<and> b1 = b' \<or> (thread_step be 0 ^^ m) (p, b1) = ([], b'))
     \<and> ae_outcome (last (bs_audit b')) = AuditFailed"
proof -
  let ?job = "new_job SinkOutcome () example_request 0" and ?b = "example_submitted\<lparr>ab_queue := []\<rparr>"
  let ?be = "example_backend\<lparr>be_panics := \<lambda>_. Some []\<rparr>"
  have job: "job_request ?job = example_request" "job_sink ?job = SinkOutcome 0"
    "job_session ?job = session_new (cr_id example_request) (cg_limits (cr_grant example_request))"
    by (simp_all add: new_job_def)
  have "fmlookup (bs_handles ?b) (cr_id (job_request ?job)) = Some (CancelHandle 0)"
    using example_submitted_fields(2) job by simp
  moreover have "classify_risk (job_request ?job) = AutoApprove"
    using example_auto(1) by (simp add: job example_auto_job_def)
  moreover have "\<exists>s. accept (job_session ?job) Started = (s, Inr ())"
    by (simp add: job accept_def session_new_def)
  moreover have "\<not> is_cancelled (ab_signals ?b) (CancelHandle 0)" using example_submitted_fields(3) by simp
  ultimately have "\<exists>x. process_job_guarded ?be (client_steps []) 0 ?job ?b = Some x \<and> ae_outcome (last (bs_audit x)) = AuditFailed"
    using job
    by (auto simp: process_job_guarded_def process_job_def execute_and_release_def execute_def client_steps_def
        execute_capturing_def Let_def job_entry_def last_n_def DEFAULT_MAX_AUDIT_ENTRIES_def)
  then obtain b' where b': "process_job_guarded ?be (client_steps []) 0 ?job ?b = Some b'"
    "ae_outcome (last (bs_audit b')) = AuditFailed" by blast
  have ops: "client_steps [] x = x" for x :: "unit monitored" by (simp add: client_steps_def)
  from operations_run_alone [of ?be 0 "OpCancel 7" ?b "[]" ?job b'] b' show ?thesis
    unfolding ops by blast
qed

text \<open>
  C13. The coarse histories are among the fine ones: whatever broker the callers, the sweeper
  and the worker can reach by whole operations, they can reach one lock section at a time,
  with every thread idle.
\<close>

theorem histories_are_interleavings:
  assumes "reachable capacity timeout b"
  shows "interleaving capacity timeout \<lparr>sy_broker = b, sy_worker = [], sy_others = {#}\<rparr>"
  using reachable_interleaving [OF assms] by (simp add: system_of_def)

theorem histories_are_interleavings_witness:
  "interleaving 2 100 \<lparr>sy_broker = client_step (OpCancel 1) example_submitted, sy_worker = [], sy_others = {#}\<rparr>"
  by (rule histories_are_interleavings [OF reachable_client [OF example_reachable(2)]])

end
