(* ===== verification/Interleavings.thy ===== *)
theory Interleavings
  imports Broker_Locks
begin

text \<open>
  What holds in every interleaving of the broker's lock sections.  A session is a channel; the
  invariant says that each is in one place at a time (the queue, the pending map, the hands
  of one thread), and what may have been sent on it by then.  It is proved as in separation
  logic: \<open>lock_inv H\<close> is the invariant of a system from which the sessions \<open>H\<close> have been
  taken, and a step takes its session, acts on its channel and puts it back.
\<close>

section \<open>What a channel may carry\<close>

text \<open>
  Beside the grammar of whole operations there is one more story: the end of the session
  overtakes the request for approval.
\<close>

definition overtaken :: "message list \<Rightarrow> bool" where
  "overtaken ms = (case ms of
     [Outcome o', Outcome (OutPendingApproval _)] \<Rightarrow> ends_session (Outcome o')
   | [Event e, Event (PendingApproval _)] \<Rightarrow> ends_session (Event e)
   | _ \<Rightarrow> False)"

definition story :: "message list \<Rightarrow> bool" where
  "story ms = (channel_protocol ms \<or> overtaken ms)"

lemma outcome_rest_prefix: "outcome_rest (xs @ ys) \<Longrightarrow> outcome_rest xs"
  by (auto simp: outcome_rest_def neq_Nil_conv split: list.splits message.splits)

lemma running_rest_prefix: "running_rest (xs @ ys) \<Longrightarrow> running_rest xs"
proof (induction xs rule: running_rest.induct)
  case (2 e)
  then show ?case by (cases ys) auto
qed auto

lemma event_rest_prefix: "event_rest (xs @ ys) \<Longrightarrow> event_rest xs"
proof (cases xs)
  case (Cons m ms)
  assume "event_rest (xs @ ys)"
  then show ?thesis
  proof (cases "m = Event Started")
    case True
    then show ?thesis using \<open>event_rest (xs @ ys)\<close> Cons running_rest_prefix [of ms ys]
      by (simp add: event_rest_def)
  next
    case False
    then have "ms = [] \<and> ys = []"
      using \<open>event_rest (xs @ ys)\<close> Cons
      by (auto simp: event_rest_def split: message.splits session_event.splits list.splits)
    then show ?thesis using \<open>event_rest (xs @ ys)\<close> by simp
  qed
qed (simp add: event_rest_def)

lemma channel_protocol_prefix: "channel_protocol (xs @ ys) \<Longrightarrow> channel_protocol xs"
proof (cases xs)
  case Nil
  then show ?thesis by (simp add: channel_protocol_def outcome_rest_def)
next
  case (Cons m ms)
  assume prot: "channel_protocol (xs @ ys)"
  consider r where "m = Outcome (OutPendingApproval r)" | r where "m = Event (PendingApproval r)"
    | "\<forall>r. m \<noteq> Outcome (OutPendingApproval r) \<and> m \<noteq> Event (PendingApproval r)" by blast
  then show ?thesis
  proof cases
    case 1
    then show ?thesis using prot Cons outcome_rest_prefix by (simp add: channel_protocol_def)
  next
    case 2
    then show ?thesis using prot Cons event_rest_prefix by (simp add: channel_protocol_def)
  next
    case 3
    then have other: "channel_protocol (m # ns) = (outcome_rest (m # ns) \<or> event_rest (m # ns))" for ns
      by (auto simp: channel_protocol_def split: message.splits broker_outcome.splits session_event.splits)
    have "outcome_rest ((m # ms) @ ys) \<or> event_rest ((m # ms) @ ys)"
      using prot Cons other [of "ms @ ys"] by simp
    then have "outcome_rest (m # ms) \<or> event_rest (m # ms)"
      using outcome_rest_prefix event_rest_prefix by blast
    then show ?thesis using Cons other [of ms] by simp
  qed
qed


section \<open>Who holds a session\<close>

fun claim :: "'c action \<Rightarrow> nat multiset" where
  "claim (Enqueue job) = {#channel_of job#}"
| "claim (Push _ job _) = {#channel_of job#}"
| "claim (ApproveLook _ job) = {#channel_of job#}"
| "claim (Tell c ms) = (if ms = [] then {#} else {#c#})"
| "claim (Look job) = {#channel_of job#}"
| "claim (Start job _ _) = {#channel_of job#}"
| "claim (Announce _ job _ _) = {#channel_of job#}"
| "claim (Guest job _ _) = {#channel_of job#}"
| "claim (Forward _ job _ _ _) = {#channel_of job#}"
| "claim (Park job _) = {#channel_of job#}"
| "claim _ = {#}"

definition program_claims :: "'c action list \<Rightarrow> nat multiset" where
  "program_claims p = sum_list (map claim p)"

definition parked_claims :: "('c, 'z) action_broker_scheme \<Rightarrow> nat multiset" where
  "parked_claims b = image_mset (\<lambda>i. channel_of (pj_job (the (fmlookup (bs_pending b) i))))
     (mset_set (fset (fmdom (bs_pending b))))"

definition claims ::
    "('c, 'z) action_broker_scheme \<Rightarrow> 'c action list \<Rightarrow> 'c action list multiset \<Rightarrow> nat multiset" where
  "claims b w others = image_mset channel_of (mset (ab_queue b)) + parked_claims b
     + sum_mset (image_mset program_claims others) + program_claims w"

lemma program_claims_simps [simp]:
  "program_claims [] = {#}" "program_claims (a # p) = claim a + program_claims p"
  "program_claims (p @ q) = program_claims p + program_claims q"
  by (simp_all add: program_claims_def)

lemma parked_claims_cong: "bs_pending b' = bs_pending b \<Longrightarrow> parked_claims b' = parked_claims b"
  by (simp add: parked_claims_def)

lemma parked_claims_take:
  assumes "fmlookup (bs_pending b) i = Some p"
  shows "parked_claims b
    = add_mset (channel_of (pj_job p)) (parked_claims (b\<lparr>bs_pending := fmdrop i (bs_pending b)\<rparr>))"
proof -
  let ?D = "fset (fmdom (bs_pending b))"
  have "i \<in> ?D" using assms by (auto simp: fmlookup_dom_iff)
  then have D: "?D = insert i (?D - {i})" by blast
  have "mset_set ?D = add_mset i (mset_set (?D - {i}))"
    by (subst D, subst mset_set.insert) auto
  moreover have "image_mset (\<lambda>j. channel_of (pj_job (the (fmlookup (bs_pending b) j)))) (mset_set (?D - {i}))
     = image_mset (\<lambda>j. channel_of (pj_job (the (fmlookup (fmdrop i (bs_pending b)) j)))) (mset_set (?D - {i}))"
    by (rule image_mset_cong) auto
  ultimately show ?thesis using assms by (simp add: parked_claims_def)
qed

lemma parked_claims_put:
  "parked_claims (b\<lparr>bs_pending := fmupd i p (bs_pending b)\<rparr>)
    = add_mset (channel_of (pj_job p)) (parked_claims (b\<lparr>bs_pending := fmdrop i (bs_pending b)\<rparr>))"
proof -
  let ?b = "b\<lparr>bs_pending := fmupd i p (bs_pending b)\<rparr>"
  have "fmdrop i (fmupd i p (bs_pending b)) = fmdrop i (bs_pending b)" by (rule fmap_ext) simp
  then show ?thesis using parked_claims_take [of ?b i p] by (simp add: parked_claims_def)
qed

lemma parked_claims_drop:
  "parked_claims (b\<lparr>bs_pending := fmdrop i (bs_pending b)\<rparr>) \<subseteq># parked_claims b"
proof (cases "fmlookup (bs_pending b) i")
  case None
  then have "fmdrop i (bs_pending b) = bs_pending b" by (intro fmap_ext) auto
  then show ?thesis by (simp add: parked_claims_def)
next
  case (Some p)
  then show ?thesis using parked_claims_take [OF Some] by simp
qed


section \<open>What a thread knows of the session in its hands\<close>

text \<open>A job that was validated and has not started; one that is running.\<close>

definition job_in :: "lifecycle set \<Rightarrow> 'c job \<Rightarrow> bool" where
  "job_in ls job = (validate (job_request job) = Ok () \<and> cr_mode (job_request job) = Wasi
     \<and> ss_id (job_session job) = cr_id (job_request job)
     \<and> ss_limits (job_session job) = cg_limits (cr_grant (job_request job))
     \<and> ss_output_bytes (job_session job) = 0 \<and> ss_lifecycle (job_session job) \<in> ls)"

abbreviation unstarted :: "'c job \<Rightarrow> bool" where
  "unstarted \<equiv> job_in {Created, WaitingApproval}"

lemma job_in_mono: "job_in ls job \<Longrightarrow> ls \<subseteq> ls' \<Longrightarrow> job_in ls' job"
  by (auto simp: job_in_def)

text \<open>How a running session was admitted: without approval only if it is harmless.\<close>

definition rightly_admitted :: "'c job \<Rightarrow> bool" where
  "rightly_admitted job =
     (job_admission job = AutoApproved \<and> classify_risk (job_request job) = AutoApprove
      \<or> job_admission job = Approved \<and> classify_risk (job_request job) \<noteq> AutoApprove)"

text \<open>
  The request for approval that the worker is about to send, after it parked the session:
  the other threads may find the session in between.
\<close>

definition notice :: "'c action list \<Rightarrow> (job_sink \<times> approval_reason) option" where
  "notice w = (case w of Notify _ sink reason # _ \<Rightarrow> Some (sink, reason) | _ \<Rightarrow> None)"

definition notice_on :: "'c action list \<Rightarrow> nat \<Rightarrow> (job_sink \<times> approval_reason) option" where
  "notice_on w c = (case notice w of
     Some (sink, reason) \<Rightarrow> if sink_channel sink = c then Some (sink, reason) else None
   | None \<Rightarrow> None)"

text \<open>Nothing was sent on an open channel; or the request for approval was, or is about to be.\<close>

definition unheard :: "'c monitored \<Rightarrow> 'c action list \<Rightarrow> nat \<Rightarrow> bool" where
  "unheard b w c = (notice_on w c = None \<and> (ab_open b c \<longrightarrow> ab_sent b c = []))"

definition heard :: "'c monitored \<Rightarrow> 'c action list \<Rightarrow> job_sink \<Rightarrow> approval_reason \<Rightarrow> bool" where
  "heard b w sink reason = (let c = sink_channel sink in case notice_on w c of
     Some n \<Rightarrow> n = (sink, reason) \<and> (ab_open b c \<longrightarrow> ab_sent b c = [])
   | None \<Rightarrow> ab_open b c \<longrightarrow> ab_sent b c = [pending_message sink reason])"

text \<open>
  A job to run is new, or it was asked for, approved and still waits; one that is parked was
  asked for and waits.
\<close>

definition job_ready :: "'c monitored \<Rightarrow> 'c action list \<Rightarrow> 'c job \<Rightarrow> bool" where
  "job_ready b w job = (case job_admission job of
     AutoApproved \<Rightarrow> job_in {Created} job \<and> unheard b w (channel_of job)
   | Approved \<Rightarrow> job_in {WaitingApproval} job \<and> channel_of job \<in> set (mo_approved b) \<and> (\<exists>reason.
       classify_risk (job_request job) = RequiresApproval reason \<and> heard b w (job_sink job) reason)
   | _ \<Rightarrow> False)"

definition job_waiting :: "'c monitored \<Rightarrow> 'c action list \<Rightarrow> 'c job \<Rightarrow> bool" where
  "job_waiting b w job = (job_in {WaitingApproval} job \<and> job_admission job = AutoApproved \<and> (\<exists>reason.
     classify_risk (job_request job) = RequiresApproval reason \<and> heard b w (job_sink job) reason))"

lemma ready_unstarted: "job_ready b w job \<Longrightarrow> unstarted job"
  by (auto simp: job_ready_def intro: job_in_mono split: approval_decision.splits)

definition ending :: "'c monitored \<Rightarrow> 'c action list \<Rightarrow> nat \<Rightarrow> message list \<Rightarrow> bool" where
  "ending b w c ms = (ms = [] \<or> (\<exists>sink reason m. ms = [m] \<and> sink_channel sink = c
     \<and> ends_session m \<and> of_sink sink m \<and> heard b w sink reason))"

fun other_ok :: "'c monitored \<Rightarrow> 'c action list \<Rightarrow> 'c action \<Rightarrow> bool" where
  "other_ok b w (Submit sink _ _) = (\<forall>c. sink_channel (sink c) = c)"
| "other_ok b w (Enqueue job) = job_ready b w job"
| "other_ok b w (Push _ job _) = job_ready b w job"
| "other_ok b w (ApproveLook _ job) = (job_waiting b w job \<and> channel_of job \<in> set (mo_approved b))"
| "other_ok b w (Tell c ms) = ending b w c ms"
| "other_ok b w (Look _) = False"
| "other_ok b w (Start _ _ _) = False"
| "other_ok b w (Announce _ _ _ _) = False"
| "other_ok b w (Guest _ _ _) = False"
| "other_ok b w (Forward _ _ _ _ _) = False"
| "other_ok b w (Park _ _) = False"
| "other_ok b w (Notify _ _ _) = False"
| "other_ok b w (Unpark _) = False"
| "other_ok b w _ = True"

text \<open>An admitted session is harmless or was approved.\<close>

definition cleared :: "'c monitored \<Rightarrow> 'c job \<Rightarrow> bool" where
  "cleared b job = (classify_risk (job_request job) = AutoApprove \<or> channel_of job \<in> set (mo_approved b))"

definition started_with :: "'c job \<Rightarrow> message list \<Rightarrow> bool" where
  "started_with job ms = (\<exists>asks. asked_first job asks \<and> ms = asks @
     (case job_sink job of SinkOutcome _ \<Rightarrow> [] | SinkEvents _ \<Rightarrow> [Event Started]))"

text \<open>A running guest has sent nothing but output after its start.\<close>

definition streamed_with :: "'c job \<Rightarrow> message list \<Rightarrow> bool" where
  "streamed_with job ms = (\<exists>asks es. asked_first job asks \<and> list_all output_chunk es
     \<and> ms = asks @ Event Started # map Event es)"

definition output_messages :: "message list \<Rightarrow> bool" where
  "output_messages ms = list_all (\<lambda>m. \<exists>e. m = Event e \<and> output_chunk e) ms"

fun worker_ok :: "'c monitored \<Rightarrow> 'c action \<Rightarrow> bool" where
  "worker_ok b (Look job) = job_ready b [] job"
| "worker_ok b (Start job _ d) = (unstarted job \<and> cleared b job \<and> d = job_admission job \<and> rightly_admitted job
     \<and> (ab_open b (channel_of job) \<longrightarrow> asked_first job (ab_sent b (channel_of job))))"
| "worker_ok b (Announce c job _ d) = (job_sink job = SinkEvents c \<and> job_in {Running} job
     \<and> cleared b job \<and> d = job_admission job \<and> rightly_admitted job
     \<and> (ab_open b (channel_of job) \<longrightarrow> asked_first job (ab_sent b (channel_of job))))"
| "worker_ok b (Guest job _ d) = (job_in {Running} job \<and> cleared b job \<and> d = job_admission job \<and> rightly_admitted job
     \<and> (ab_open b (channel_of job) \<longrightarrow> started_with job (ab_sent b (channel_of job))))"
| "worker_ok b (Forward ms job _ d result) = (job_in {Running} job \<and> cleared b job \<and> d = job_admission job \<and> rightly_admitted job
     \<and> (\<exists>c. job_sink job = SinkEvents c) \<and> output_messages ms \<and> (\<forall>m. result m \<noteq> None)
     \<and> (ab_open b (channel_of job) \<longrightarrow> streamed_with job (ab_sent b (channel_of job))))"
| "worker_ok b (Park job reason) = (job_in {Created} job \<and> job_admission job = AutoApproved
     \<and> classify_risk (job_request job) = RequiresApproval reason
     \<and> (ab_open b (channel_of job) \<longrightarrow> ab_sent b (channel_of job) = []))"
| "worker_ok b (Tell c ms) = (ms = [] \<or> (ab_open b c \<longrightarrow> channel_protocol (ab_sent b c @ ms)))"
| "worker_ok b (Record _) = True"
| "worker_ok b (Release _) = True"
| "worker_ok b (Notify _ _ _) = True"
| "worker_ok b (Unpark _) = True"
| "worker_ok b _ = False"

text \<open>The actions that are all the worker has to do.\<close>

fun exclusive :: "'c action \<Rightarrow> bool" where
  "exclusive (Look _) = True"
| "exclusive (Start _ _ _) = True"
| "exclusive (Announce _ _ _ _) = True"
| "exclusive (Guest _ _ _) = True"
| "exclusive (Forward _ _ _ _ _) = True"
| "exclusive (Park _ _) = True"
| "exclusive (Notify _ _ _) = True"
| "exclusive _ = False"

text \<open>The session whose guest is running at an action of the worker.\<close>

definition guest_of :: "'c action \<Rightarrow> 'c job option" where
  "guest_of a = (case a of Guest job _ _ \<Rightarrow> Some job | Forward _ job _ _ _ \<Rightarrow> Some job | _ \<Rightarrow> None)"

lemma guest_of_ok:
  "guest_of a = Some job \<Longrightarrow> \<not> other_ok b w a \<and> exclusive a
     \<and> (worker_ok b a \<longrightarrow> job_in {Running} job \<and> cleared b job \<and> rightly_admitted job)"
  by (cases a) (simp_all add: guest_of_def)

section \<open>The invariant\<close>

definition holders_ok ::
    "nat multiset \<Rightarrow> 'c monitored \<Rightarrow> 'c action list \<Rightarrow> 'c action list multiset \<Rightarrow> bool" where
  "holders_ok H b w others \<longleftrightarrow>
     (\<forall>c. count (claims b w others + H) c \<le> 1)
   \<and> (\<forall>c \<in># claims b w others + H. c < ab_next_channel b)"

definition items_ok :: "'c monitored \<Rightarrow> 'c action list \<Rightarrow> 'c action list multiset \<Rightarrow> bool" where
  "items_ok b w others \<longleftrightarrow>
     list_all (job_ready b w) (ab_queue b)
   \<and> (\<forall>i p. fmlookup (bs_pending b) i = Some p \<longrightarrow> job_waiting b w (pj_job p))
   \<and> (\<forall>p \<in># others. list_all (other_ok b w) p)
   \<and> list_all (worker_ok b) w"

definition worker_shape :: "'c action list \<Rightarrow> bool" where
  "worker_shape w = list_all (\<lambda>a. exclusive a \<longrightarrow> w = [a]) w"

text \<open>The session may end between its parking and the request for approval.\<close>

definition notice_ok ::
    "nat multiset \<Rightarrow> 'c monitored \<Rightarrow> 'c action list \<Rightarrow> 'c action list multiset \<Rightarrow> bool" where
  "notice_ok H b w others = (case notice w of
     None \<Rightarrow> True
   | Some (sink, reason) \<Rightarrow> (let c = sink_channel sink in c < ab_next_channel b
       \<and> (ab_open b c \<longrightarrow> ab_sent b c = []
            \<or> (\<exists>m. ab_sent b c = [m] \<and> ends_session m \<and> of_sink sink m
                 \<and> c \<notin># claims b w others + H))))"

definition stories_ok :: "('c, 'z) action_broker_scheme \<Rightarrow> bool" where
  "stories_ok b \<longleftrightarrow> (\<forall>c. story (ab_sent b c)) \<and> (\<forall>c \<ge> ab_next_channel b. ab_sent b c = [])"

definition lock_inv ::
    "nat multiset \<Rightarrow> 'c monitored \<Rightarrow> 'c action list \<Rightarrow> 'c action list multiset \<Rightarrow> bool" where
  "lock_inv H b w others \<longleftrightarrow> holders_ok H b w others \<and> items_ok b w others \<and> worker_shape w
     \<and> notice_ok H b w others \<and> stories_ok b \<and> sizes_ok b"


section \<open>Taking and putting back\<close>

lemma claims_other: "claims b w (add_mset p others) = program_claims p + claims b w others"
  by (simp add: claims_def ac_simps)

lemma claims_worker: "claims b (a # w) others = claim a + claims b w others"
  by (simp add: claims_def ac_simps)

lemma claims_program: "claims b (p @ w) others = program_claims p + claims b w others"
  by (simp add: claims_def ac_simps)

lemma claims_cong:
  "ab_queue b' = ab_queue b \<Longrightarrow> bs_pending b' = bs_pending b \<Longrightarrow> claims b' w others = claims b w others"
  by (simp add: claims_def parked_claims_def)

lemma claims_queue:
  "claims (b\<lparr>ab_queue := xs @ job # ys\<rparr>) w others
     = add_mset (channel_of job) (claims (b\<lparr>ab_queue := xs @ ys\<rparr>) w others)"
proof -
  have "parked_claims (b\<lparr>ab_queue := q\<rparr>) = parked_claims b" for q by (rule parked_claims_cong) simp
  then show ?thesis by (simp add: claims_def)
qed

lemma claims_parked:
  "parked_claims b = add_mset c (parked_claims b') \<Longrightarrow> ab_queue b' = ab_queue b \<Longrightarrow>
     claims b w others = add_mset c (claims b' w others)"
  by (simp add: claims_def)

text \<open>Facts about a session survive whatever leaves its channel alone.\<close>

definition quiet :: "'c monitored \<Rightarrow> 'c action list \<Rightarrow> 'c monitored \<Rightarrow> 'c action list \<Rightarrow> nat \<Rightarrow> bool" where
  "quiet b w b' w' c = (ab_sent b' c = ab_sent b c \<and> (ab_open b' c \<longrightarrow> ab_open b c)
     \<and> notice_on w' c = notice_on w c \<and> set (mo_approved b) \<subseteq> set (mo_approved b'))"

text \<open>They also survive the worker's notice, which makes the announced message a sent one.\<close>

definition noticed :: "'c monitored \<Rightarrow> 'c action list \<Rightarrow> 'c monitored \<Rightarrow> 'c action list \<Rightarrow> nat \<Rightarrow> bool" where
  "noticed b w b' w' c = (set (mo_approved b) \<subseteq> set (mo_approved b') \<and> (ab_open b' c \<longrightarrow> ab_open b c)
     \<and> notice_on w' c = None \<and> (\<exists>sink reason. notice_on w c = Some (sink, reason)
       \<and> (ab_open b c \<longrightarrow> ab_sent b c = [] \<longrightarrow> ab_sent b' c = [pending_message sink reason])))"

definition keeps :: "'c monitored \<Rightarrow> 'c action list \<Rightarrow> 'c monitored \<Rightarrow> 'c action list \<Rightarrow> nat \<Rightarrow> bool" where
  "keeps b w b' w' c = (quiet b w b' w' c \<or> noticed b w b' w' c)"

lemma keeps_quiet: "quiet b w b' w' c \<Longrightarrow> keeps b w b' w' c"
  by (simp add: keeps_def)

lemma heard_keeps: "heard b w sink reason \<Longrightarrow> keeps b w b' w' (sink_channel sink) \<Longrightarrow> heard b' w' sink reason"
  by (auto simp: heard_def keeps_def quiet_def noticed_def Let_def split: option.splits)

lemma ready_keeps: "job_ready b w job \<Longrightarrow> keeps b w b' w' (channel_of job) \<Longrightarrow> job_ready b' w' job"
  using heard_keeps [of b w "job_sink job" _ b' w']
  by (auto simp: job_ready_def unheard_def channel_of_def keeps_def quiet_def noticed_def
      split: approval_decision.splits)

lemma waiting_keeps: "job_waiting b w job \<Longrightarrow> keeps b w b' w' (channel_of job) \<Longrightarrow> job_waiting b' w' job"
  using heard_keeps [of b w "job_sink job" _ b' w']
  by (auto simp: job_waiting_def channel_of_def)

lemma ending_keeps:
  "ending b w c ms \<Longrightarrow> ms \<noteq> [] \<longrightarrow> keeps b w b' w' c \<Longrightarrow> ending b' w' c ms"
  using heard_keeps [of b w _ _ b' w'] unfolding ending_def by blast

lemma keeps_approved: "keeps b w b' w' c \<Longrightarrow> set (mo_approved b) \<subseteq> set (mo_approved b')"
  by (auto simp: keeps_def quiet_def noticed_def)

lemma other_ok_keeps:
  assumes "other_ok b w a" "\<forall>c \<in># claim a. keeps b w b' w' c"
  shows "other_ok b' w' a"
  using assms ready_keeps [of b w _ b' w'] waiting_keeps [of b w _ b' w'] ending_keeps [of b w _ _ b' w']
  by (cases a) (auto dest: keeps_approved)

lemma worker_ok_quiet:
  assumes "worker_ok b a" "\<forall>c \<in># claim a. quiet b w b' w' c"
  shows "worker_ok b' a"
proof (cases a)
  case (Look job)
  then have "keeps b [] b' [] (channel_of job)" using assms(2) by (simp add: quiet_def keeps_def)
  then show ?thesis using assms(1) Look ready_keeps by auto
next
  case (Tell c ms)
  then show ?thesis using assms by (cases "ms = []") (auto simp: quiet_def)
qed (use assms in \<open>auto simp: quiet_def cleared_def\<close>)

lemma items_ok_keeps:
  assumes "items_ok b w others" "\<forall>c \<in># claims b [] others. keeps b w b' w' c"
    and "ab_queue b' = ab_queue b" "bs_pending b' = bs_pending b" "list_all (worker_ok b') w'"
  shows "items_ok b' w' others"
proof -
  have program: "\<forall>a \<in> set p. \<forall>c \<in># claim a. c \<in># claims b [] others" if "p \<in># others" for p
  proof (intro ballI)
    fix a c assume a: "a \<in> set p" "c \<in># claim a"
    from \<open>p \<in># others\<close> obtain rest where others: "others = add_mset p rest"
      by (blast dest: multi_member_split)
    have "c \<in># program_claims p"
      using a by (auto simp: program_claims_def)
    then show "c \<in># claims b [] others" unfolding others claims_other by simp
  qed
  have parked: "channel_of (pj_job p) \<in># claims b [] others" if "fmlookup (bs_pending b) i = Some p" for i p
    using parked_claims_take [OF that] by (simp add: claims_def)
  show ?thesis
    unfolding items_ok_def assms(3,4)
  proof (intro conjI assms(5))
    have "job_ready b w job \<Longrightarrow> job \<in> set (ab_queue b) \<Longrightarrow> job_ready b' w' job" for job
      using assms(2) ready_keeps [of b w job b' w'] by (simp add: claims_def)
    then show "list_all (job_ready b' w') (ab_queue b)"
      using assms(1) by (auto simp: items_ok_def list_all_iff)
    show "\<forall>i p. fmlookup (bs_pending b) i = Some p \<longrightarrow> job_waiting b' w' (pj_job p)"
      using assms(1,2) parked waiting_keeps unfolding items_ok_def by blast
    show "\<forall>p \<in># others. list_all (other_ok b' w') p"
      unfolding list_all_iff
    proof (intro ballI)
      fix p a assume p: "p \<in># others" and a: "a \<in> set p"
      have "other_ok b w a" using assms(1) p a by (simp add: items_ok_def list_all_iff)
      moreover have "\<forall>c \<in># claim a. keeps b w b' w' c" using program [OF p] a assms(2) by simp
      ultimately show "other_ok b' w' a" by (rule other_ok_keeps)
    qed
  qed
qed

lemma items_ok_quiet:
  assumes "items_ok b w others" "\<forall>c \<in># claims b w others. quiet b w b' w c"
    and "ab_queue b' = ab_queue b" "bs_pending b' = bs_pending b"
  shows "items_ok b' w others"
proof (rule items_ok_keeps [OF assms(1) _ assms(3,4)])
  show "\<forall>c \<in># claims b [] others. keeps b w b' w c"
    using assms(2) keeps_quiet by (fastforce simp: claims_def)
  have worker: "\<forall>a \<in> set w. \<forall>c \<in># claim a. c \<in># claims b w others"
    by (auto simp: claims_def program_claims_def)
  show "list_all (worker_ok b') w"
    unfolding list_all_iff
  proof
    fix a assume a: "a \<in> set w"
    have "worker_ok b a" using assms(1) a by (simp add: items_ok_def list_all_iff)
    moreover have "\<forall>c \<in># claim a. quiet b w b' w c" using worker a assms(2) by simp
    ultimately show "worker_ok b' a" by (rule worker_ok_quiet)
  qed
qed

text \<open>A step that changes only channels in hand, or none.\<close>

lemma inv_frame:
  assumes inv: "lock_inv H b w others"
    and same: "ab_queue b' = ab_queue b" "bs_pending b' = bs_pending b"
      "ab_next_channel b' = ab_next_channel b"
    and sent: "\<And>c. ab_sent b' c = ab_sent b c \<or> c \<in># H \<and> notice_on w c = None"
    and "\<And>c. ab_open b' c \<Longrightarrow> ab_open b c" "set (mo_approved b) \<subseteq> set (mo_approved b')"
    and "\<And>c. c \<in># H \<Longrightarrow> story (ab_sent b' c)" "sizes_ok b'"
  shows "lock_inv H b' w others"
proof -
  note parts = inv [unfolded lock_inv_def]
  have held: "c \<notin># claims b w others" if "c \<in># H" for c
  proof -
    have "count (claims b w others) c + count H c \<le> 1" using parts by (simp add: holders_ok_def)
    moreover have "1 \<le> count H c" using that by (simp only: count_greater_eq_one_iff)
    ultimately have "count (claims b w others) c = 0" by linarith
    then show ?thesis by (simp only: not_in_iff)
  qed
  have quiet: "quiet b w b' w c" if "c \<notin># H" for c
    using sent [of c] that assms(6,7) by (auto simp: quiet_def)
  have items: "items_ok b' w others"
  proof (rule items_ok_quiet [OF _ _ same(1,2)])
    show "items_ok b w others" using parts by simp
    show "\<forall>c \<in># claims b w others. quiet b w b' w c" using held quiet by blast
  qed
  have claims: "claims b' w others = claims b w others" by (rule claims_cong [OF same(1,2)])
  have notice: "notice_ok H b' w others"
  proof (cases "notice w")
    case (Some n)
    obtain sink reason where n: "n = (sink, reason)" by fastforce
    then have "notice_on w (sink_channel sink) \<noteq> None" using Some by (simp add: notice_on_def)
    then have "ab_sent b' (sink_channel sink) = ab_sent b (sink_channel sink)"
      using sent [of "sink_channel sink"] by auto
    moreover have "notice_ok H b w others" using parts by simp
    ultimately show ?thesis using assms(6) [of "sink_channel sink"] Some n
      by (auto simp add: notice_ok_def Let_def same claims)
  qed (simp add: notice_ok_def)
  have "stories_ok b'"
    unfolding stories_ok_def same
  proof (intro conjI allI impI)
    fix c
    show "story (ab_sent b' c)"
    proof (cases "c \<in># H")
      case True
      then show ?thesis using assms(8) by blast
    next
      case False
      then have "ab_sent b' c = ab_sent b c" using sent [of c] by blast
      then show ?thesis using parts by (simp add: stories_ok_def)
    qed
    assume "ab_next_channel b \<le> c"
    then have "c \<notin># H" using parts by (metis holders_ok_def not_le union_iff)
    then show "ab_sent b' c = []"
      using sent [of c] parts \<open>ab_next_channel b \<le> c\<close> by (simp add: stories_ok_def)
  qed
  then show ?thesis using parts items notice assms(9)
    by (simp add: lock_inv_def holders_ok_def same claims)
qed

lemma inv_same:
  assumes "lock_inv H b w others"
    and "ab_queue b' = ab_queue b" "bs_pending b' = bs_pending b"
      "ab_next_channel b' = ab_next_channel b" "ab_sent b' = ab_sent b"
    and "\<And>c. ab_open b' c \<Longrightarrow> ab_open b c" "set (mo_approved b) \<subseteq> set (mo_approved b')" "sizes_ok b'"
  shows "lock_inv H b' w others"
  by (rule inv_frame [OF assms(1-4)]) (use assms in \<open>auto simp: lock_inv_def stories_ok_def\<close>)



text \<open>
  Moving a session between the system and the hands: what matters is that together they hold
  no more than before.
\<close>

lemma holders_fewer:
  assumes "holders_ok H b w others" "claims b' w' others' + H' \<subseteq># claims b w others + H"
    and "ab_next_channel b' = ab_next_channel b"
  shows "holders_ok H' b' w' others'"
  unfolding holders_ok_def assms(3)
proof (intro conjI allI ballI)
  fix c
  have "count (claims b' w' others' + H') c \<le> count (claims b w others + H) c"
    using assms(2) by (rule mset_subset_eq_count)
  also have "\<dots> \<le> 1" using assms(1) by (simp add: holders_ok_def)
  finally show "count (claims b' w' others' + H') c \<le> 1" .
next
  fix c assume "c \<in># claims b' w' others' + H'"
  then have "c \<in># claims b w others + H" using assms(2) by (rule mset_subset_eqD [rotated])
  then show "c < ab_next_channel b" using assms(1) by (auto simp: holders_ok_def)
qed

lemma inv_move:
  assumes inv: "lock_inv H b w others"
    and "claims b' w' others' + H' \<subseteq># claims b w others + H" "ab_next_channel b' = ab_next_channel b"
    and items: "items_ok b' w' others'" and "worker_shape w'" and "notice w' = notice w \<or> notice w' = None"
    and "ab_sent b' = ab_sent b" "ab_open b' = ab_open b" "sizes_ok b'"
  shows "lock_inv H' b' w' others'"
proof -
  note parts = inv [unfolded lock_inv_def]
  have "holders_ok H' b' w' others'"
    using holders_fewer [OF _ assms(2,3)] parts by blast
  moreover have "notice_ok H' b' w' others'"
  proof -
    have "c \<notin># claims b w others + H \<Longrightarrow> c \<notin># claims b' w' others' + H'" for c
      using assms(2) by (meson mset_subset_eqD)
    then show ?thesis using parts assms(3,6-8)
      by (auto simp: notice_ok_def Let_def split: option.splits)
  qed
  moreover have "stories_ok b'" using parts assms(3,7) by (simp add: stories_ok_def)
  ultimately show ?thesis using assms(4,5,9) by (simp add: lock_inv_def)
qed

lemma take_other:
  assumes inv: "lock_inv H b w (add_mset (a # rest) others)"
  shows "lock_inv (H + claim a) b w (add_mset rest others)" "other_ok b w a"
proof -
  have items: "items_ok b w (add_mset (a # rest) others)" using inv by (simp add: lock_inv_def)
  then show "other_ok b w a" by (simp add: items_ok_def)
  show "lock_inv (H + claim a) b w (add_mset rest others)"
    by (rule inv_move [OF inv]) (use inv items in
      \<open>simp_all add: claims_other items_ok_def lock_inv_def ac_simps\<close>)
qed

lemma put_other:
  assumes inv: "lock_inv (H + program_claims next) b w (add_mset rest others)"
    and "list_all (other_ok b w) next"
  shows "lock_inv H b w (add_mset (next @ rest) others)"
proof -
  have items: "items_ok b w (add_mset rest others)" using inv by (simp add: lock_inv_def)
  show ?thesis
    by (rule inv_move [OF inv]) (use inv items assms(2) in
      \<open>simp_all add: claims_other items_ok_def lock_inv_def ac_simps\<close>)
qed

text \<open>The worker gives its program up before it acts, except on a notice.\<close>

lemma shape_tail: "worker_shape (a # rest) \<Longrightarrow> \<forall>a \<in> set rest. \<not> exclusive a"
  by (auto simp: worker_shape_def list_all_iff)

lemma notice_tail: "worker_shape (a # rest) \<Longrightarrow> notice rest = None"
  using shape_tail [of a rest] by (auto simp: notice_def split: list.split action.split)

lemma notice_none:
  "notice w = None \<Longrightarrow> notice_on w c = None" "notice [] = None"
  by (simp_all add: notice_on_def notice_def)

lemma items_ok_notice:
  assumes "items_ok b w others" "notice w' = notice w" "list_all (worker_ok b) w'"
  shows "items_ok b w' others"
proof -
  have on: "notice_on w' = notice_on w" using assms(2) by (simp add: notice_on_def fun_eq_iff)
  have heard: "heard b w' = heard b w" "unheard b w' = unheard b w"
    by (simp_all add: heard_def unheard_def on fun_eq_iff)
  have "job_ready b w' = job_ready b w" "job_waiting b w' = job_waiting b w" "ending b w' = ending b w"
    by (simp_all add: job_ready_def job_waiting_def ending_def heard fun_eq_iff split: approval_decision.split)
  moreover have "other_ok b w' a = other_ok b w a" for a
    using calculation by (cases a) simp_all
  then have "other_ok b w' = other_ok b w" by blast
  ultimately show ?thesis using assms(1,3) by (simp add: items_ok_def)
qed

lemma take_worker:
  assumes inv: "lock_inv H b (a # rest) others" and "notice (a # rest) = None"
  shows "lock_inv (H + claim a) b rest others" "worker_ok b a" "\<forall>a \<in> set rest. \<not> exclusive a"
    "exclusive a \<Longrightarrow> rest = []"
proof -
  have items: "items_ok b (a # rest) others" and shape: "worker_shape (a # rest)"
    using inv by (simp_all add: lock_inv_def)
  show "worker_ok b a" using items by (simp add: items_ok_def)
  show "\<forall>a \<in> set rest. \<not> exclusive a" using shape_tail [OF shape] .
  then have shape': "worker_shape rest" by (simp add: worker_shape_def list_all_iff)
  show "exclusive a \<Longrightarrow> rest = []" using shape by (simp add: worker_shape_def)
  have none: "notice rest = None" using notice_tail [OF shape] .
  have items': "items_ok b rest others"
    by (rule items_ok_notice [OF items]) (use items none assms(2) in \<open>simp_all add: items_ok_def\<close>)
  show "lock_inv (H + claim a) b rest others"
    by (rule inv_move [OF inv _ _ items' shape']) (use inv none in
      \<open>simp_all add: claims_worker lock_inv_def ac_simps\<close>)
qed

lemma put_worker:
  assumes inv: "lock_inv (H + program_claims next) b rest others"
    and rest: "\<forall>a \<in> set rest. \<not> exclusive a" and shape: "worker_shape (next @ rest)"
    and none: "notice (next @ rest) = None" "notice rest = None" and new: "list_all (worker_ok b) next"
  shows "lock_inv H b (next @ rest) others"
proof -
  have items: "items_ok b rest others" using inv by (simp add: lock_inv_def)
  have items': "items_ok b (next @ rest) others"
    by (rule items_ok_notice [OF items]) (use items new none in \<open>simp_all add: items_ok_def\<close>)
  show ?thesis
    by (rule inv_move [OF inv _ _ items' shape]) (use inv none in
      \<open>simp_all add: claims_program lock_inv_def ac_simps\<close>)
qed

text \<open>Sessions of the pending map and of the queue.\<close>

lemma facts_same:
  assumes "ab_sent b' = ab_sent b" "ab_open b' = ab_open b" "mo_approved b' = mo_approved b"
  shows "job_ready b' = job_ready b" "job_waiting b' = job_waiting b" "other_ok b' = other_ok b"
    "worker_ok b' = worker_ok b"
proof -
  have heard: "heard b' = heard b" "unheard b' = unheard b"
    using assms by (simp_all add: heard_def unheard_def fun_eq_iff Let_def split: option.split)
  then show jobs: "job_ready b' = job_ready b" "job_waiting b' = job_waiting b"
    using assms by (simp_all add: job_ready_def job_waiting_def fun_eq_iff split: approval_decision.split)
  have "other_ok b' v a = other_ok b v a" "worker_ok b' a = worker_ok b a" for a v
    using heard jobs assms by (cases a; simp add: ending_def cleared_def)+
  then show "other_ok b' = other_ok b" "worker_ok b' = worker_ok b" by blast+
qed

lemma take_parked:
  assumes inv: "lock_inv H b w others" and p: "fmlookup (bs_pending b) i = Some p"
  shows "lock_inv (add_mset (channel_of (pj_job p)) H) (b\<lparr>bs_pending := fmdrop i (bs_pending b)\<rparr>) w others"
    and "job_waiting b w (pj_job p)"
proof -
  let ?b = "b\<lparr>bs_pending := fmdrop i (bs_pending b)\<rparr>"
  have items: "items_ok b w others" using inv by (simp add: lock_inv_def)
  then show "job_waiting b w (pj_job p)" using p by (simp add: items_ok_def)
  note eq = facts_same [of ?b b, simplified]
  have "items_ok ?b w others"
    using items by (auto simp: items_ok_def eq split: if_splits)
  then show "lock_inv (add_mset (channel_of (pj_job p)) H) ?b w others"
    by (intro inv_move [OF inv]) (use inv claims_parked [OF parked_claims_take [OF p]] in
      \<open>simp_all add: lock_inv_def sizes_ok_def\<close>)
qed

lemma drop_parked:
  assumes inv: "lock_inv H b w others"
  shows "lock_inv H (b\<lparr>bs_pending := fmdrop i (bs_pending b)\<rparr>) w others"
proof -
  let ?b = "b\<lparr>bs_pending := fmdrop i (bs_pending b)\<rparr>"
  note eq = facts_same [of ?b b, simplified]
  have "items_ok ?b w others"
    using inv by (auto simp: lock_inv_def items_ok_def eq split: if_splits)
  moreover have "claims ?b w others \<subseteq># claims b w others"
    using parked_claims_drop [of i b] by (simp add: claims_def)
  ultimately show ?thesis
    by (intro inv_move [OF inv]) (use inv in \<open>simp_all add: lock_inv_def sizes_ok_def\<close>)
qed

lemma put_parked:
  assumes inv: "lock_inv (add_mset (channel_of (pj_job p)) H) b w others"
    and job: "job_waiting b w (pj_job p)"
  shows "lock_inv H (b\<lparr>bs_pending := fmupd i p (bs_pending b)\<rparr>) w others"
proof -
  let ?b = "b\<lparr>bs_pending := fmupd i p (bs_pending b)\<rparr>"
  note eq = facts_same [of ?b b, simplified]
  have "items_ok ?b w others"
    using inv job by (auto simp: lock_inv_def items_ok_def eq split: if_splits)
  moreover have "claims ?b w others \<subseteq># add_mset (channel_of (pj_job p)) (claims b w others)"
    using parked_claims_drop [of i b] by (simp add: claims_def parked_claims_put)
  ultimately show ?thesis
    by (intro inv_move [OF inv]) (use inv in \<open>simp_all add: lock_inv_def sizes_ok_def\<close>)
qed

lemma take_queue:
  assumes inv: "lock_inv H b w others" and q: "ab_queue b = job # rest"
  shows "lock_inv (add_mset (channel_of job) H) (b\<lparr>ab_queue := rest\<rparr>) w others" "job_ready b w job"
proof -
  let ?b = "b\<lparr>ab_queue := rest\<rparr>"
  note eq = facts_same [of ?b b, simplified]
  show "job_ready b w job" using inv q by (simp add: lock_inv_def items_ok_def)
  have "items_ok ?b w others"
    using inv q by (auto simp: lock_inv_def items_ok_def eq)
  moreover have "claims b w others = add_mset (channel_of job) (claims ?b w others)"
    using q by (simp add: claims_def parked_claims_def)
  ultimately show "lock_inv (add_mset (channel_of job) H) ?b w others"
    by (intro inv_move [OF inv]) (use inv in \<open>simp_all add: lock_inv_def sizes_ok_def\<close>)
qed

lemma put_queue:
  assumes inv: "lock_inv (add_mset (channel_of job) H) b w others" and job: "job_ready b w job"
  shows "lock_inv H (b\<lparr>ab_queue := ab_queue b @ [job]\<rparr>) w others"
proof -
  let ?b = "b\<lparr>ab_queue := ab_queue b @ [job]\<rparr>"
  note eq = facts_same [of ?b b, simplified]
  have "items_ok ?b w others"
    using inv job by (auto simp: lock_inv_def items_ok_def eq)
  moreover have "claims ?b w others = add_mset (channel_of job) (claims b w others)"
    by (simp add: claims_def parked_claims_def)
  ultimately show ?thesis
    by (intro inv_move [OF inv]) (use inv in \<open>simp_all add: lock_inv_def sizes_ok_def\<close>)
qed

text \<open>Letting go of a session that is over.\<close>

lemma let_go: "lock_inv (H + K) b w others \<Longrightarrow> lock_inv H b w others"
  by (rule inv_move [of "H + K" b w others]) (simp_all add: lock_inv_def)


section \<open>Acting on the session in hand\<close>

lemma story_simps [simp]: "story []"
  by (simp add: story_def channel_protocol_def outcome_rest_def)

lemma send_sent_cases:
  "ab_sent (snd (channel_send c m b)) d = ab_sent b d
     \<or> d = c \<and> ab_open b c \<and> ab_sent (snd (channel_send c m b)) d = ab_sent b d @ [m]"
  by (simp add: chan.send_sent)

lemma send_held:
  assumes inv: "lock_inv H b w others" and c: "c \<in># H" "notice_on w c = None"
    and "ab_open b c \<Longrightarrow> story (ab_sent b c @ [m])"
  shows "lock_inv H (snd (channel_send c m b)) w others"
proof (rule inv_frame [OF inv])
  show "ab_sent (snd (channel_send c m b)) d = ab_sent b d \<or> d \<in># H \<and> notice_on w d = None" for d
    using c by (auto simp: chan.send_sent)
  show "story (ab_sent (snd (channel_send c m b)) d)" for d
    using assms(4) inv by (auto simp: chan.send_sent lock_inv_def stories_ok_def)
qed (use inv in \<open>simp_all add: send_history lock_inv_def sizes_ok_def\<close>)

text \<open>
  The end of a session that never ran: the request for approval was sent before it, or will
  overtake nobody.
\<close>

lemma story_asked_end:
  "ends_session m \<Longrightarrow> of_sink sink m \<Longrightarrow> story [pending_message sink reason, m]"
  "ends_session m \<Longrightarrow> story [m]"
  "ends_session m \<Longrightarrow> of_sink sink m \<Longrightarrow> story [m, pending_message sink reason]"
  "story [pending_message sink reason]"
proof -
  have "story [pending_message sink reason, m] \<and> story [m, pending_message sink reason]"
    if ends: "ends_session m" and sink: "of_sink sink m"
  proof -
    consider c o' where "sink = SinkOutcome c" "m = Outcome o'" | c e where "sink = SinkEvents c" "m = Event e"
      using sink by (auto simp: of_sink_def split: job_sink.splits message.splits)
    then show ?thesis
    proof cases
      case 1
      then show ?thesis using ends
        by (cases o') (simp_all add: story_def channel_protocol_def overtaken_def pending_message_def outcome_rest_def)
    next
      case 2
      then show ?thesis using ends
        by (cases e) (simp_all add: story_def channel_protocol_def overtaken_def pending_message_def event_rest_def)
    qed
  qed
  then show "ends_session m \<Longrightarrow> of_sink sink m \<Longrightarrow> story [pending_message sink reason, m]"
    "ends_session m \<Longrightarrow> of_sink sink m \<Longrightarrow> story [m, pending_message sink reason]" by blast+
  show "story [pending_message sink reason]"
    by (auto simp: story_def channel_protocol_def pending_message_def outcome_rest_def event_rest_def
        split: job_sink.splits)
  show "story [m]" if "ends_session m"
  proof (cases m)
    case (Outcome o')
    then show ?thesis using that
      by (cases o') (simp_all add: story_def channel_protocol_def outcome_rest_def event_rest_def)
  next
    case (Event e)
    then show ?thesis using that
      by (cases e) (simp_all add: story_def channel_protocol_def outcome_rest_def event_rest_def)
  qed
qed

lemma send_end:
  assumes inv: "lock_inv (add_mset (sink_channel sink) H) b w others"
    and heard: "heard b w sink reason" and m: "ends_session m" "of_sink sink m"
  shows "lock_inv H (snd (channel_send (sink_channel sink) m b)) w others"
proof (cases "notice_on w (sink_channel sink)")
  case None
  have "lock_inv (add_mset (sink_channel sink) H) (snd (channel_send (sink_channel sink) m b)) w others"
  proof (rule send_held [OF inv])
    show "story (ab_sent b (sink_channel sink) @ [m])" if "ab_open b (sink_channel sink)"
      using heard None that story_asked_end(1) [OF m] by (simp add: heard_def Let_def)
  qed (use None in simp_all)
  then show ?thesis using let_go [of H "{#sink_channel sink#}"] by simp
next
  case (Some n)
  let ?c = "sink_channel sink" and ?b = "snd (channel_send (sink_channel sink) m b)"
  have n: "n = (sink, reason)" and empty: "ab_open b ?c \<Longrightarrow> ab_sent b ?c = []"
    using heard Some by (simp_all add: heard_def Let_def)
  then have note_eq: "notice w = Some (sink, reason)"
    using Some by (auto simp: notice_on_def split: option.splits prod.splits if_splits)
  note parts = inv [unfolded lock_inv_def]
  have free: "?c \<notin># claims b w others + H"
  proof -
    have "count (claims b w others + add_mset ?c H) ?c \<le> 1" using parts unfolding holders_ok_def by blast
    moreover have "count (claims b w others + add_mset ?c H) ?c = Suc (count (claims b w others + H) ?c)" by simp
    ultimately have "count (claims b w others + H) ?c = 0" by linarith
    then show ?thesis by (simp only: not_in_iff)
  qed
  have claims: "claims ?b w others = claims b w others" by (rule claims_cong) simp_all
  have "holders_ok H ?b w others"
    by (rule holders_fewer [of "add_mset ?c H" b w others]) (use parts claims in simp_all)
  moreover have "items_ok ?b w others"
  proof (rule items_ok_quiet)
    show "items_ok b w others" using parts by simp
    show "\<forall>d \<in># claims b w others. quiet b w ?b w d"
      using free by (auto simp: quiet_def send_history chan.send_sent)
  qed simp_all
  moreover have "notice_ok H ?b w others"
    using parts empty free m note_eq
    by (auto simp: notice_ok_def Let_def claims chan.send_sent)
  moreover have "stories_ok ?b"
    using parts empty story_asked_end(2) [OF m(1)]
    by (auto simp: stories_ok_def chan.send_sent holders_ok_def)
  moreover have "sizes_ok ?b" using parts by (simp add: sizes_ok_def)
  ultimately show ?thesis using parts by (simp add: lock_inv_def)
qed

lemma new_channel:
  assumes inv: "lock_inv H b w others" and new: "channel_new b = (c, b')"
  shows "lock_inv (add_mset c H) b' w others" "unheard b' w c" "mo_approved b' = mo_approved b"
proof -
  note parts = inv [unfolded lock_inv_def]
  have c: "c = ab_next_channel b" and b': "b' = snd (channel_new b)"
    using new by (auto simp: channel_new_def)
  have empty: "ab_sent b c = []" using parts by (simp add: stories_ok_def c)
  then have sent: "ab_sent b' = ab_sent b" by (auto simp: b' c)
  have nt: "notice_on w c = None"
    using parts by (auto simp: notice_ok_def notice_on_def Let_def c split: option.splits)
  then show "unheard b' w c" by (simp add: unheard_def sent empty)
  show mo: "mo_approved b' = mo_approved b" using new by (auto simp: channel_new_def)
  have claims: "claims b' w others = claims b w others" by (rule claims_cong) (simp_all add: b')
  have fresh: "c \<notin># claims b w others + H" using parts by (auto simp: holders_ok_def c)
  have "holders_ok (add_mset c H) b' w others"
    unfolding holders_ok_def claims
  proof (intro conjI allI ballI)
    fix d
    have "count (claims b w others + H) d \<le> 1" using parts by (simp add: holders_ok_def)
    moreover have "count (claims b w others + H) c = 0" using fresh by (simp only: not_in_iff)
    ultimately show "count (claims b w others + add_mset c H) d \<le> 1" by (cases "d = c") simp_all
  next
    fix d assume "d \<in># claims b w others + add_mset c H"
    then have "d = c \<or> d \<in># claims b w others + H" by auto
    moreover have "\<forall>d \<in># claims b w others + H. d < ab_next_channel b"
      using parts unfolding holders_ok_def by blast
    ultimately show "d < ab_next_channel b'" by (auto simp: b' c less_Suc_eq)
  qed
  moreover have "items_ok b' w others"
  proof (rule items_ok_quiet)
    show "items_ok b w others" using parts by simp
    show "\<forall>d \<in># claims b w others. quiet b w b' w d"
      using fresh by (auto simp: quiet_def sent mo) (auto simp: b' c split: if_splits)
  qed (simp_all add: b')
  moreover have "notice_ok (add_mset c H) b' w others"
    using parts fresh
    by (auto simp: notice_ok_def Let_def sent claims split: option.splits) (auto simp: b' c)
  moreover have "stories_ok b'"
    using parts by (auto simp: stories_ok_def sent) (simp add: b')
  moreover have "sizes_ok b'" using parts by (simp add: sizes_ok_def b')
  ultimately show "lock_inv (add_mset c H) b' w others" using parts by (simp add: lock_inv_def)
qed


section \<open>The callers and the sweeper\<close>

lemma closing_claims [simp]: "program_claims (closing i job t d out) = {#channel_of job#}"
  by (simp add: closing_def channel_of_def)

lemma closing_ok:
  assumes "job_waiting b w job"
  shows "list_all (other_ok b w) (closing i job t d out)"
proof -
  obtain reason where "heard b w (job_sink job) reason" using assms by (auto simp: job_waiting_def)
  then have "ending b w (channel_of job) [terminal_message (job_sink job) t]"
    using terminal_message_ends [of "job_sink job" t] by (auto simp: ending_def channel_of_def)
  then show "list_all (other_ok b w) (closing i job t d out)"
    by (simp add: closing_def channel_of_def)
qed

text \<open>What a program step has to provide: the invariant with the next actions in hand.\<close>

definition step_ok ::
    "'c action list \<times> 'c monitored \<Rightarrow> 'c action list \<Rightarrow> 'c action list multiset \<Rightarrow> bool" where
  "step_ok s w others = (lock_inv (program_claims (fst s)) (snd s) w others
     \<and> list_all (other_ok (snd s) w) (fst s))"

lemma submit_ok:
  assumes inv: "lock_inv {#} b w others" and sink: "\<forall>c. sink_channel (sink c) = c"
  shows "step_ok (submit_act sink component r b) w others"
proof (cases "validate r = Inr () \<and> cr_mode r = Wasi")
  case False
  then show ?thesis using inv
    by (cases "validate r") (auto simp: submit_act_def step_ok_def)
next
  case True
  obtain c b1 where new: "channel_new b = (c, b1)" by fastforce
  let ?job = "\<lparr>job_request = r, job_component = component, job_sink = sink c,
      job_session = session_new (cr_id r) (cg_limits (cr_grant r)), job_admission = AutoApproved\<rparr>"
  have c: "channel_of ?job = c" using sink by (simp add: channel_of_def)
  have "job_ready b1 w ?job"
    using True new_channel(2) [OF inv new] c
    by (simp add: job_ready_def job_in_def session_new_def)
  then show ?thesis
    using True new new_channel(1) [OF inv new] c by (simp add: submit_act_def step_ok_def)
qed

lemma enqueue_ok:
  assumes inv: "lock_inv {#channel_of job#} b w others" and job: "job_ready b w job"
  shows "step_ok (enqueue_act job b) w others"
proof (cases "unat (ab_capacity b) \<le> fcard (fmdom (bs_handles b))")
  case True
  then show ?thesis using let_go [of "{#}"] inv by (simp add: enqueue_act_def step_ok_def Let_def)
next
  case False
  obtain handle m where new: "cancel_handle_new (ab_signals b) = (handle, m)" by fastforce
  let ?i = "cr_id (job_request job)"
  let ?b = "b\<lparr>ab_signals := m, bs_handles := fmupd ?i handle (bs_handles b)\<rparr>"
  have "sizes_ok b" using inv by (simp add: lock_inv_def)
  moreover have "fcard (finsert ?i (fmdom (bs_handles b))) \<le> Suc (fcard (fmdom (bs_handles b)))"
    by (simp add: fcard_finsert_if)
  ultimately have "sizes_ok ?b" using False by (simp add: sizes_ok_def)
  then have "lock_inv {#channel_of job#} ?b w others" by (intro inv_same [OF inv]) simp_all
  moreover have "job_ready ?b w job" using job facts_same(1) [of ?b b] by simp
  ultimately show ?thesis using False new by (simp add: enqueue_act_def step_ok_def Let_def)
qed

lemma push_ok:
  assumes inv: "lock_inv {#channel_of job#} b w others" and job: "job_ready b w job"
  shows "step_ok (push_act i job reply b) w others"
  using put_queue [of job "{#}" b w others] let_go [of "{#}" "{#channel_of job#}" b w others] assms
  by (simp add: push_act_def step_ok_def)

lemma taken_ok:
  assumes inv: "lock_inv {#} b w others" and p: "fmlookup (bs_pending b) i = Some p"
  shows "lock_inv {#channel_of (pj_job p)#} (b\<lparr>bs_pending := fmdrop i (bs_pending b)\<rparr>) w others"
    and "job_waiting (b\<lparr>bs_pending := fmdrop i (bs_pending b)\<rparr>) w (pj_job p)"
  using take_parked [OF inv p] facts_same(2) [of "b\<lparr>bs_pending := fmdrop i (bs_pending b)\<rparr>" b]
  by simp_all

lemma deny_ok:
  assumes inv: "lock_inv {#} b w others"
  shows "step_ok (deny_take i b) w others"
proof (cases "fmlookup (bs_pending b) i")
  case (Some p)
  then show ?thesis using taken_ok [OF inv Some] closing_ok
    by (simp add: deny_take_def step_ok_def)
qed (use inv in \<open>simp add: deny_take_def step_ok_def\<close>)

lemma cancel_take_ok:
  assumes inv: "lock_inv {#} b w others"
  shows "step_ok (cancel_take i b) w others"
proof (cases "fmlookup (bs_pending b) i")
  case (Some p)
  then show ?thesis using taken_ok [OF inv Some] closing_ok
    by (simp add: cancel_take_def step_ok_def)
qed (use inv in \<open>simp add: cancel_take_def step_ok_def\<close>)

lemma expire_ok:
  assumes inv: "lock_inv {#} b w others"
  shows "step_ok (expire_take i b) w others"
proof (cases "fmlookup (bs_pending b) i")
  case (Some p)
  then show ?thesis using taken_ok [OF inv Some] closing_ok
    by (simp add: expire_take_def step_ok_def)
qed (use inv in \<open>simp add: expire_take_def step_ok_def\<close>)

lemma approve_take_ok:
  assumes inv: "lock_inv {#} b w others"
  shows "step_ok (approve_take i (note_approval i b)) w others"
proof (cases "fmlookup (bs_pending b) i")
  case None
  then show ?thesis using inv by (simp add: approve_take_def step_ok_def approve_noted)
next
  case (Some p)
  let ?b = "b\<lparr>mo_approved := mo_approved b @ [channel_of (pj_job p)]\<rparr>"
  have "sizes_ok ?b" using inv by (simp add: lock_inv_def sizes_ok_def)
  then have inv': "lock_inv {#} ?b w others" by (intro inv_same [OF inv]) auto
  have p: "fmlookup (bs_pending ?b) i = Some p" using Some by simp
  show ?thesis using taken_ok [OF inv' p] Some
    by (simp add: approve_take_def step_ok_def approve_noted)
qed

lemma approve_look_ok:
  assumes inv: "lock_inv {#channel_of job#} b w others"
    and job: "job_waiting b w job" "channel_of job \<in> set (mo_approved b)"
  shows "step_ok (approve_look i job b) w others"
proof -
  have "job_ready b w (job\<lparr>job_admission := Approved\<rparr>)"
    using job by (auto simp: job_ready_def job_waiting_def job_in_def channel_of_def)
  moreover have "channel_of (job\<lparr>job_admission := Approved\<rparr>) = channel_of job"
    by (simp add: channel_of_def)
  ultimately show ?thesis using inv closing_ok [OF job(1)]
    by (simp add: approve_look_def step_ok_def)
qed

lemma tell_ok:
  assumes inv: "lock_inv {#c#} b w others" and ms: "ending b w c (m # ms)"
  shows "step_ok ([Tell c ms], snd (channel_send c m b)) w others"
proof -
  obtain sink reason where sink: "sink_channel sink = c" "ms = []" "ends_session m" "of_sink sink m"
    "heard b w sink reason" using ms by (auto simp: ending_def)
  then show ?thesis using send_end [of sink "{#}" b w others reason m] inv
    by (simp add: step_ok_def ending_def)
qed

lemma hang_up_ok:
  assumes inv: "lock_inv {#} b w others"
  shows "lock_inv {#} (hang_up c b) w others"
  by (rule inv_same [OF inv])
    (use inv in \<open>auto simp: hang_up_def lock_inv_def sizes_ok_def split: if_splits\<close>)

lemma expire_claims: "program_claims (map ExpireTake ids) = {#}"
  by (induction ids) simp_all

lemma sweep_list_ok:
  "lock_inv {#} b w others \<Longrightarrow> step_ok (sweep_list order now b) w others"
proof -
  have "list_all (other_ok b w) (map ExpireTake ids)" for ids by (induction ids) simp_all
  then show "lock_inv {#} b w others \<Longrightarrow> step_ok (sweep_list order now b) w others"
    by (simp add: sweep_list_def step_ok_def expire_claims)
qed

lemma plain_ok:
  assumes inv: "lock_inv {#} b w others"
  shows "lock_inv {#} (release i b) w others" "lock_inv {#} (audit_record e b) w others"
    "lock_inv {#} (b\<lparr>ab_signals := m\<rparr>) w others"
proof -
  have sizes: "sizes_ok b" using inv by (simp add: lock_inv_def)
  have mo: "mo_approved (release i b) = mo_approved b" by (simp add: release_def)
  show "lock_inv {#} (release i b) w others"
    by (rule inv_same [OF inv]) (use sizes_release [OF sizes] mo in simp_all)
  show "lock_inv {#} (audit_record e b) w others"
    by (rule inv_same [OF inv]) (use sizes_audit [OF sizes] in \<open>simp_all add: audit_record_eq\<close>)
  show "lock_inv {#} (b\<lparr>ab_signals := m\<rparr>) w others"
    by (rule inv_same [OF inv]) (use sizes in \<open>simp_all add: sizes_ok_def\<close>)
qed

lemma other_step_ok:
  assumes inv: "lock_inv (claim a) b w others" and a: "other_ok b w a"
  shows "step_ok (act be now a (note_action a b)) w others"
proof (cases a)
  case (Tell c ms)
  then show ?thesis
    using inv a tell_ok [of c b w others] by (cases ms) (simp_all add: step_ok_def)
next
  case (CancelLook i)
  then show ?thesis using inv by (simp add: cancel_look_def step_ok_def split: option.split)
next
  case (Submit sink component r)
  then show ?thesis using inv a submit_ok [of b w others sink] by simp
next
  case (Enqueue job)
  then show ?thesis using inv a enqueue_ok [of job b w others] by simp
next
  case (Push i job reply)
  then show ?thesis using inv a push_ok [of job b w others] by simp
next
  case (ApproveLook i job)
  then show ?thesis using inv a approve_look_ok [of job b w others] by simp
next
  case (ApproveTake i)
  then show ?thesis using inv approve_take_ok [of b w others] by simp
next
  case (DenyTake i)
  then show ?thesis using inv deny_ok [of b w others] by simp
next
  case (CancelTake i)
  then show ?thesis using inv cancel_take_ok [of b w others] by simp
next
  case (ExpireTake i)
  then show ?thesis using inv expire_ok [of b w others] by simp
next
  case (SweepList order time)
  then show ?thesis using inv sweep_list_ok [of b w others] by simp
next
  case (HangUp c)
  then show ?thesis using inv hang_up_ok [of b w others c] by (simp add: step_ok_def)
qed (use inv a plain_ok [of b w others] in \<open>simp_all add: step_ok_def\<close>)

lemma other_act_inv:
  assumes "lock_inv {#} b w (add_mset (a # rest) others)" "act be now a (note_action a b) = (next, b')"
  shows "lock_inv {#} b' w (add_mset (next @ rest) others)"
proof -
  have "lock_inv (claim a) b w (add_mset rest others)" "other_ok b w a"
    using take_other [OF assms(1)] by simp_all
  then have "step_ok (next, b') w (add_mset rest others)"
    using other_step_ok [of a b w "add_mset rest others" be now] assms(2) by simp
  then show ?thesis
    using put_other [of "{#}" "next" b' w rest others] by (simp add: step_ok_def)
qed


section \<open>The worker\<close>

text \<open>What a step of the worker has to provide.\<close>

definition work_ok ::
    "'c action list \<times> 'c monitored \<Rightarrow> 'c action list \<Rightarrow> 'c action list multiset \<Rightarrow> bool" where
  "work_ok s rest others = (lock_inv (program_claims (fst s)) (snd s) rest others
     \<and> list_all (worker_ok (snd s)) (fst s)
     \<and> (list_all (\<lambda>a. \<not> exclusive a) (fst s) \<or> rest = [] \<and> (\<exists>a. fst s = [a] \<and> notice [a] = None)))"

lemma put_work:
  assumes "work_ok (next, b) rest others" and rest: "\<forall>a \<in> set rest. \<not> exclusive a"
  shows "lock_inv {#} b (next @ rest) others"
proof -
  have none: "notice p = None" if "\<forall>a \<in> set p. \<not> exclusive a" for p :: "'a action list"
    using that by (auto simp: notice_def split: list.split action.split)
  have "notice (next @ rest) = None" "worker_shape (next @ rest)"
    using assms none [of "next @ rest"] by (auto simp: work_ok_def worker_shape_def list_all_iff)
  then show ?thesis
    using put_worker [of "{#}" "next" b rest others] assms none [OF rest] by (simp add: work_ok_def)
qed

lemma ready_asked:
  "job_ready b [] job \<Longrightarrow> ab_open b (channel_of job) \<Longrightarrow> asked_first job (ab_sent b (channel_of job))"
  by (auto simp: job_ready_def unheard_def heard_def asked_first_def notice_on_def notice_def
      channel_of_def Let_def split: approval_decision.splits)

lemma told_ok:
  assumes inv: "lock_inv {#channel_of job#} b rest others"
    and "ms \<noteq> []" "ab_open b (channel_of job) \<Longrightarrow> channel_protocol (ab_sent b (channel_of job) @ ms)"
  shows "work_ok ([Tell (sink_channel (job_sink job)) ms, Record e, Release i], b) rest others"
  using assms by (simp add: work_ok_def channel_of_def)

lemma look_ok:
  assumes inv: "lock_inv {#channel_of job#} b [] others" and job: "job_ready b [] job"
  shows "work_ok (look_act job b) [] others"
proof (cases "fmlookup (bs_handles b) (cr_id (job_request job))")
  case None
  let ?m = "terminal_message (job_sink job)
    (TermDeniedWith (InvalidTransition ''session handle disappeared before start''))"
  have "ab_open b (channel_of job) \<Longrightarrow> channel_protocol (ab_sent b (channel_of job) @ [?m])"
    using protocol_terminal [OF ready_asked [OF job]] terminal_message_ends by blast
  then show ?thesis using None inv by (simp add: look_act_def work_ok_def channel_of_def)
next
  case (Some handle)
  have asked: "ab_open b (channel_of job) \<Longrightarrow> asked_first job (ab_sent b (channel_of job))"
    by (rule ready_asked [OF job])
  show ?thesis
  proof (cases "classify_risk (job_request job)")
    case AutoApprove
    then show ?thesis using Some inv job asked
      by (auto simp: look_act_def work_ok_def cleared_def rightly_admitted_def job_ready_def notice_def ready_unstarted
          split: approval_decision.splits)
  next
    case (RequiresApproval reason)
    show ?thesis
    proof (cases "job_admission job = Approved")
      case True
      then show ?thesis using Some RequiresApproval inv job asked
        by (auto simp: look_act_def work_ok_def cleared_def rightly_admitted_def job_ready_def notice_def intro: job_in_mono)
    next
      case False
      then have "job_admission job = AutoApproved" "unheard b [] (channel_of job)"
        using job by (auto simp: job_ready_def split: approval_decision.splits)
      then show ?thesis using Some RequiresApproval inv job False
        by (simp add: look_act_def work_ok_def job_ready_def notice_def unheard_def)
    qed
  qed
qed

lemma accept_started:
  assumes "unstarted job"
  obtains s where "accept (job_session job) Started = (s, Inr ())" "job_in {Running} (job\<lparr>job_session := s\<rparr>)"
proof -
  have "lifecycle_next (ss_lifecycle (job_session job)) Started = Some Running"
    using assms by (auto simp: job_in_def)
  then have "accept (job_session job) Started
      = ((job_session job)\<lparr>ss_lifecycle := Running, ss_output_bytes := ss_output_bytes (job_session job)\<rparr>, Inr ())"
    using accept_Inr_iff [of "job_session job" Started _ "()"] by simp
  then show ?thesis using assms by (intro that) (auto simp: job_in_def)
qed

lemma start_ok:
  assumes inv: "lock_inv {#channel_of job#} b [] others" and job: "worker_ok b (Start job handle d)"
  shows "work_ok (start_act job handle d b) [] others"
proof -
  obtain s where s: "accept (job_session job) Started = (s, Inr ())" "job_in {Running} (job\<lparr>job_session := s\<rparr>)"
    using accept_started [of job] job by auto
  have asked: "ab_open b (channel_of job) \<Longrightarrow> asked_first job (ab_sent b (channel_of job))"
    using job by simp
  have chan: "channel_of (job\<lparr>job_session := s\<rparr>) = channel_of job" by (simp add: channel_of_def)
  show ?thesis
  proof (cases "is_cancelled (ab_signals b) handle")
    case True
    have "ab_open b (channel_of job) \<Longrightarrow>
        channel_protocol (ab_sent b (channel_of job) @ [terminal_message (job_sink job) TermCancelled])"
      using protocol_terminal [OF asked] terminal_message_ends by blast
    then show ?thesis using True told_ok [OF inv, of "[terminal_message (job_sink job) TermCancelled]"]
      by (simp add: start_act_def finishing_def Let_def)
  next
    case False
    then show ?thesis using inv job s chan asked
      by (cases "job_sink job")
        (auto simp: start_act_def work_ok_def cleared_def rightly_admitted_def notice_def started_with_def asked_first_def)
  qed
qed

lemma announce_ok:
  assumes inv: "lock_inv {#channel_of job#} b [] others" and job: "worker_ok b (Announce c job handle d)"
  shows "work_ok ([Guest job handle d], snd (channel_send c (Event Started) b)) [] others"
proof -
  have c: "channel_of job = c" using job by (simp add: channel_of_def sink_channel_def)
  have "story (ab_sent b c @ [Event Started])" if "ab_open b c"
    using protocol_running [of job "ab_sent b c" c "[]"] job c that by (simp add: story_def)
  then have "lock_inv {#c#} (snd (channel_send c (Event Started) b)) [] others"
    using inv c by (intro send_held) (simp_all add: notice_none)
  then show ?thesis using job c
    by (auto simp: work_ok_def notice_def cleared_def send_history started_with_def chan.send_sent)
qed


lemma started_outcome:
  assumes "job_sink job = SinkOutcome c" "started_with job ms" "ends_session (Outcome o')"
  shows "channel_protocol (ms @ [Outcome o'])"
  using assms protocol_terminal [of job ms "Outcome o'"] by (simp add: started_with_def of_sink_def)

lemma started_events:
  assumes "job_sink job = SinkEvents c" "started_with job ms" "list_all output_chunk es"
    "ends_session (Event e)"
  shows "channel_protocol (ms @ map Event (es @ [e]))"
proof -
  obtain asks where "asked_first job asks" "ms = asks @ [Event Started]"
    using assms by (auto simp: started_with_def)
  then show ?thesis
    using protocol_running [OF _ assms(1) running_rest_outputs(2) [OF assms(3,4)]] by simp
qed

lemma guest_ok:
  assumes inv: "lock_inv {#channel_of job#} b [] others" and job: "worker_ok b (Guest job handle d)"
    and be: "panics_cleanly be"
  shows "work_ok (guest_act be job handle d b) [] others"
proof -
  let ?c = "channel_of job"
  let ?panic = "TermDeniedWith (InvalidTransition ''worker panic while executing session'')"
  have started: "ab_open b ?c \<Longrightarrow> started_with job (ab_sent b ?c)" using job by simp
  have told: "work_ok ([Tell (sink_channel (job_sink job)) ms, Record e, Release i], b) [] others"
    if "ms \<noteq> []" "ab_open b ?c \<Longrightarrow> channel_protocol (ab_sent b ?c @ ms)" for ms e i
    using told_ok [OF inv that] .
  show ?thesis
  proof (cases "job_sink job")
    case (SinkOutcome c)
    have "ends_session (Outcome (OutDenied e))" for e by (simp add: ends_session_def)
    then have barrier: "work_ok (barrier job [], b) [] others"
      using started started_outcome [OF SinkOutcome] SinkOutcome
      by (auto simp: barrier_def Let_def terminal_message_def intro!: told [unfolded SinkOutcome])
    obtain outcome job1 where cap: "capture_result (run_wasi_cancellable (be_host be)
               (\<lambda>comp store. case be_guest be comp store of (res, out, err) \<Rightarrow>
                  (res, out, err, ab_signals b))
               (job_component job) (job_request job) handle) job = (outcome, job1)" by fastforce
    note frame = capture_result_frame [OF cap]
    then obtain audit where audit: "audit_of outcome = Returned audit" by blast
    then have "ends_session (Outcome outcome)"
      by (cases outcome) (simp_all add: ends_session_def audit_of_def)
    then have "work_ok (finishing job1 d [Outcome outcome] audit, b) [] others"
      using started started_outcome [OF SinkOutcome] frame
      by (auto simp: finishing_def Let_def intro!: told)
    then show ?thesis using barrier cap audit SinkOutcome by (simp add: guest_act_def)
  next
    case (SinkEvents c)
    have chunks: "work_ok ([Tell (sink_channel (job_sink job)) (map Event (es @ [e])), Record entry, Release i], b) [] others"
      if "list_all output_chunk es" "ends_session (Event e)" for es e entry i
      using started started_events [OF SinkEvents _ that] by (intro told) auto
    show ?thesis
    proof (cases "be_panics be job")
      case (Some es)
      then have "list_all output_chunk es" using be by (auto simp: panics_cleanly_def)
      moreover have "ends_session (Event Denied)" by (simp add: ends_session_def)
      ultimately have "work_ok (barrier job (map Event es), b) [] others"
        using chunks [of es Denied] SinkEvents by (simp add: barrier_def Let_def terminal_message_def)
      then show ?thesis using Some SinkEvents by (simp add: guest_act_def)
    next
      case None
      show ?thesis
      proof (cases "stream_guest_at be (ab_signals b) job handle")
        case run: None
        then show ?thesis using None SinkEvents inv job
          by (simp add: guest_act_def work_ok_def notice_def)
      next
        case run: (Some r)
        obtain result es where r: "r = (result, es)" by fastforce
        have "list_all output_chunk es"
          using run_wasi_events_chunks [OF run [unfolded r stream_guest_at_def]] by auto
        then have es: "output_messages (map Event es)" by (simp add: output_messages_def list_all_iff)
        have "ab_open b ?c \<Longrightarrow> streamed_with job (ab_sent b ?c)"
          using started SinkEvents by (auto simp: started_with_def streamed_with_def intro: exI [of _ "[]"])
        moreover have "stream_guest_at be m job handle \<noteq> None" for m
          using stream_guest_signals [of be m job handle "ab_signals b"] run by auto
        ultimately show ?thesis using None SinkEvents run r inv job es
          by (simp add: guest_act_def work_ok_def notice_def)
      qed
    qed
  qed
qed

text \<open>The output of the guest, and the end of its run.\<close>

lemma forward_ok:
  assumes inv: "lock_inv {#channel_of job#} b [] others" and job: "worker_ok b (Forward ms job handle d result)"
  shows "work_ok (forward_act ms job handle d result b) [] others"
proof -
  obtain c where SinkEvents: "job_sink job = SinkEvents c" using job by auto
  then have c: "channel_of job = c" by (simp add: channel_of_def sink_channel_def)
  have sent: "streamed_with job (ab_sent b c)" if "ab_open b c" using job that c by simp
  show ?thesis
  proof (cases ms)
    case (Cons m ms')
    then obtain e where m: "m = Event e" "output_chunk e" and ms': "output_messages ms'"
      using job by (auto simp: output_messages_def)
    have next_sent: "streamed_with job (ab_sent b c @ [m])" if opened: "ab_open b c"
    proof -
      obtain asks es where "asked_first job asks" "list_all output_chunk es"
        "ab_sent b c = asks @ Event Started # map Event es"
        using sent [OF opened] by (auto simp: streamed_with_def)
      then show ?thesis unfolding streamed_with_def using m
        by (intro exI [of _ asks] exI [of _ "es @ [e]"]) simp
    qed
    have "story (ab_sent b c @ [m])" if opened: "ab_open b c"
      using next_sent [OF opened] protocol_running [OF _ SinkEvents] running_rest_outputs(1)
      by (auto simp: streamed_with_def story_def)
    then have "lock_inv {#c#} (snd (channel_send c m b)) [] others"
      using inv c by (intro send_held) (simp_all add: notice_none)
    then show ?thesis using job Cons SinkEvents c ms' next_sent
      by (auto simp: forward_act_def work_ok_def notice_def cleared_def send_history chan.send_sent
          sink_channel_def)
  next
    case Nil
    show ?thesis
    proof (cases "result (ab_signals b)")
      case None
      then show ?thesis using Nil inv job by (simp add: forward_act_def work_ok_def notice_def)
    next
      case (Some r)
      obtain e audit job1 where res: "stream_result r job = (e, audit, job1)" by (metis prod.exhaust)
      note frame = stream_result_frame [OF res]
      then have ends: "ends_session (Event e)" by (simp add: ends_session_def)
      have "channel_protocol (ab_sent b c @ [Event e])" if opened: "ab_open b c"
        using sent [OF opened] protocol_running [OF _ SinkEvents] running_rest_outputs(2) [OF _ ends]
        by (auto simp: streamed_with_def)
      then have "work_ok (finishing job1 d [Event e] audit, b) [] others"
        using told_ok [OF inv, of "[Event e]"] frame c by (simp add: finishing_def Let_def)
      then show ?thesis using Nil Some res by (simp add: forward_act_def)
    qed
  qed
qed

lemma work_tell_ok:
  assumes inv: "lock_inv {#c#} b rest others" and none: "notice rest = None"
    and ms: "worker_ok b (Tell c (m # ms))"
  shows "work_ok ([Tell c ms], snd (channel_send c m b)) rest others"
proof -
  have "story (ab_sent b c @ [m])" if "ab_open b c"
    using ms that channel_protocol_prefix [of "ab_sent b c @ [m]" ms] by (simp add: story_def)
  then have inv': "lock_inv {#c#} (snd (channel_send c m b)) rest others"
    using none by (intro send_held [OF inv]) (simp_all add: notice_none)
  have "worker_ok (snd (channel_send c m b)) (Tell c ms)" using ms by (simp add: chan.send_sent)
  then show ?thesis using inv' let_go [of "{#}" "{#c#}"] by (auto simp: work_ok_def)
qed

lemma accept_waiting:
  assumes "job_in {Created} job"
  shows "job_in {WaitingApproval} (note_event job (PendingApproval reason))"
proof (cases rule: accept_cases [of "job_session job" "PendingApproval reason"])
  case (rejected e)
  moreover have "\<exists>s. accept (job_session job) (PendingApproval reason) = (s, Inr ())"
    using assms by (simp add: job_in_def accept_def)
  ultimately show ?thesis by auto
next
  case (accepted s')
  then have "ss_lifecycle s' = WaitingApproval" "ss_output_bytes s' = ss_output_bytes (job_session job)"
    using assms by (auto simp: job_in_def accept_Inr_iff)
  then show ?thesis using assms accepted accept_frame [of "job_session job" "PendingApproval reason"]
    by (simp add: job_in_def)
qed

lemma park_ok:
  assumes inv: "lock_inv {#channel_of job#} b [] others" and job: "worker_ok b (Park job reason)"
  shows "case park_act now job reason b of (next, b') \<Rightarrow> lock_inv {#} b' next others"
proof -
  let ?job = "note_event job (PendingApproval reason)" and ?i = "cr_id (job_request job)"
  let ?p = "\<lparr>pj_job = ?job, pj_deadline = now + bs_approval_timeout b\<rparr>"
  let ?w = "[Notify ?i (job_sink job) reason] :: 'a action list" and ?c = "channel_of job"
  let ?b = "b\<lparr>bs_pending := fmupd ?i ?p (bs_pending b)\<rparr>"
  have chan: "channel_of ?job = ?c" by (simp add: channel_of_def)
  note parts = inv [unfolded lock_inv_def]
  have empty: "ab_open b ?c \<Longrightarrow> ab_sent b ?c = []" using job by simp
  have free: "?c \<notin># claims b [] others"
  proof -
    have "count (claims b [] others + {#?c#}) ?c \<le> 1" using parts unfolding holders_ok_def by blast
    moreover have "count (claims b [] others + {#?c#}) ?c = Suc (count (claims b [] others) ?c)" by simp
    ultimately have "count (claims b [] others) ?c = 0" by linarith
    then show ?thesis by (simp only: not_in_iff)
  qed
  have on: "notice_on ?w d = (if d = ?c then Some (job_sink job, reason) else None)" for d
    by (simp add: notice_on_def notice_def channel_of_def)
  have claims: "claims b ?w others = claims b [] others" by (simp add: claims_worker)
  have items: "items_ok ?b ?w others"
  proof -
    have "items_ok b [] others" using parts by simp
    moreover have "\<forall>d \<in># claims b [] others. keeps b [] b ?w d"
      using free by (auto simp: quiet_def keeps_def on notice_none)
    ultimately have "items_ok b ?w others" by (rule items_ok_keeps) simp_all
    moreover have "job_waiting b ?w ?job"
      using job empty accept_waiting [of job reason]
      by (auto simp: job_waiting_def heard_def Let_def on channel_of_def)
    ultimately show ?thesis
      using facts_same [of ?b b, simplified] by (auto simp: items_ok_def split: if_splits)
  qed
  have sub: "claims ?b ?w others \<subseteq># claims b [] others + {#?c#}"
    using parked_claims_drop [of ?i b] by (simp add: claims_def parked_claims_put chan)
  have "holders_ok {#} ?b ?w others"
    by (rule holders_fewer [of "{#?c#}" b "[]" others]) (use parts sub in simp_all)
  moreover have "worker_shape ?w" by (simp add: worker_shape_def)
  moreover have "notice_ok {#} ?b ?w others"
    using parts empty by (auto simp: notice_ok_def notice_def channel_of_def holders_ok_def Let_def)
  moreover have "stories_ok ?b" "sizes_ok ?b" using parts by (simp_all add: stories_ok_def sizes_ok_def)
  ultimately have "lock_inv {#} ?b ?w others" using items by (simp add: lock_inv_def)
  then show ?thesis by (simp add: park_act_def Let_def)
qed

text \<open>The notice: whoever took the session since then knows of it, or has already ended it.\<close>

lemma notify_ok:
  assumes inv: "lock_inv {#} b [Notify i sink reason] others"
  shows "case notify_act i sink reason b of (next, b') \<Rightarrow> lock_inv {#} b' next others"
proof -
  let ?w = "[Notify i sink reason] :: 'a action list" and ?c = "sink_channel sink"
  let ?m = "pending_message sink reason"
  let ?b = "snd (channel_send ?c ?m b)"
  let ?next = "if fst (channel_send ?c ?m b) then [] else [Unpark i, Release i] :: 'a action list"
  note parts = inv [unfolded lock_inv_def]
  have on: "notice_on ?w d = (if d = ?c then Some (sink, reason) else None)" for d
    by (simp add: notice_on_def notice_def)
  have none: "notice ?next = None" by (simp add: notice_def)
  have claims: "claims ?b ?next others = claims b ?w others"
    by (simp add: claims_def parked_claims_def)
  have heard: "ab_open b ?c \<Longrightarrow> ab_sent b ?c = [] \<or> (\<exists>m. ab_sent b ?c = [m] \<and> ends_session m \<and> of_sink sink m)"
    using parts by (auto simp: notice_ok_def notice_def Let_def)
  have "items_ok ?b ?next others"
  proof (rule items_ok_keeps)
    show "items_ok b ?w others" using parts by simp
    show "\<forall>d \<in># claims b [] others. keeps b ?w ?b ?next d"
    proof
      fix d
      show "keeps b ?w ?b ?next d"
        by (cases "d = ?c")
          (simp_all add: keeps_def quiet_def noticed_def on notice_none(1) [OF none] send_history chan.send_sent)
    qed
  qed simp_all
  moreover have "holders_ok {#} ?b ?next others" using parts by (simp add: holders_ok_def claims)
  moreover have "worker_shape ?next" by (simp add: worker_shape_def)
  moreover have "notice_ok {#} ?b ?next others" using none by (simp add: notice_ok_def)
  moreover have "stories_ok ?b"
  proof -
    have "story (ab_sent b ?c @ [?m])" if "ab_open b ?c"
      using heard [OF that] story_asked_end(3,4) by auto
    moreover have "?c < ab_next_channel b" using parts by (simp add: notice_ok_def notice_def Let_def)
    ultimately show ?thesis using parts by (auto simp: stories_ok_def chan.send_sent)
  qed
  moreover have "sizes_ok ?b" using parts by (simp add: sizes_ok_def)
  ultimately have "lock_inv {#} ?b ?next others" by (simp add: lock_inv_def)
  then show ?thesis by (simp add: notify_act_def case_prod_beta)
qed


lemma worker_act_inv:
  assumes inv: "lock_inv {#} b (a # rest) others" and be: "panics_cleanly be"
    and step: "act be now a b = (next, b')"
  shows "lock_inv {#} b' (next @ rest) others"
proof (cases "notice (a # rest)")
  case (Some n)
  then obtain i sink reason where a: "a = Notify i sink reason"
    by (auto simp: notice_def split: action.splits)
  then have "rest = []" using inv by (simp add: lock_inv_def worker_shape_def)
  then show ?thesis using notify_ok [of b i sink reason others] inv step a by simp
next
  case None
  have taken: "lock_inv (claim a) b rest others" and a: "worker_ok b a"
    and rest: "\<forall>a \<in> set rest. \<not> exclusive a" and alone: "exclusive a \<Longrightarrow> rest = []"
    using take_worker [OF inv None] by simp_all
  have none: "notice rest = None"
    using rest by (auto simp: notice_def split: list.split action.split)
  show ?thesis
  proof (cases "\<exists>job reason. a = Park job reason")
    case True
    then obtain job reason where park: "a = Park job reason" by blast
    then show ?thesis using park_ok [of job b others reason now] taken a alone step by simp
  next
    case False
    have "work_ok (next, b') rest others"
    proof (cases a)
      case (Tell c ms)
      then show ?thesis
        using taken a step work_tell_ok [of c b rest others] none
        by (cases ms) (auto simp: work_ok_def)
    next
      case (Look job)
      then show ?thesis using look_ok [of job b others] taken a alone step by simp
    next
      case (Start job handle d)
      then show ?thesis using start_ok [of job b others handle d] taken a alone step by simp
    next
      case (Announce c job handle d)
      then show ?thesis using announce_ok [of job b others c handle d] taken a alone step by simp
    next
      case (Guest job handle d)
      then show ?thesis using guest_ok [of job b others handle d be] taken a alone step be by simp
    next
      case (Forward ms job handle d result)
      then show ?thesis using forward_ok [of job b others ms handle d result] taken a alone step by simp
    next
      case (Unpark i)
      then show ?thesis using drop_parked [of "{#}" b rest others i] taken step by (auto simp: work_ok_def)
    next
      case (Notify i sink reason)
      then show ?thesis using None by (simp add: notice_def)
    qed (use taken a step plain_ok [of b rest others] False in \<open>auto simp: work_ok_def\<close>)
    then show ?thesis by (rule put_work [OF _ rest])
  qed
qed

lemma system_step_inv:
  assumes "system_step s s'" "lock_inv {#} (sy_broker s) (sy_worker s) (sy_others s)"
  shows "lock_inv {#} (sy_broker s') (sy_worker s') (sy_others s')"
  using assms
proof (induction rule: system_step.induct)
  case (call s op)
  have "lock_inv {#} (sy_broker s) (sy_worker s) (add_mset [] (sy_others s))"
    by (rule inv_move [OF call]) (use call in \<open>simp_all add: lock_inv_def claims_other items_ok_def\<close>)
  moreover have "claim (first_action op) = {#}" "other_ok (sy_broker s) (sy_worker s) (first_action op)"
    by (cases op; simp add: sink_channel_def)+
  ultimately show ?case
    using put_other [of "{#}" "[first_action op]" "sy_broker s" "sy_worker s" "[]" "sy_others s"] by simp
next
  case (other s p others be now p' b)
  then obtain a rest where p: "p = a # rest" by (cases p) auto
  obtain "next" where "act be now a (note_action a (sy_broker s)) = (next, b)" "p' = next @ rest"
    using other p by (auto simp: thread_step_def split: prod.splits)
  then show ?case using other_act_inv [of "sy_broker s" "sy_worker s" a rest others be now "next" b] other p
    by simp
next
  case (exit s others)
  then have "items_ok (sy_broker s) (sy_worker s) others" by (simp add: lock_inv_def items_ok_def)
  then have "lock_inv {#} (sy_broker s) (sy_worker s) others"
    by (intro inv_move [OF exit(2)]) (use exit in \<open>simp_all add: lock_inv_def claims_other\<close>)
  then show ?case by simp
next
  case (receive s job queue)
  have none: "notice (sy_worker s) = None" using receive by (simp add: notice_def)
  have "lock_inv {#channel_of job#} ((sy_broker s)\<lparr>ab_queue := queue\<rparr>) [] (sy_others s)"
    "job_ready ((sy_broker s)\<lparr>ab_queue := queue\<rparr>) [] job"
    using take_queue [OF receive(3,2)] receive(1)
      facts_same(1) [of "(sy_broker s)\<lparr>ab_queue := queue\<rparr>" "sy_broker s"] by simp_all
  then show ?case
    using put_work [of "[Look job]" _ "[]" "sy_others s"] by (simp add: work_ok_def notice_def)
next
  case (worker s be now p b)
  then obtain a rest where w: "sy_worker s = a # rest" by (cases "sy_worker s") auto
  have note_eq: "note_action a (sy_broker s) = sy_broker s"
  proof -
    have "worker_ok (sy_broker s) a" using worker w by (simp add: lock_inv_def items_ok_def)
    then show ?thesis by (cases a) (simp_all add: note_action_def)
  qed
  obtain "next" where "act be now a (sy_broker s) = (next, b)" "p = next @ rest"
    using worker w note_eq by (auto simp: thread_step_def split: prod.splits)
  then show ?case using worker_act_inv [of "sy_broker s" a rest "sy_others s" be now "next" b] worker w
    by simp
qed

lemma interleaving_inv:
  "interleaving capacity timeout s \<Longrightarrow> lock_inv {#} (sy_broker s) (sy_worker s) (sy_others s)"
proof (induction rule: interleaving.induct)
  case (interleaving_init s)
  then obtain b where b: "monitored_init capacity timeout = Ok b"
    "s = \<lparr>sy_broker = b, sy_worker = [], sy_others = {#}\<rparr>"
    by (auto simp: system_init_def split: sum.splits)
  then have inv: "broker_inv [] b" using monitored_init_inv by blast
  have "ab_queue b = []" "bs_pending b = fmempty" "ab_sent b = (\<lambda>_. [])"
    using b(1) by (auto simp: monitored_init_def with_config_def wasi_runtime_new_def map_err_def
        action_broker.extend_def monitored.fields_def split: if_splits)
  then show ?case using inv b(2)
    by (simp add: lock_inv_def holders_ok_def items_ok_def claims_def parked_claims_def worker_shape_def
        notice_ok_def notice_def stories_ok_def broker_inv_def)
qed (rule system_step_inv)


definition same_setup :: "('c, 'z) action_broker_scheme \<Rightarrow> ('c, 'z) action_broker_scheme \<Rightarrow> bool" where
  "same_setup b b' = (ab_capacity b' = ab_capacity b \<and> ab_worker_up b' = ab_worker_up b
     \<and> ab_next_channel b \<le> ab_next_channel b')"

lemma act_setup: "same_setup b (snd (act be now a b))"
proof -
  have take: "same_setup b (snd (take_pending i b))" for i by (simp add: take_pending_def same_setup_def)
  have parked: "same_setup b (snd (approve_take i b))" "same_setup b (snd (deny_take i b))"
    "same_setup b (snd (cancel_take i b))" "same_setup b (snd (expire_take i b))" for i
    unfolding approve_take_def deny_take_def cancel_take_def expire_take_def using take [of i]
    by (cases "take_pending i b"; cases "fst (take_pending i b)"; simp add: same_setup_def)+
  have send: "same_setup b (snd (channel_send c m b))" for c m by (simp add: channel_send_def same_setup_def)
  show ?thesis
  proof (cases a)
    case (Tell c ms)
    then show ?thesis using send by (cases ms) (simp_all add: same_setup_def)
  next
    case (Forward ms job handle d result)
    then show ?thesis using send
      by (cases ms) (auto simp: forward_act_def same_setup_def split: option.split prod.split)
  next
    case (Guest job handle d)
    then show ?thesis
      by (auto simp: guest_act_def same_setup_def split: option.split prod.split job_sink.split call.split)
  qed (auto simp: parked send, auto simp: same_setup_def submit_act_def enqueue_act_def push_act_def
      approve_look_def cancel_look_def sweep_list_def look_act_def start_act_def park_act_def notify_act_def
      channel_new_def channel_send_def hang_up_def Let_def
      audit_record_eq release_def split: option.split prod.split sum.split job_sink.split risk.split)
qed

lemma thread_setup: "thread_step be now (p, b) = (p', b') \<Longrightarrow> same_setup b b'"
proof -
  have noted: "same_setup (note_action a b) b' = same_setup b b'" for a
    by (simp add: same_setup_def note_action_def note_approval_def split: action.split option.split)
  assume "thread_step be now (p, b) = (p', b')"
  then show ?thesis
    using act_setup [of "note_action (hd p) b" be now "hd p"] noted [of "hd p"]
    by (cases p) (auto simp: thread_step_def same_setup_def split: prod.splits)
qed

lemma system_setup: "system_step s s' \<Longrightarrow> same_setup (sy_broker s) (sy_broker s')"
  by (induction rule: system_step.induct) (auto dest: thread_setup simp: same_setup_def)

lemma interleaving_setup:
  "interleaving capacity timeout s \<Longrightarrow> ab_capacity (sy_broker s) = capacity \<and> ab_worker_up (sy_broker s)"
proof (induction rule: interleaving.induct)
  case (interleaving_init s)
  then show ?case
    by (auto simp: system_init_def monitored_init_def with_config_def wasi_runtime_new_def map_err_def
        action_broker.extend_def monitored.fields_def split: if_splits)
next
  case (interleaving_step s s')
  then show ?case using system_setup [of s s'] by (simp add: same_setup_def)
qed

section \<open>The overtaken request\<close>

definition risky_request :: command_request where
  "risky_request = example_request\<lparr>cr_grant := example_grant\<lparr>cg_native_execution := True\<rparr>\<rparr>"

lemma risky_request_checks:
  "validate risky_request = Inr ()" "cr_mode risky_request = Wasi"
  "classify_risk risky_request = RequiresApproval NativeExecution"
proof -
  have "allows_path example_grant ''/ws/src''"
    using example_checks(1) by (simp add: example_request_def validate_Inr)
  then show "validate risky_request = Inr ()"
    by (simp add: risky_request_def example_request_def validate_Inr allows_path_def)
  show "cr_mode risky_request = Wasi" by (simp add: risky_request_def example_request_def)
  show "classify_risk risky_request = RequiresApproval NativeExecution"
    by (simp add: risky_request_def classify_risk_def allows_native_execution_def)
qed

text \<open>A history up to the moment between the parking of a session and its notice.\<close>

lemma parking_history:
  fixes component :: 'c
  assumes r: "validate r = Ok ()" "cr_mode r = Wasi" "classify_risk r = RequiresApproval reason"
    and "capacity \<noteq> 0"
  obtains b :: "'c monitored" and p handle where
    "interleaving capacity timeout (system_of b [Notify (cr_id r) (SinkEvents 0) reason] {#})"
    "bs_pending b = fmupd (cr_id r) p fmempty" "job_request (pj_job p) = r" "job_sink (pj_job p) = SinkEvents 0"
    "bs_handles b = fmupd (cr_id r) handle fmempty" "\<not> is_cancelled (ab_signals b) handle"
    "ab_queue b = []" "ab_worker_up b" "bs_audit b = []" "mo_approved b = []" "ab_sent b 0 = []" "ab_open b 0"
proof -
  obtain be :: "'c backend" where be: "panics_cleanly be"
  proof
    show "panics_cleanly (undefined\<lparr>be_panics := \<lambda>_. None\<rparr> :: 'c backend)" by (simp add: panics_cleanly_def)
  qed
  obtain b0 :: "'c monitored" where b0: "monitored_init capacity timeout = Ok b0"
    "ab_queue b0 = []" "bs_handles b0 = fmempty" "bs_pending b0 = fmempty" "ab_worker_up b0"
    "ab_capacity b0 = capacity" "ab_next_channel b0 = 0" "bs_audit b0 = []" "mo_approved b0 = []"
    using assms(4) by (auto simp: monitored_init_def with_config_def wasi_runtime_new_def map_err_def
        action_broker.extend_def monitored.fields_def)
  let ?job = "new_job SinkEvents component r 0" and ?i = "cr_id r"
  define b1 where "b1 = client_step (OpSubmitStreaming component r) b0"
  have room: "0 < unat capacity" using assms(4) unat_gt_0 by blast
  obtain handle m where new: "cancel_handle_new (ab_signals b0) = (handle, m)" by fastforce
  have mo: "mo_approved (snd (channel_new b0)) = mo_approved b0" by (simp add: channel_new_def)
  have b1: "ab_queue b1 = [?job]" "bs_handles b1 = fmupd ?i handle fmempty" "bs_pending b1 = fmempty"
    "ab_sent b1 0 = []" "ab_open b1 0" "ab_worker_up b1" "bs_audit b1 = []" "mo_approved b1 = []"
    "ab_signals b1 = m"
    using r b0 room new mo by (simp_all add: b1_def submit_streaming_def submit_job_eq Let_def fcard.rep_eq)
  have live: "\<not> is_cancelled m handle"
    using new by (auto simp: cancel_handle_new_def is_cancelled_def)
  define b2 where "b2 = b1\<lparr>ab_queue := []\<rparr>"
  let ?p = "\<lparr>pj_job = note_event ?job (PendingApproval reason), pj_deadline = 0 + bs_approval_timeout b2\<rparr>"
  define b3 where "b3 = b2\<lparr>bs_pending := fmupd ?i ?p (bs_pending b2)\<rparr>"
  have job: "job_request ?job = r" "job_sink ?job = SinkEvents 0" "job_admission ?job = AutoApproved"
    by (simp_all add: new_job_def)
  have "system_steps (system_of b0 [] {#}) (system_of b1 [] {#})"
    unfolding b1_def by (rule operation_system)
  also have "system_step (system_of b1 [] {#}) (system_of b2 [Look ?job] {#})"
    using system_step.receive [of "system_of b1 [] {#}" ?job "[]"] b1
    by (simp add: system_of_def b2_def)
  also have "system_steps (system_of b2 [Look ?job] {#}) (system_of b3 [Notify ?i (SinkEvents 0) reason] {#})"
  proof (rule worker_run [OF _ be])
    have "act be 0 (Look ?job) (note_action (Look ?job) b2) = ([Park ?job reason], b2)"
      using b1 r(3) by (auto simp: look_act_def b2_def job)
    moreover have "act be 0 (Park ?job reason) (note_action (Park ?job reason) b2)
        = ([Notify ?i (SinkEvents 0) reason], b3)"
      by (simp add: park_act_def Let_def b3_def job)
    ultimately show "runs_to be 0 ([Look ?job], b2) ([Notify ?i (SinkEvents 0) reason], b3)"
      using runs_act [of be 0 "Look ?job" b2 "[Park ?job reason]" b2 "[]"]
        runs_return [of be 0 "Park ?job reason" b2 _ b3 "[]"] by simp
  qed
  finally have "interleaving capacity timeout (system_of b3 [Notify ?i (SinkEvents 0) reason] {#})"
    using interleaving_steps interleaving_init [of capacity timeout "system_of b0 [] {#}"] b0(1)
    by (simp add: system_init_def system_of_def)
  then show ?thesis
    by (rule that [of b3 ?p handle]) (use b1 live job in \<open>simp_all add: b3_def b2_def\<close>)
qed

text \<open>The worker sends its notice, or finds that nobody listens and takes everything back.\<close>

lemma notice_sent:
  fixes b :: "'c monitored"
  shows "system_steps (system_of b [Notify i sink reason] others)
     (system_of (if ab_open b (sink_channel sink)
        then snd (channel_send (sink_channel sink) (pending_message sink reason) b)
        else release i (b\<lparr>bs_pending := fmdrop i (bs_pending b)\<rparr>)) [] others)"
proof -
  let ?be = "undefined\<lparr>be_panics := \<lambda>_. None\<rparr> :: 'c backend"
  have be: "panics_cleanly ?be" by (simp add: panics_cleanly_def)
  let ?b = "snd (channel_send (sink_channel sink) (pending_message sink reason) b)"
  let ?next = "if ab_open b (sink_channel sink) then [] else [Unpark i, Release i] :: 'c action list"
  have notice: "act ?be 0 (Notify i sink reason) (note_action (Notify i sink reason) b) = (?next, ?b)"
    by (simp add: notify_act_def case_prod_beta chan.send_reports)
  have "runs_to ?be 0 (?next @ [], ?b) ([], if ab_open b (sink_channel sink) then ?b
      else release i (b\<lparr>bs_pending := fmdrop i (bs_pending b)\<rparr>))"
  proof (cases "ab_open b (sink_channel sink)")
    case False
    have "act ?be 0 (Unpark i) (note_action (Unpark i) b) = ([], b\<lparr>bs_pending := fmdrop i (bs_pending b)\<rparr>)"
      by simp
    then have "runs_to ?be 0 ([Unpark i, Release i], b) ([], release i (b\<lparr>bs_pending := fmdrop i (bs_pending b)\<rparr>))"
      by (rule runs_act) (simp add: runs_release runs_refl)
    then show ?thesis using False by (simp add: channel_send_def)
  qed (simp add: runs_refl)
  then show ?thesis using worker_run [OF runs_act [OF notice] be] by simp
qed

text \<open>A history with a cancellation between the two halves of the worker's parking.\<close>

lemma overtaking_history:
  fixes component :: 'c
  assumes r: "validate r = Ok ()" "cr_mode r = Wasi" "classify_risk r = RequiresApproval reason"
    and "capacity \<noteq> 0"
  shows "\<exists>s :: 'c system. interleaving capacity timeout s
     \<and> ab_sent (sy_broker s) 0 = [Event Cancelled, Event (PendingApproval reason)]"
proof -
  let ?i = "cr_id r" and ?w = "[Notify (cr_id r) (SinkEvents 0) reason]"
  obtain b :: "'c monitored" and p where
    b: "interleaving capacity timeout (system_of b ?w {#})" "bs_pending b = fmupd ?i p fmempty"
      "job_sink (pj_job p) = SinkEvents 0" "ab_sent b 0 = []" "ab_open b 0"
    by (rule parking_history [OF assms])
  define b1 where "b1 = client_step (OpCancel ?i) b"
  let ?b2 = "snd (channel_send 0 (Event (PendingApproval reason)) b1)"
  have b1: "ab_sent b1 0 = [Event Cancelled]" "ab_open b1 0"
    using b by (simp_all add: b1_def cancel_def sink_channel_def terminal_message_def)
  have "system_steps (system_of b ?w {#}) (system_of b1 ?w {#})"
    unfolding b1_def by (rule operation_system)
  also have "system_steps (system_of b1 ?w {#}) (system_of ?b2 [] {#})"
    using notice_sent [of b1 ?i "SinkEvents 0" reason "{#}"] b1(2)
    by (simp add: sink_channel_def pending_message_def)
  finally have "interleaving capacity timeout (system_of ?b2 [] {#})"
    using interleaving_steps b(1) by blast
  then show ?thesis
    by (intro exI [of _ "system_of ?b2 [] {#}"]) (simp add: system_of_def chan.send_sent b1)
qed

section \<open>Properties\<close>

text \<open>
  C4. Every caller hears one story, whatever the schedule: in any interleaving of the lock
  sections of the callers, the sweeper and the worker, a channel carries what the protocol
  allows (an optional request for approval, then at most one end with the start and the
  output before it), or else one end overtaken by the request for approval.
\<close>

theorem interleaved_channels_tell_a_story:
  assumes "interleaving capacity timeout s"
  shows "story (ab_sent (sy_broker s) c)"
  using interleaving_inv [OF assms] by (simp add: lock_inv_def stories_ok_def)

theorem interleaved_channels_tell_a_story_witness:
  "story (ab_sent (client_step (OpCancel 7) example_submitted) 0)"
  using interleaved_channels_tell_a_story
    [OF reachable_interleaving [OF reachable_client [OF example_reachable(2), of "OpCancel 7"]], of 0]
  by (simp add: system_of_def)

text \<open>
  C28. A request for approval can come after the end: for every request that needs approval
  there is a schedule in which its caller first hears that the session was cancelled and
  then that it waits for approval, which no history of whole operations can do.
\<close>

theorem request_can_come_after_the_end:
  fixes component :: 'c
  assumes "validate r = Ok ()" and "cr_mode r = Wasi"
    and "classify_risk r = RequiresApproval reason" and "capacity \<noteq> 0"
  shows "\<exists>s :: 'c system. interleaving capacity timeout s
       \<and> ab_sent (sy_broker s) 0 = [Event Cancelled, Event (PendingApproval reason)]
       \<and> \<not> (\<exists>b :: 'c monitored. reachable capacity timeout b
             \<and> ab_sent b 0 = [Event Cancelled, Event (PendingApproval reason)])"
proof -
  have "\<not> channel_protocol [Event Cancelled, Event (PendingApproval reason)]"
    by (simp add: channel_protocol_def outcome_rest_def event_rest_def)
  moreover have "reachable capacity timeout b \<Longrightarrow> channel_protocol (ab_sent b 0)" for b :: "'c monitored"
    using reachable_inv [of capacity timeout b] by (simp add: broker_inv_def channels_ok_def)
  ultimately show ?thesis using overtaking_history [OF assms, where 'c = 'c] by metis
qed

theorem request_can_come_after_the_end_witness:
  "\<exists>s :: unit system. interleaving 2 100 s
     \<and> ab_sent (sy_broker s) 0 = [Event Cancelled, Event (PendingApproval NativeExecution)]"
  using request_can_come_after_the_end [OF risky_request_checks, where 'c = unit and capacity = 2 and timeout = 100]
  by auto

text \<open>
  C2. At most one guest runs and only if it may: in any interleaving the threads other than
  the worker are in no guest, and when the worker is in one (before its output or in the
  middle of it), that is all it is doing, and the session is read-only or a caller approved
  this very session.
\<close>

theorem one_cleared_guest_runs:
  assumes "interleaving capacity timeout s"
  shows "(\<forall>p \<in># sy_others s. \<forall>a \<in> set p. guest_of a = None)
    \<and> (\<forall>a \<in> set (sy_worker s). \<forall>job. guest_of a = Some job \<longrightarrow>
         sy_worker s = [a]
         \<and> (classify_risk (job_request job) = AutoApprove
            \<or> channel_of job \<in> set (mo_approved (sy_broker s))))"
proof -
  have inv: "items_ok (sy_broker s) (sy_worker s) (sy_others s)" "worker_shape (sy_worker s)"
    using interleaving_inv [OF assms] by (simp_all add: lock_inv_def)
  have "guest_of a = None" if "p \<in># sy_others s" "a \<in> set p" for p a
  proof -
    have "other_ok (sy_broker s) (sy_worker s) a"
      using inv(1) that unfolding items_ok_def list_all_iff by blast
    then show ?thesis using guest_of_ok by (cases "guest_of a") blast+
  qed
  moreover have "sy_worker s = [a] \<and> cleared (sy_broker s) job"
    if a: "a \<in> set (sy_worker s)" "guest_of a = Some job" for a job
  proof -
    have "worker_ok (sy_broker s) a" "exclusive a \<longrightarrow> sy_worker s = [a]"
      using inv a(1) unfolding items_ok_def worker_shape_def list_all_iff by blast+
    then show ?thesis using guest_of_ok [OF a(2)] by blast
  qed
  ultimately show ?thesis by (simp add: cleared_def)
qed

theorem one_cleared_guest_runs_witness:
  "\<exists>(s :: unit system) a job. interleaving 2 100 s \<and> sy_worker s = [a] \<and> guest_of a = Some job
     \<and> (classify_risk (job_request job) = AutoApprove \<or> channel_of job \<in> set (mo_approved (sy_broker s)))"
proof -
  let ?job = "new_job SinkOutcome () example_request 0"
  let ?b = "example_submitted\<lparr>ab_queue := []\<rparr>"
  let ?h = "CancelHandle 0"
  let ?s = "\<lambda>p. system_of ?b p {#}"
  have job: "job_request ?job = example_request" "job_admission ?job = AutoApproved" "job_sink ?job = SinkOutcome 0"
    by (simp_all add: new_job_def)
  have auto: "classify_risk example_request = AutoApprove"
    using example_auto(1) by (simp add: example_auto_job_def)
  have "unstarted ?job"
    using interleaving_inv [OF reachable_interleaving [OF example_reachable(2)]]
    by (auto simp: system_of_def lock_inv_def items_ok_def example_submitted_fields intro: ready_unstarted)
  then obtain s where s: "accept (job_session ?job) Started = (s, Inr ())" by (rule accept_started)
  have "interleaving 2 100 (?s [Look ?job])"
    using interleaving_step [OF reachable_interleaving [OF example_reachable(2)] system_step.receive]
    by (simp add: system_of_def example_submitted_fields)
  moreover have "system_step (?s [Look ?job]) (?s [Start ?job ?h AutoApproved])"
    using system_step.worker [of "?s [Look ?job]" example_backend 0 "[Start ?job ?h AutoApproved]" ?b]
    by (simp add: system_of_def thread_step_def note_action_def look_act_def job auto example_submitted_fields
        panics_cleanly_def example_backend_def)
  moreover have "system_step (?s [Start ?job ?h AutoApproved]) (?s [Guest (?job\<lparr>job_session := s\<rparr>) ?h AutoApproved])"
    using system_step.worker [of "?s [Start ?job ?h AutoApproved]" example_backend 0
        "[Guest (?job\<lparr>job_session := s\<rparr>) ?h AutoApproved]" ?b]
    by (simp add: system_of_def thread_step_def note_action_def start_act_def job s example_submitted_fields
        panics_cleanly_def example_backend_def)
  ultimately have reach: "interleaving 2 100 (?s [Guest (?job\<lparr>job_session := s\<rparr>) ?h AutoApproved])"
    by (blast intro: interleaving_step)
  let ?a = "Guest (?job\<lparr>job_session := s\<rparr>) ?h AutoApproved"
  have worker: "sy_worker (?s [?a]) = [?a]" "?a \<in> set (sy_worker (?s [?a]))"
    "guest_of ?a = Some (?job\<lparr>job_session := s\<rparr>)"
    by (simp_all add: system_of_def guest_of_def)
  then show ?thesis using one_cleared_guest_runs [OF reach] reach by blast
qed

text \<open>
  C20. Every session is in one place: in any interleaving the sessions in the queue, in the
  pending map and in the hands of the threads are on pairwise different channels.
\<close>

theorem sessions_are_in_one_place:
  assumes "interleaving capacity timeout s"
  shows "count (claims (sy_broker s) (sy_worker s) (sy_others s)) c \<le> 1"
  using interleaving_inv [OF assms] by (simp add: lock_inv_def holders_ok_def)

theorem sessions_are_in_one_place_witness:
  "count (claims example_submitted [] {#}) 0 = 1"
proof -
  have "count (claims example_submitted [] {#}) 0 \<le> 1"
    using sessions_are_in_one_place [OF reachable_interleaving [OF example_reachable(2)], of 0]
    by (simp add: system_of_def)
  moreover have "0 \<in># claims example_submitted [] {#}"
    by (simp add: claims_def example_submitted_fields new_job_def channel_of_def sink_channel_def)
  ultimately show ?thesis by (simp add: Suc_le_eq le_antisym)
qed


text \<open>
  C24. Live sessions are well-typed: in any interleaving every job is of a validated WASI
  request, its session state has the id and the limits of the request and no output yet, and
  admission and state are those of its place.  In the queue a job is new and not approved, or
  it is risky, approved and still waits, and in both cases it can start; a parked one is risky,
  not approved and waits; the guest that runs is of a job that has started, harmless or
  approved.  The refusals the worker has for other jobs are never taken.
\<close>

theorem live_sessions_are_well_typed:
  assumes "interleaving capacity timeout s"
  shows "list_all (\<lambda>job. (job_admission job = AutoApproved \<and> job_in {Created} job
          \<or> job_admission job = Approved \<and> job_in {WaitingApproval} job \<and> classify_risk (job_request job) \<noteq> AutoApprove)
        \<and> is_ok (snd (accept (job_session job) Started))) (ab_queue (sy_broker s))
    \<and> (\<forall>i p. fmlookup (bs_pending (sy_broker s)) i = Some p \<longrightarrow>
          job_in {WaitingApproval} (pj_job p) \<and> job_admission (pj_job p) = AutoApproved
          \<and> classify_risk (job_request (pj_job p)) \<noteq> AutoApprove)
    \<and> (\<forall>a \<in> set (sy_worker s). \<forall>job. guest_of a = Some job \<longrightarrow>
          job_in {Running} job \<and> rightly_admitted job)"
proof (intro conjI)
  have items: "items_ok (sy_broker s) (sy_worker s) (sy_others s)"
    using interleaving_inv [OF assms] by (simp add: lock_inv_def)
  have "is_ok (snd (accept (job_session job) Started))" if "unstarted job" for job :: "'a job"
    using accept_started [OF that] by (metis is_ok_simps(1) snd_conv)
  moreover have "job_admission job = AutoApproved \<and> job_in {Created} job
      \<or> job_admission job = Approved \<and> job_in {WaitingApproval} job \<and> classify_risk (job_request job) \<noteq> AutoApprove"
    if "job_ready (sy_broker s) (sy_worker s) job" for job
    using that by (auto simp: job_ready_def split: approval_decision.splits)
  ultimately show "list_all (\<lambda>job. (job_admission job = AutoApproved \<and> job_in {Created} job
          \<or> job_admission job = Approved \<and> job_in {WaitingApproval} job \<and> classify_risk (job_request job) \<noteq> AutoApprove)
        \<and> is_ok (snd (accept (job_session job) Started))) (ab_queue (sy_broker s))"
    using items ready_unstarted unfolding items_ok_def list_all_iff by blast
  have "job_in {WaitingApproval} job \<and> job_admission job = AutoApproved \<and> classify_risk (job_request job) \<noteq> AutoApprove"
    if "job_waiting (sy_broker s) (sy_worker s) job" for job
    using that by (auto simp: job_waiting_def)
  then show "\<forall>i p. fmlookup (bs_pending (sy_broker s)) i = Some p \<longrightarrow>
      job_in {WaitingApproval} (pj_job p) \<and> job_admission (pj_job p) = AutoApproved
      \<and> classify_risk (job_request (pj_job p)) \<noteq> AutoApprove"
    using items unfolding items_ok_def by blast
  show "\<forall>a \<in> set (sy_worker s). \<forall>job. guest_of a = Some job \<longrightarrow> job_in {Running} job \<and> rightly_admitted job"
    using items guest_of_ok unfolding items_ok_def list_all_iff by blast
qed

theorem live_sessions_are_well_typed_witness:
  "job_admission (new_job SinkOutcome () example_request 0) = AutoApproved
   \<and> job_in {Created} (new_job SinkOutcome () example_request 0)"
  using live_sessions_are_well_typed [OF reachable_interleaving [OF example_reachable(2)]]
  by (simp add: system_of_def example_submitted_fields new_job_def)

text \<open>
  C26. The broker stays small whatever the schedule: in any interleaving the registered ids
  never exceed the capacity it was created with, and the audit trail never exceeds its bound.
\<close>

theorem interleaved_broker_stays_bounded:
  assumes "interleaving capacity timeout s"
  shows "fcard (fmdom (bs_handles (sy_broker s))) \<le> unat capacity
    \<and> length (audit_trail (sy_broker s)) \<le> DEFAULT_MAX_AUDIT_ENTRIES"
  using interleaving_inv [OF assms] interleaving_setup [OF assms] by (simp add: lock_inv_def sizes_ok_def audit_trail_def)

theorem interleaved_broker_stays_bounded_witness:
  "fcard (fmdom (bs_handles example_submitted)) \<le> 2"
  using interleaved_broker_stays_bounded [OF reachable_interleaving [OF example_reachable(2)]]
  by (simp add: system_of_def)

end
