(* ===== verification/Lock_Accounts.thy ===== *)
theory Lock_Accounts
  imports Interleavings Live_Sessions
begin

text \<open>
  The registered ids under every interleaving.  Callers that never register an id while it is
  registered, and that keep their receivers, see the accounts balance between any two lock
  sections: each registered id belongs to exactly one session, which is queued, parked or in
  the hands of one thread.  The handle that the worker took for a session stays the registered
  one while its guest runs, so a cancellation reaches that guest.  Without the second rule
  the accounts break: a session that a caller approved can vanish.
\<close>

section \<open>Careful schedules\<close>

definition careful :: "'c monitored \<Rightarrow> 'c action \<Rightarrow> bool" where
  "careful b a = (case a of
     Enqueue job \<Rightarrow> job_id job |\<notin>| fmdom (bs_handles b)
   | HangUp _ \<Rightarrow> False
   | _ \<Rightarrow> True)"

text \<open>The steps of the system in which the action of a caller or of the sweeper is careful.\<close>

inductive careful_step :: "'c system \<Rightarrow> 'c system \<Rightarrow> bool" where
  careful_call: "careful_step s (s\<lparr>sy_others := add_mset [first_action op] (sy_others s)\<rparr>)"
| careful_other: "sy_others s = add_mset (a # rest) others \<Longrightarrow> careful (sy_broker s) a \<Longrightarrow>
    thread_step be now (a # rest, sy_broker s) = (p, b) \<Longrightarrow>
    careful_step s (s\<lparr>sy_broker := b, sy_others := add_mset p others\<rparr>)"
| careful_exit: "sy_others s = add_mset [] others \<Longrightarrow> careful_step s (s\<lparr>sy_others := others\<rparr>)"
| careful_receive: "sy_worker s = [] \<Longrightarrow> ab_queue (sy_broker s) = job # queue \<Longrightarrow>
    careful_step s (s\<lparr>sy_broker := (sy_broker s)\<lparr>ab_queue := queue\<rparr>, sy_worker := [Look job]\<rparr>)"
| careful_worker: "sy_worker s \<noteq> [] \<Longrightarrow> panics_cleanly be \<Longrightarrow>
    thread_step be now (sy_worker s, sy_broker s) = (p, b) \<Longrightarrow>
    careful_step s (s\<lparr>sy_broker := b, sy_worker := p\<rparr>)"

inductive careful_interleaving :: "usize \<Rightarrow> nat \<Rightarrow> 'c system \<Rightarrow> bool" for capacity timeout where
  careful_init: "system_init capacity timeout = Ok s \<Longrightarrow> careful_interleaving capacity timeout s"
| careful_next: "careful_interleaving capacity timeout s \<Longrightarrow> careful_step s s' \<Longrightarrow>
    careful_interleaving capacity timeout s'"

lemma careful_step_system: "careful_step s s' \<Longrightarrow> system_step s s'"
  by (induction rule: careful_step.induct) (auto intro: system_step.intros)

lemma careful_interleaved: "careful_interleaving capacity timeout s \<Longrightarrow> interleaving capacity timeout s"
  by (induction rule: careful_interleaving.induct)
    (auto intro: interleaving_init interleaving_step careful_step_system)

section \<open>Who holds an id\<close>

fun held_ids :: "'c action \<Rightarrow> u64 multiset" where
  "held_ids (Push i _ _) = {#i#}"
| "held_ids (ApproveLook i _) = {#i#}"
| "held_ids (Release i) = {#i#}"
| "held_ids (Look job) = {#job_id job#}"
| "held_ids (Start job _ _) = {#job_id job#}"
| "held_ids (Announce _ job _ _) = {#job_id job#}"
| "held_ids (Guest job _ _) = {#job_id job#}"
| "held_ids (Forward _ job _ _ _) = {#job_id job#}"
| "held_ids (Park job _) = {#job_id job#}"
| "held_ids _ = {#}"

definition program_ids :: "'c action list \<Rightarrow> u64 multiset" where
  "program_ids p = sum_list (map held_ids p)"

definition stored_ids :: "('c, 'z) action_broker_scheme \<Rightarrow> u64 multiset" where
  "stored_ids b = image_mset job_id (mset (ab_queue b)) + mset_set (fset (fmdom (bs_pending b)))"

definition thread_ids :: "'c system \<Rightarrow> u64 multiset" where
  "thread_ids s = sum_mset (image_mset program_ids (sy_others s)) + program_ids (sy_worker s)"

definition registered :: "('c, 'z) action_broker_scheme \<Rightarrow> u64 multiset" where
  "registered b = mset_set (fset (fmdom (bs_handles b)))"

lemma program_ids_simps [simp]:
  "program_ids [] = {#}" "program_ids (a # p) = held_ids a + program_ids p"
  "program_ids (p @ q) = program_ids p + program_ids q"
  by (simp_all add: program_ids_def)

lemma registered_count: "count (registered b) i \<le> 1"
  by (simp add: registered_def count_mset_set')

lemma registered_iff: "i \<in># registered b \<longleftrightarrow> i |\<in>| fmdom (bs_handles b)"
  by (simp add: registered_def)

lemma registered_cong: "bs_handles b' = bs_handles b \<Longrightarrow> registered b' = registered b"
  by (simp add: registered_def)

lemma stored_cong:
  "ab_queue b' = ab_queue b \<Longrightarrow> bs_pending b' = bs_pending b \<Longrightarrow> stored_ids b' = stored_ids b"
  by (simp add: stored_ids_def)

lemma mset_set_take: "finite A \<Longrightarrow> i \<in> A \<Longrightarrow> mset_set A = add_mset i (mset_set (A - {i}))"
  by (metis Diff_iff finite_Diff insertI1 insert_Diff mset_set.insert)

lemma registered_release: "i \<in># registered b \<Longrightarrow> registered b = add_mset i (registered (release i b))"
  by (simp add: registered_def release_def mset_set_take)

lemma stored_take:
  "fmlookup (bs_pending b) i = Some p \<Longrightarrow>
     stored_ids b = add_mset i (stored_ids (b\<lparr>bs_pending := fmdrop i (bs_pending b)\<rparr>))"
  using mset_set_take [of "fset (fmdom (bs_pending b))" i] by (auto simp: stored_ids_def fmdomI)

lemma stored_put:
  "i |\<notin>| fmdom (bs_pending b) \<Longrightarrow>
     stored_ids (b\<lparr>bs_pending := fmupd i p (bs_pending b)\<rparr>) = add_mset i (stored_ids b)"
  by (simp add: stored_ids_def)


section \<open>The accounts of a thread\<close>

text \<open>The ids in the broker, in the hand \<open>H\<close> of a thread and with the rest \<open>R\<close> of the system.\<close>

definition accounts :: "u64 multiset \<Rightarrow> 'c monitored \<Rightarrow> u64 multiset \<Rightarrow> bool" where
  "accounts R b H \<longleftrightarrow> R + stored_ids b + H = registered b
     \<and> (\<forall>i p. fmlookup (bs_pending b) i = Some p \<longrightarrow> job_id (pj_job p) = i)
     \<and> (\<forall>c < ab_next_channel b. ab_open b c)"

text \<open>What a thread knows of the ids it names, and of the handle it took.\<close>

fun id_ok :: "'c monitored \<Rightarrow> 'c action \<Rightarrow> bool" where
  "id_ok b (Push i job _) = (job_id job = i)"
| "id_ok b (ApproveLook i job) = (job_id job = i)"
| "id_ok b (Start job handle _) = (fmlookup (bs_handles b) (job_id job) = Some handle)"
| "id_ok b (Announce _ job handle _) = (fmlookup (bs_handles b) (job_id job) = Some handle)"
| "id_ok b (Guest job handle _) = (fmlookup (bs_handles b) (job_id job) = Some handle)"
| "id_ok b (Forward _ job handle _ _) = (fmlookup (bs_handles b) (job_id job) = Some handle)"
| "id_ok b (Unpark _) = False"
| "id_ok b _ = True"

definition step_accounts :: "u64 multiset \<Rightarrow> 'c monitored \<Rightarrow> 'c action list \<times> 'c monitored \<Rightarrow> bool" where
  "step_accounts R b s \<longleftrightarrow> accounts R (snd s) (program_ids (fst s)) \<and> list_all (id_ok (snd s)) (fst s)
     \<and> (\<forall>i \<in># R. fmlookup (bs_handles (snd s)) i = fmlookup (bs_handles b) i)"

lemma accounts_cong:
  assumes "accounts R b H" "ab_queue b' = ab_queue b" "bs_pending b' = bs_pending b"
    "bs_handles b' = bs_handles b" "ab_next_channel b' = ab_next_channel b" "ab_open b' = ab_open b"
  shows "accounts R b' H"
  using assms by (simp add: accounts_def stored_ids_def registered_def)

lemma step_accounts_same:
  assumes "accounts R b (program_ids next)" "ab_queue b' = ab_queue b" "bs_pending b' = bs_pending b"
    "bs_handles b' = bs_handles b" "ab_next_channel b' = ab_next_channel b" "ab_open b' = ab_open b"
    and "list_all (id_ok b') next"
  shows "step_accounts R b (next, b')"
  using accounts_cong [OF assms(1-6)] assms(4,7) by (simp add: step_accounts_def)

lemma accounts_unique:
  assumes "accounts R b H" "i \<in># H"
  shows "i \<notin># R" "i |\<notin>| fmdom (bs_pending b)" "i \<in># registered b"
proof -
  have sum: "R + stored_ids b + H = registered b" using assms(1) by (simp add: accounts_def)
  have "count R i + count (stored_ids b) i + count H i \<le> 1"
    using registered_count [of b i] unfolding sum [symmetric] by simp
  moreover have "1 \<le> count H i" using assms(2) by (simp only: count_greater_eq_one_iff)
  ultimately have none: "count R i = 0" "count (stored_ids b) i = 0" by linarith+
  show "i \<notin># R" using none(1) by (simp only: not_in_iff)
  show "i |\<notin>| fmdom (bs_pending b)"
    using none(2) by (auto simp: stored_ids_def count_mset_set' split: if_splits)
  show "i \<in># registered b" using assms(2) unfolding sum [symmetric] by simp
qed

text \<open>Taking a session from the pending map and releasing an id.\<close>

lemma accounts_take:
  assumes "accounts R b {#}" "fmlookup (bs_pending b) i = Some p"
  shows "accounts R (b\<lparr>bs_pending := fmdrop i (bs_pending b)\<rparr>) {#i#}" "job_id (pj_job p) = i"
  using assms stored_take [OF assms(2)] registered_cong [of "b\<lparr>bs_pending := fmdrop i (bs_pending b)\<rparr>" b]
  by (simp_all add: accounts_def)

lemma accounts_release:
  assumes "accounts R b {#i#}"
  shows "step_accounts R b ([], release i b)"
proof -
  have "i \<notin># R" "i \<in># registered b" using accounts_unique [OF assms] by simp_all
  then have "add_mset i (R + stored_ids b) = add_mset i (registered (release i b))" "\<forall>j \<in># R. j \<noteq> i"
    using assms registered_release [of i b] by (auto simp: accounts_def)
  then show ?thesis
    using assms stored_cong [of "release i b" b]
    by (simp add: step_accounts_def accounts_def)
qed

lemma ending_ids [simp]:
  "program_ids (closing i job t d out) = {#i#}" "list_all (id_ok b) (closing i job t d out)"
  "program_ids (finishing job d ms audit) = {#job_id job#}" "list_all (id_ok b) (finishing job d ms audit)"
  "program_ids (barrier job ms) = {#job_id job#}" "list_all (id_ok b) (barrier job ms)"
  by (simp_all add: closing_def finishing_def barrier_def Let_def job_id_def)


section \<open>The callers and the sweeper\<close>

lemma submit_accounts:
  assumes "accounts R b {#}"
  shows "step_accounts R b (submit_act sink component r b)"
proof -
  obtain c b1 where new: "channel_new b = (c, b1)" by fastforce
  then have b1: "accounts R b1 {#}" "bs_handles b1 = bs_handles b"
    using assms by (auto simp: accounts_def channel_new_def stored_ids_def registered_def less_Suc_eq)
  then show ?thesis
    using assms new by (auto simp: submit_act_def step_accounts_def split: sum.split)
qed

lemma enqueue_accounts:
  assumes acc: "accounts R b {#}" and fresh: "careful b (Enqueue job)"
  shows "step_accounts R b (enqueue_act job b)"
proof (cases "unat (ab_capacity b) \<le> fcard (fmdom (bs_handles b))")
  case True
  then show ?thesis using acc by (simp add: enqueue_act_def Let_def step_accounts_def)
next
  case False
  let ?i = "job_id job"
  obtain handle m where new: "cancel_handle_new (ab_signals b) = (handle, m)" by fastforce
  let ?b = "b\<lparr>ab_signals := m, bs_handles := fmupd ?i handle (bs_handles b)\<rparr>"
  have i: "?i |\<notin>| fmdom (bs_handles b)" using fresh by (simp add: careful_def)
  have "?i \<notin># R"
  proof
    assume "?i \<in># R"
    then have "?i \<in># registered b" using acc by (metis accounts_def union_iff)
    then show False using i by (simp add: registered_iff)
  qed
  then have lookups: "\<forall>j \<in># R. fmlookup (bs_handles ?b) j = fmlookup (bs_handles b) j" by auto
  have "registered ?b = add_mset ?i (registered b)" using i by (simp add: registered_def)
  then have "accounts R ?b {#?i#}"
    using acc stored_cong [of ?b b] by (simp add: accounts_def)
  then show ?thesis
    using False new lookups by (simp add: enqueue_act_def Let_def step_accounts_def job_id_def)
qed

lemma push_accounts:
  assumes acc: "accounts R b {#i#}" and "job_id job = i"
  shows "step_accounts R b (push_act i job reply b)"
proof (cases "ab_worker_up b")
  case True
  have "accounts R (b\<lparr>ab_queue := ab_queue b @ [job]\<rparr>) {#}"
    using assms registered_cong [of "b\<lparr>ab_queue := ab_queue b @ [job]\<rparr>" b]
    by (simp add: accounts_def stored_ids_def)
  then show ?thesis using True by (simp add: push_act_def step_accounts_def)
next
  case False
  then show ?thesis using acc by (simp add: push_act_def step_accounts_def)
qed

lemma take_accounts:
  assumes acc: "accounts R b {#}"
  shows "take_pending i b = (None, b') \<Longrightarrow> accounts R b' {#} \<and> bs_handles b' = bs_handles b"
    and "take_pending i b = (Some job, b') \<Longrightarrow>
      accounts R b' {#i#} \<and> job_id job = i \<and> bs_handles b' = bs_handles b"
  using assms accounts_take [OF assms] by (cases "fmlookup (bs_pending b) i"; auto)+

lemma parked_accounts:
  assumes acc: "accounts R b {#}"
  shows "step_accounts R b (deny_take i b)" "step_accounts R b (cancel_take i b)"
    "step_accounts R b (expire_take i b)" "step_accounts R b (approve_take i b)"
proof -
  obtain found b' where t: "take_pending i b = (found, b')" by fastforce
  note kept = take_accounts(1) [OF acc, of i b', unfolded t] take_accounts(2) [OF acc, of i _ b', unfolded t]
  show "step_accounts R b (deny_take i b)" "step_accounts R b (cancel_take i b)"
    "step_accounts R b (expire_take i b)" "step_accounts R b (approve_take i b)"
    unfolding deny_take_def cancel_take_def expire_take_def approve_take_def t
    using kept by (cases found; simp add: step_accounts_def)+
qed

lemma note_accounts:
  "accounts R (note_action a b) H = accounts R b H"
  "step_accounts R (note_action a b) s = step_accounts R b s" "id_ok (note_action a b) = id_ok b"
  "careful (note_action a b) = careful b"
proof -
  have same: "bs_handles (note_action a b) = bs_handles b" "bs_pending (note_action a b) = bs_pending b"
    "ab_queue (note_action a b) = ab_queue b" "ab_next_channel (note_action a b) = ab_next_channel b"
    "ab_open (note_action a b) = ab_open b"
    by (simp_all add: note_action_def note_approval_def split: action.split option.split)
  show "accounts R (note_action a b) H = accounts R b H"
    using same by (simp add: accounts_def stored_ids_def registered_def)
  show "step_accounts R (note_action a b) s = step_accounts R b s" by (simp add: step_accounts_def same)
  have "id_ok (note_action a b) x = id_ok b x" for x by (cases x) (simp_all add: same)
  then show "id_ok (note_action a b) = id_ok b" by blast
  show "careful (note_action a b) = careful b" by (simp add: careful_def same fun_eq_iff split: action.split)
qed


section \<open>The worker\<close>

lemma job_id_frame [simp]:
  "job_id (note_event job e) = job_id job" "job_id (job\<lparr>job_session := s\<rparr>) = job_id job"
  by (simp_all add: job_id_def)

lemma result_job_id:
  "capture_result r job = (outcome, job1) \<Longrightarrow> job_id job1 = job_id job"
  "stream_result r' job = (e, audit, job1) \<Longrightarrow> job_id job1 = job_id job"
  by (auto simp: job_id_def dest: capture_result_frame stream_result_frame)

lemma look_accounts:
  "accounts R b {#job_id job#} \<Longrightarrow> step_accounts R b (look_act job b)"
  by (auto simp: look_act_def step_accounts_def job_id_def split: option.split risk.split)

lemma start_accounts:
  assumes "accounts R b {#job_id job#}" "id_ok b (Start job handle d)"
  shows "step_accounts R b (start_act job handle d b)"
  using assms
  by (auto simp: start_act_def step_accounts_def split: prod.split sum.split job_sink.split)

lemma guest_accounts:
  assumes "accounts R b {#job_id job#}" "id_ok b (Guest job handle d)"
  shows "step_accounts R b (guest_act be job handle d b)"
  using assms
  by (auto simp: guest_act_def step_accounts_def result_job_id
      split: prod.split option.split job_sink.split call.split)

lemma forward_accounts:
  assumes "accounts R b {#job_id job#}" "id_ok b (Forward ms job handle d result)"
  shows "step_accounts R b (forward_act ms job handle d result b)"
proof (cases ms)
  case Nil
  then show ?thesis using assms
    by (auto simp: forward_act_def step_accounts_def result_job_id split: prod.split option.split)
next
  case (Cons m ms')
  then show ?thesis using assms
    by (auto simp: forward_act_def intro!: step_accounts_same)
qed

lemma park_accounts:
  assumes acc: "accounts R b {#job_id job#}"
  shows "step_accounts R b (park_act now job reason b)"
proof -
  let ?p = "\<lparr>pj_job = note_event job (PendingApproval reason), pj_deadline = now + bs_approval_timeout b\<rparr>"
  let ?b = "b\<lparr>bs_pending := fmupd (job_id job) ?p (bs_pending b)\<rparr>"
  have "job_id job |\<notin>| fmdom (bs_pending b)" using accounts_unique(2) [OF acc] by simp
  then have "accounts R ?b {#}"
    using acc registered_cong [of ?b b] by (simp add: accounts_def stored_put)
  then show ?thesis by (simp add: park_act_def step_accounts_def Let_def job_id_def)
qed

lemma notify_accounts:
  assumes "accounts R b {#}" "sink_channel sink < ab_next_channel b"
  shows "step_accounts R b (notify_act i sink reason b)"
proof -
  have "ab_open b (sink_channel sink)" using assms by (simp add: accounts_def)
  then have "notify_act i sink reason b
      = ([], snd (channel_send (sink_channel sink) (pending_message sink reason) b))"
    by (simp add: notify_act_def case_prod_beta chan.send_reports)
  moreover have "step_accounts R b ([], snd (channel_send (sink_channel sink) (pending_message sink reason) b))"
    using assms(1) by (intro step_accounts_same) simp_all
  ultimately show ?thesis by simp
qed

lemma act_accounts:
  assumes acc: "accounts R b (held_ids a)" and a: "id_ok b a" "careful b a"
    and notice: "\<And>i sink reason. a = Notify i sink reason \<Longrightarrow> sink_channel sink < ab_next_channel b"
  shows "step_accounts R b (act be now a b)"
proof (cases a)
  case (Tell c ms)
  then show ?thesis
    using acc by (cases ms) (auto intro!: step_accounts_same)
next
  case (CancelLook i)
  then show ?thesis using acc by (auto simp: cancel_look_def step_accounts_def split: option.split)
next
  case (SweepList order time)
  have "program_ids (map ExpireTake ids :: 'a action list) = {#}" "list_all (id_ok b) (map ExpireTake ids)" for ids
    by (induction ids) simp_all
  then show ?thesis using acc SweepList by (simp add: sweep_list_def step_accounts_def)
next
  case (Announce c job handle d)
  then show ?thesis using acc a by (auto intro!: step_accounts_same)
next
  case (Record entry)
  then show ?thesis using acc by (auto simp: audit_record_eq intro!: step_accounts_same)
next
  case (Raise handle)
  then show ?thesis using acc by (auto intro!: step_accounts_same)
next
  case (HangUp c)
  then show ?thesis using a by (simp add: careful_def)
next
  case (ApproveLook i job)
  then show ?thesis using acc a
    by (auto simp: approve_look_def step_accounts_def job_id_def)
qed (use acc a notice in \<open>simp_all add: step_accounts_same submit_accounts enqueue_accounts push_accounts
    parked_accounts accounts_release look_accounts start_accounts guest_accounts
    forward_accounts park_accounts notify_accounts step_accounts_def [of _ _ "([], b)"]\<close>)


section \<open>The system\<close>

text \<open>Each registered id is with one session, and the threads know what they need of theirs.\<close>

definition balanced :: "'c system \<Rightarrow> bool" where
  "balanced s \<longleftrightarrow> accounts (thread_ids s) (sy_broker s) {#}
     \<and> (\<forall>p \<in># sy_others s. list_all (id_ok (sy_broker s)) p)
     \<and> list_all (id_ok (sy_broker s)) (sy_worker s)"

lemma accounts_hand: "accounts R b (H + K) \<longleftrightarrow> accounts (R + K) b H"
  by (simp add: accounts_def ac_simps)

lemma id_ok_kept:
  assumes "id_ok b a" "\<forall>i \<in># held_ids a. fmlookup (bs_handles b') i = fmlookup (bs_handles b) i"
  shows "id_ok b' a"
  using assms by (cases a) simp_all

lemma program_kept:
  assumes "list_all (id_ok b) p" "\<forall>i \<in># program_ids p. fmlookup (bs_handles b') i = fmlookup (bs_handles b) i"
  shows "list_all (id_ok b') p"
  using assms by (induction p) (auto intro: id_ok_kept)

lemma others_kept:
  assumes "\<forall>p \<in># others. list_all (id_ok b) p"
    and "\<forall>i \<in># sum_mset (image_mset program_ids others). fmlookup (bs_handles b') i = fmlookup (bs_handles b) i"
  shows "\<forall>p \<in># others. list_all (id_ok b') p"
proof
  fix p assume p: "p \<in># others"
  then have "i \<in># sum_mset (image_mset program_ids others)" if "i \<in># program_ids p" for i
    using that by auto
  then show "list_all (id_ok b') p" using assms p by (blast intro: program_kept)
qed

lemma other_balanced:
  assumes s: "balanced s" "sy_others s = add_mset (a # rest) others"
    and step: "act be now a (note_action a (sy_broker s)) = (next, b)"
    and careful: "careful (sy_broker s) a" and worker: "\<And>i sink reason. a \<noteq> Notify i sink reason"
  shows "balanced (s\<lparr>sy_broker := b, sy_others := add_mset (next @ rest) others\<rparr>)"
proof -
  let ?R = "program_ids rest + sum_mset (image_mset program_ids others) + program_ids (sy_worker s)"
  note parts = s(1) [unfolded balanced_def]
  have "accounts ?R (sy_broker s) (held_ids a)"
    using parts accounts_hand [of ?R "sy_broker s" "{#}" "held_ids a"] s(2)
    by (simp add: thread_ids_def ac_simps)
  then have after: "step_accounts ?R (sy_broker s) (next, b)"
    using act_accounts [of ?R "note_action a (sy_broker s)" a be now] parts s(2) careful worker step
    by (simp add: note_accounts)
  then have kept: "\<forall>i \<in># ?R. fmlookup (bs_handles b) i = fmlookup (bs_handles (sy_broker s)) i"
    by (simp add: step_accounts_def)
  have ok: "list_all (id_ok (sy_broker s)) rest" "list_all (id_ok (sy_broker s)) (sy_worker s)"
    "\<forall>p \<in># others. list_all (id_ok (sy_broker s)) p"
    using parts s(2) by simp_all
  have "list_all (id_ok b) rest" by (rule program_kept [OF ok(1)]) (use kept in \<open>unfold set_mset_union, blast\<close>)
  moreover have "list_all (id_ok b) (sy_worker s)"
    by (rule program_kept [OF ok(2)]) (use kept in \<open>unfold set_mset_union, blast\<close>)
  moreover have "\<forall>p \<in># others. list_all (id_ok b) p"
    by (rule others_kept [OF ok(3)]) (use kept in \<open>unfold set_mset_union, blast\<close>)
  moreover have "accounts (?R + program_ids next) b {#}"
    using after accounts_hand [of ?R b "{#}" "program_ids next"] by (simp add: step_accounts_def)
  ultimately show ?thesis
    using after by (simp add: balanced_def thread_ids_def step_accounts_def ac_simps)
qed

lemma worker_balanced:
  assumes s: "balanced s" "sy_worker s = a # rest"
    and step: "act be now a (sy_broker s) = (next, b)" and careful: "careful (sy_broker s) a"
    and notice: "\<And>i sink reason. a = Notify i sink reason \<Longrightarrow>
      sink_channel sink < ab_next_channel (sy_broker s)"
  shows "balanced (s\<lparr>sy_broker := b, sy_worker := next @ rest\<rparr>)"
proof -
  let ?R = "program_ids rest + sum_mset (image_mset program_ids (sy_others s))"
  note parts = s(1) [unfolded balanced_def]
  have "accounts ?R (sy_broker s) (held_ids a)"
    using parts accounts_hand [of ?R "sy_broker s" "{#}" "held_ids a"] s(2)
    by (simp add: thread_ids_def ac_simps)
  then have after: "step_accounts ?R (sy_broker s) (next, b)"
    using act_accounts [of ?R "sy_broker s" a be now] parts s(2) careful notice step by simp
  then have kept: "\<forall>i \<in># ?R. fmlookup (bs_handles b) i = fmlookup (bs_handles (sy_broker s)) i"
    by (simp add: step_accounts_def)
  have ok: "list_all (id_ok (sy_broker s)) rest" "\<forall>p \<in># sy_others s. list_all (id_ok (sy_broker s)) p"
    using parts s(2) by simp_all
  have "list_all (id_ok b) rest" by (rule program_kept [OF ok(1)]) (use kept in \<open>unfold set_mset_union, blast\<close>)
  moreover have "\<forall>p \<in># sy_others s. list_all (id_ok b) p"
    by (rule others_kept [OF ok(2)]) (use kept in \<open>unfold set_mset_union, blast\<close>)
  moreover have "accounts (?R + program_ids next) b {#}"
    using after accounts_hand [of ?R b "{#}" "program_ids next"] by (simp add: step_accounts_def)
  ultimately show ?thesis
    using after by (simp add: balanced_def thread_ids_def step_accounts_def ac_simps)
qed


text \<open>What the worker holds is registered and not parked.\<close>

lemma worker_holds:
  assumes bal: "balanced s" and a: "a \<in> set (sy_worker s)"
  shows "\<exists>R. accounts R (sy_broker s) (held_ids a)"
proof -
  obtain p q where w: "sy_worker s = p @ a # q" using a by (meson split_list)
  let ?R = "program_ids p + program_ids q + sum_mset (image_mset program_ids (sy_others s))"
  have "accounts (?R + held_ids a) (sy_broker s) {#}"
    using bal w by (simp add: balanced_def thread_ids_def ac_simps)
  then show ?thesis using accounts_hand [of ?R "sy_broker s" "{#}" "held_ids a"] by auto
qed

lemma held_not_parked:
  assumes "balanced s" "a \<in> set (sy_worker s)" "i \<in># held_ids a"
  shows "i |\<notin>| fmdom (bs_pending (sy_broker s))"
  using worker_holds [OF assms(1,2)] assms(3) accounts_unique(2) by blast

lemma held_registered:
  assumes "balanced s" "a \<in> set (sy_worker s)" "i \<in># held_ids a"
  shows "i |\<in>| fmdom (bs_handles (sy_broker s))"
  using worker_holds [OF assms(1,2)] assms(3) accounts_unique(3) registered_iff by blast

lemma worker_careful: "worker_ok b a \<Longrightarrow> note_action a b = b \<and> careful b a"
  by (cases a) (simp_all add: note_action_def careful_def)

lemma careful_step_balanced:
  assumes "careful_step s s'" "balanced s" "lock_inv {#} (sy_broker s) (sy_worker s) (sy_others s)"
  shows "balanced s'"
  using assms
proof (induction rule: careful_step.induct)
  case (careful_call s op)
  have "program_ids [first_action op] = {#}" "list_all (id_ok (sy_broker s)) [first_action op]"
    by (cases op; simp)+
  then show ?case using careful_call by (simp add: balanced_def thread_ids_def)
next
  case (careful_other s a rest others be now p b)
  then obtain "next" where step: "act be now a (note_action a (sy_broker s)) = (next, b)" "p = next @ rest"
    by (auto simp: thread_step_def split: prod.splits)
  have "other_ok (sy_broker s) (sy_worker s) a"
    using careful_other by (simp add: lock_inv_def items_ok_def)
  then have "a \<noteq> Notify i sink reason" for i sink reason by auto
  then show ?case
    using other_balanced [OF careful_other(4,1) step(1) careful_other(2)] step(2) by simp
next
  case (careful_exit s others)
  then show ?case by (simp add: balanced_def thread_ids_def)
next
  case (careful_receive s job queue)
  let ?b = "(sy_broker s)\<lparr>ab_queue := queue\<rparr>"
  have "stored_ids (sy_broker s) = add_mset (job_id job) (stored_ids ?b)" "registered ?b = registered (sy_broker s)"
    using careful_receive by (simp_all add: stored_ids_def registered_def)
  then have "accounts (thread_ids s) ?b {#job_id job#}"
    using careful_receive by (simp add: balanced_def accounts_def)
  then have "accounts (add_mset (job_id job) (thread_ids s)) ?b {#}"
    using accounts_hand [of "thread_ids s" ?b "{#}" "{#job_id job#}"] by simp
  moreover have "id_ok ?b a = id_ok (sy_broker s) a" for a by (cases a) simp_all
  then have "id_ok ?b = id_ok (sy_broker s)" by blast
  ultimately show ?case using careful_receive by (simp add: balanced_def thread_ids_def)
next
  case (careful_worker s be now p b)
  then obtain a rest where w: "sy_worker s = a # rest" by (cases "sy_worker s") auto
  have a: "note_action a (sy_broker s) = sy_broker s" "careful (sy_broker s) a"
    using worker_careful [of "sy_broker s" a] careful_worker w by (simp_all add: lock_inv_def items_ok_def)
  obtain "next" where step: "act be now a (sy_broker s) = (next, b)" "p = next @ rest"
    using careful_worker w a(1) by (auto simp: thread_step_def split: prod.splits)
  have "sink_channel sink < ab_next_channel (sy_broker s)" if "a = Notify i sink reason" for i sink reason
    using careful_worker w that by (simp add: lock_inv_def notice_ok_def notice_def Let_def)
  then show ?case
    using worker_balanced [OF careful_worker(4) w step(1) a(2)] step(2) by simp
qed

lemma careful_balanced: "careful_interleaving capacity timeout s \<Longrightarrow> balanced s"
proof (induction rule: careful_interleaving.induct)
  case (careful_init s)
  then obtain b where b: "monitored_init capacity timeout = Ok b"
    "s = \<lparr>sy_broker = b, sy_worker = [], sy_others = {#}\<rparr>"
    by (auto simp: system_init_def split: sum.splits)
  have "ab_queue b = []" "bs_pending b = fmempty" "bs_handles b = fmempty" "ab_next_channel b = 0"
    using b(1) by (auto simp: monitored_init_def with_config_def wasi_runtime_new_def map_err_def
        action_broker.extend_def monitored.fields_def split: if_splits)
  then show ?case
    using b(2) by (simp add: balanced_def accounts_def thread_ids_def stored_ids_def registered_def)
next
  case (careful_next s s')
  then show ?case
    using careful_step_balanced interleaving_inv [OF careful_interleaved] by blast
qed


section \<open>A careful schedule with a guest in it\<close>

lemma careful_act:
  assumes "act be now a (note_action a b) = (next, b')" "careful b a"
  shows "careful_step (system_of b w (add_mset (a # rest) others)) (system_of b' w (add_mset (next @ rest) others))"
  using careful_other [of "system_of b w (add_mset (a # rest) others)" a rest others be now "next @ rest" b'] assms
  by (simp add: system_of_def thread_step_def)

lemma careful_work:
  assumes "act be now a b = (next, b')" "panics_cleanly be" "note_action a b = b"
  shows "careful_step (system_of b (a # rest) others) (system_of b' (next @ rest) others)"
  using careful_worker [of "system_of b (a # rest) others" be now "next @ rest" b'] assms
  by (simp add: system_of_def thread_step_def)

lemma careful_submission:
  assumes s: "careful_interleaving capacity timeout (system_of b w others)"
    and r: "validate r = Ok ()" "cr_mode r = Wasi"
    and b: "fcard (fmdom (bs_handles b)) < unat (ab_capacity b)" "cr_id r |\<notin>| fmdom (bs_handles b)" "ab_worker_up b"
    and op: "first_action op = Submit sink component r" "\<forall>c. sink_channel (sink c) = c"
  shows "careful_interleaving capacity timeout (system_of (fst (submit_job sink component r b)) w others)"
proof -
  let ?job = "new_job sink component r (ab_next_channel b)" and ?c = "ab_next_channel b"
  obtain handle m where new: "cancel_handle_new (ab_signals b) = (handle, m)" by fastforce
  let ?b1 = "snd (channel_new b)"
  let ?b2 = "?b1\<lparr>ab_signals := m, bs_handles := fmupd (cr_id r) handle (bs_handles b)\<rparr>"
  let ?b3 = "?b2\<lparr>ab_queue := ab_queue b @ [?job]\<rparr>"
  let ?sys = "\<lambda>b p. system_of b w (add_mset p others)"
  have job: "job_request ?job = r" "job_sink ?job = sink ?c" by (simp_all add: new_job_def)
  have "careful_step (system_of b w others) (?sys b [Submit sink component r])"
    using careful_call [of "system_of b w others" op] op by (simp add: system_of_def)
  moreover have "careful_step (?sys b [Submit sink component r]) (?sys ?b1 [Enqueue ?job])"
    using careful_act [of undefined 0 "Submit sink component r" b "[Enqueue ?job]" ?b1 w "[]" others] r
    by (simp add: submit_act_def new_job_def careful_def note_action_def channel_new_def)
  moreover have "careful_step (?sys ?b1 [Enqueue ?job]) (?sys ?b2 [Push (cr_id r) ?job (Receiver ?c)])"
    using careful_act [of undefined 0 "Enqueue ?job" ?b1 _ ?b2 w "[]" others] b new op
    by (simp add: enqueue_act_def job careful_def note_action_def Let_def job_id_def)
  moreover have "careful_step (?sys ?b2 [Push (cr_id r) ?job (Receiver ?c)]) (?sys ?b3 [Return (Ok (Receiver ?c))])"
    using careful_act [of undefined 0 "Push (cr_id r) ?job (Receiver ?c)" ?b2 _ ?b3 w "[]" others] b
    by (simp add: push_act_def careful_def note_action_def)
  moreover have "careful_step (?sys ?b3 [Return (Ok (Receiver ?c))]) (?sys ?b3 [])"
    using careful_act [of undefined 0 "Return (Ok (Receiver ?c))" ?b3 "[]" ?b3 w "[]" others]
    by (simp add: careful_def note_action_def)
  moreover have "careful_step (?sys ?b3 []) (system_of ?b3 w others)"
    using careful_exit [of "?sys ?b3 []" others] by (simp add: system_of_def)
  ultimately have "careful_interleaving capacity timeout (system_of ?b3 w others)"
    using s by (meson careful_next)
  moreover have "fst (submit_job sink component r b) = ?b3"
    using r b new by (simp add: submit_job_eq Let_def)
  ultimately show ?thesis by simp
qed

lemma example_start_careful: "careful_interleaving 2 100 (system_of example_start [] {#})"
  by (rule careful_init) (simp add: system_init_def example_start_eq system_of_def)

lemma example_careful: "careful_interleaving 2 100 (system_of example_submitted [] {#})"
  using careful_submission [OF example_start_careful, of example_request "OpSubmit () example_request" SinkOutcome "()"]
  by (simp add: example_submitted_def submit_def example_valid example_start_fields fcard.rep_eq sink_channel_def)


text \<open>The worker takes it up; its guest runs.\<close>

definition guest_handle :: "'c action \<Rightarrow> ('c job \<times> cancel_handle) option" where
  "guest_handle a = (case a of
     Guest job handle _ \<Rightarrow> Some (job, handle)
   | Forward _ job handle _ _ \<Rightarrow> Some (job, handle)
   | _ \<Rightarrow> None)"

lemma example_running:
  obtains job where
    "careful_interleaving 2 100 (system_of (example_submitted\<lparr>ab_queue := []\<rparr>) [Guest job (CancelHandle 0) AutoApproved] {#})"
    "job_id job = 7"
proof -
  let ?job = "new_job SinkOutcome () example_request 0"
  let ?b = "example_submitted\<lparr>ab_queue := []\<rparr>" and ?h = "CancelHandle 0" and ?be = example_backend
  have be: "panics_cleanly ?be" by (simp add: panics_cleanly_def example_backend_def)
  have job: "job_request ?job = example_request" "job_admission ?job = AutoApproved" "job_sink ?job = SinkOutcome 0"
    by (simp_all add: new_job_def)
  have auto: "classify_risk example_request = AutoApprove"
    using example_auto(1) by (simp add: example_auto_job_def)
  obtain s where s: "accept (job_session ?job) Started = (s, Inr ())"
    by (simp add: new_job_def accept_def session_new_def)
  have "careful_step (system_of example_submitted [] {#}) (system_of ?b [Look ?job] {#})"
    using careful_receive [of "system_of example_submitted [] {#}" ?job "[]"]
    by (simp add: system_of_def example_submitted_fields)
  moreover have "careful_step (system_of ?b [Look ?job] {#}) (system_of ?b [Start ?job ?h AutoApproved] {#})"
    using careful_work [of ?be 0 "Look ?job" ?b _ ?b "[]" "{#}"] be
    by (simp add: look_act_def job auto example_submitted_fields note_action_def)
  moreover have "careful_step (system_of ?b [Start ?job ?h AutoApproved] {#})
      (system_of ?b [Guest (?job\<lparr>job_session := s\<rparr>) ?h AutoApproved] {#})"
    using careful_work [of ?be 0 "Start ?job ?h AutoApproved" ?b _ ?b "[]" "{#}"] be
    by (simp add: start_act_def job s example_submitted_fields note_action_def)
  ultimately have "careful_interleaving 2 100
      (system_of ?b [Guest (?job\<lparr>job_session := s\<rparr>) ?h AutoApproved] {#})"
    using example_careful by (meson careful_next)
  then show ?thesis by (rule that) (simp add: job_id_def new_job_def example_request_def)
qed

section \<open>Properties\<close>

text \<open>
  C7. The accounts balance in every careful schedule: between any two lock sections each
  registered id belongs to exactly one session that is queued, parked or in the hands of one
  thread, and every such session is registered; so together they never exceed the capacity.
\<close>

theorem registered_ids_balance:
  assumes "careful_interleaving capacity timeout s"
  shows "stored_ids (sy_broker s) + thread_ids s = mset_set (fset (fmdom (bs_handles (sy_broker s))))
    \<and> length (ab_queue (sy_broker s)) + fcard (fmdom (bs_pending (sy_broker s))) + size (thread_ids s)
        \<le> unat capacity"
proof -
  have sum: "stored_ids (sy_broker s) + thread_ids s = registered (sy_broker s)"
    using careful_balanced [OF assms] by (simp add: balanced_def accounts_def ac_simps)
  have "fcard (fmdom (bs_handles (sy_broker s))) \<le> unat capacity"
    using interleaving_inv [OF careful_interleaved [OF assms]]
      interleaving_setup [OF careful_interleaved [OF assms]] by (simp add: lock_inv_def sizes_ok_def)
  then have "size (registered (sy_broker s)) \<le> unat capacity" by (simp add: registered_def fcard.rep_eq)
  then have "size (stored_ids (sy_broker s) + thread_ids s) \<le> unat capacity" by (simp only: sum)
  then show ?thesis using sum by (simp add: registered_def stored_ids_def fcard.rep_eq)
qed

theorem registered_ids_balance_witness:
  "length (ab_queue example_submitted) + fcard (fmdom (bs_pending example_submitted)) \<le> 2"
  using registered_ids_balance [OF example_careful] by (simp add: system_of_def)

text \<open>
  C19. Every live session can be cancelled in a careful schedule: a cancellation of a session
  that is queued, parked or held by a thread is accepted, whatever the other threads are in
  the middle of; and when its guest is running, it raises the very signal that the worker
  handed to that run.
\<close>

theorem live_sessions_accept_cancellation:
  assumes "careful_interleaving capacity timeout s"
  shows "(\<forall>i \<in># stored_ids (sy_broker s) + thread_ids s.
       runs_to be now ([CancelTake i], sy_broker s) ([Return (Ok Accepted)], fst (cancel i (sy_broker s))))
    \<and> (\<forall>a \<in> set (sy_worker s). \<forall>job handle. guest_handle a = Some (job, handle) \<longrightarrow>
         is_cancelled (ab_signals (fst (cancel (job_id job) (sy_broker s)))) handle)"
proof (intro conjI ballI allI impI)
  let ?b = "sy_broker s"
  have bal: "balanced s" by (rule careful_balanced [OF assms])
  fix i assume "i \<in># stored_ids ?b + thread_ids s"
  then have "i \<in># registered ?b" using bal by (metis balanced_def accounts_def add.commute add.right_neutral)
  then obtain handle where "fmlookup (bs_handles ?b) i = Some handle"
    by (auto simp: registered_iff elim: fmdomE)
  then have "snd (cancel i ?b) = Ok ()" by (simp add: cancel_def split: option.split)
  then show "runs_to be now ([CancelTake i], ?b) ([Return (Ok Accepted)], fst (cancel i ?b))"
    using cancel_runs [of be now i ?b] by simp
next
  let ?b = "sy_broker s"
  fix a job handle assume a: "a \<in> set (sy_worker s)" "guest_handle a = Some (job, handle)"
  have bal: "balanced s" by (rule careful_balanced [OF assms])
  have "job_id job \<in># held_ids a" using a(2) by (auto simp: guest_handle_def split: action.splits)
  then have "fmlookup (bs_pending ?b) (job_id job) = None"
    using held_not_parked [OF bal a(1)] by (simp add: fmdom_notD)
  moreover have "id_ok ?b a" using bal a(1) by (simp add: balanced_def list_all_iff)
  then have "fmlookup (bs_handles ?b) (job_id job) = Some handle"
    using a(2) by (auto simp: guest_handle_def split: action.splits)
  ultimately show "is_cancelled (ab_signals (fst (cancel (job_id job) ?b))) handle"
    by (simp add: cancel_def signal.raise_raises)
qed

theorem live_sessions_accept_cancellation_witness:
  "is_cancelled (ab_signals (fst (cancel 7 (example_submitted\<lparr>ab_queue := []\<rparr>)))) (CancelHandle 0)"
proof -
  obtain job where job: "careful_interleaving 2 100
      (system_of (example_submitted\<lparr>ab_queue := []\<rparr>) [Guest job (CancelHandle 0) AutoApproved] {#})"
    "job_id job = 7" by (rule example_running)
  show ?thesis
    using live_sessions_accept_cancellation [OF job(1), of undefined 0] job(2)
    by (simp add: system_of_def guest_handle_def)
qed





end
