(* ===== verification/Quiescence.thy ===== *)
theory Quiescence
  imports Lock_Accounts
begin

text \<open>
  The broker comes to rest.  When no caller starts another operation, every schedule of the
  threads' lock sections ends, by a measure on the queue and on what the threads have left to
  do; and where no thread can go on, no operation is in progress, the worker is idle and the
  queue is empty.  What is left is parked.  The same holds of a broker that is being dropped;
  there, moreover, no guest starts any more.
\<close>

section \<open>Steps without calls\<close>

inductive quiet_step :: "'c system \<Rightarrow> 'c system \<Rightarrow> bool" where
  quiet_other: "sy_others s = add_mset (a # rest) others \<Longrightarrow>
    thread_step be now (a # rest, sy_broker s) = (p, b) \<Longrightarrow>
    quiet_step s (s\<lparr>sy_broker := b, sy_others := add_mset p others\<rparr>)"
| quiet_exit: "sy_others s = add_mset [] others \<Longrightarrow> quiet_step s (s\<lparr>sy_others := others\<rparr>)"
| quiet_receive: "sy_worker s = [] \<Longrightarrow> ab_queue (sy_broker s) = job # queue \<Longrightarrow>
    quiet_step s (s\<lparr>sy_broker := (sy_broker s)\<lparr>ab_queue := queue\<rparr>, sy_worker := [Look job]\<rparr>)"
| quiet_worker: "sy_worker s \<noteq> [] \<Longrightarrow> panics_cleanly be \<Longrightarrow> readers_end be \<Longrightarrow>
    thread_step be now (sy_worker s, sy_broker s) = (p, b) \<Longrightarrow>
    quiet_step s (s\<lparr>sy_broker := b, sy_worker := p\<rparr>)"

lemma quiet_system: "quiet_step s s' \<Longrightarrow> system_step s s'"
  by (induction rule: quiet_step.induct) (auto intro: system_step.intros)

section \<open>What is left to do\<close>

fun weight :: "'c action \<Rightarrow> nat" where
  "weight (Submit _ _ _) = 20"
| "weight (Enqueue _) = 19"
| "weight (Push _ _ _) = 18"
| "weight (ApproveTake _) = 20"
| "weight (ApproveLook _ _) = 19"
| "weight (DenyTake _) = 5"
| "weight (CancelTake _) = 5"
| "weight (CancelLook _) = 3"
| "weight (SweepList order _) = 1 + 4 * length order"
| "weight (ExpireTake _) = 4"
| "weight (Look _) = 9"
| "weight (Start _ _ _) = 8"
| "weight (Announce _ _ _ _) = 7"
| "weight (Guest _ _ _) = 6"
| "weight (Forward _ _ _ _ _) = 5"
| "weight (Park _ _) = 8"
| "weight (Notify _ _ _) = 3"
| "weight _ = 1"

fun chatter :: "'c action \<Rightarrow> nat" where
  "chatter (Tell _ ms) = length ms"
| "chatter (Forward ms _ _ _ _) = length ms"
| "chatter _ = 0"

definition program_weight :: "'c action list \<Rightarrow> nat" where
  "program_weight p = sum_list (map weight p)"

definition program_chatter :: "'c action list \<Rightarrow> nat" where
  "program_chatter p = sum_list (map chatter p)"

text \<open>A queued session is worth more than its \<open>Look\<close>; a program in progress has its exit left.\<close>

definition work_left :: "'c system \<Rightarrow> nat \<times> nat" where
  "work_left s =
     (10 * length (ab_queue (sy_broker s)) + size (sy_others s)
        + (\<Sum>p \<in># sy_others s. program_weight p) + program_weight (sy_worker s),
      (\<Sum>p \<in># sy_others s. program_chatter p) + program_chatter (sy_worker s))"

lemma program_measures [simp]:
  "program_weight [] = 0" "program_weight (a # p) = weight a + program_weight p"
  "program_weight (p @ q) = program_weight p + program_weight q"
  "program_chatter [] = 0" "program_chatter (a # p) = chatter a + program_chatter p"
  "program_chatter (p @ q) = program_chatter p + program_chatter q"
  by (simp_all add: program_weight_def program_chatter_def)

text \<open>An action leaves less to do than it was, in the queue and in its thread.\<close>

definition progress :: "('c, 'z) action_broker_scheme \<Rightarrow> 'c action \<Rightarrow> 'c action list \<times> ('c, 'z) action_broker_scheme \<Rightarrow> bool" where
  "progress b a s = (let left = 10 * length (ab_queue (snd s)) + program_weight (fst s);
      left0 = 10 * length (ab_queue b) + weight a
    in left < left0 \<or> left = left0 \<and> program_chatter (fst s) < chatter a)"

lemma ending_weight [simp]:
  "program_weight (closing i job t d out) = 3" "program_weight (finishing job d ms audit) = 3"
  "program_weight (barrier job ms) = 3"
  by (simp_all add: closing_def finishing_def barrier_def Let_def)

lemma take_queue_same: "take_pending i b = (found, b') \<Longrightarrow> ab_queue b' = ab_queue b"
  by (auto simp: take_pending_def)

lemma parked_progress:
  "progress b (ApproveTake i) (approve_take i b)" "progress b (DenyTake i) (deny_take i b)"
  "progress b (CancelTake i) (cancel_take i b)" "progress b (ExpireTake i) (expire_take i b)"
  by (auto simp: progress_def approve_take_def deny_take_def cancel_take_def expire_take_def
      split: prod.split option.split dest: take_queue_same)

lemma guest_progress:
  assumes "readers_end be"
  shows "progress b (Guest job handle d) (guest_act be job handle d b)"
proof -
  obtain r where "stream_guest_at be (ab_signals b) job handle = Some r"
    using readers_end_run [OF assms] unfolding stream_guest_at_def by blast
  then show ?thesis
    by (auto simp: progress_def guest_act_def split: prod.split option.split job_sink.split call.split)
qed

lemma forward_progress:
  assumes "\<forall>m. result m \<noteq> None"
  shows "progress b (Forward ms job handle d result) (forward_act ms job handle d result b)"
  using assms by (cases ms) (auto simp: progress_def forward_act_def split: prod.split option.split)

lemma act_progress:
  assumes "\<And>job handle d. a = Guest job handle d \<Longrightarrow> readers_end be"
    and "\<And>ms job handle d result. a = Forward ms job handle d result \<Longrightarrow> \<forall>m. result m \<noteq> None"
  shows "progress b a (act be now a b)"
proof (cases a)
  case (Tell c ms)
  then show ?thesis by (cases ms) (simp_all add: progress_def)
next
  case (SweepList order time)
  have "program_weight (map ExpireTake ids :: 'a action list) = 4 * length ids" for ids
    by (induction ids) simp_all
  then show ?thesis
    using SweepList length_filter_le [of "expired time b" order] by (simp add: progress_def sweep_list_def less_Suc_eq_le)
next
  case (Guest job handle d)
  then show ?thesis using guest_progress assms(1) by simp
next
  case (Forward ms job handle d result)
  then show ?thesis using forward_progress assms(2) by simp
qed (auto simp: parked_progress, auto simp: progress_def submit_act_def enqueue_act_def push_act_def approve_look_def
    cancel_look_def look_act_def start_act_def park_act_def notify_act_def channel_new_def channel_send_def
    hang_up_def release_def audit_record_eq Let_def
    split: option.split prod.split sum.split job_sink.split risk.split)


section \<open>Every schedule without calls ends\<close>

definition less_left :: "('c system \<times> 'c system) set" where
  "less_left = inv_image (less_than <*lex*> less_than) work_left"

lemma wf_less_left: "wf less_left"
  unfolding less_left_def by (intro wf_inv_image wf_lex_prod wf_less_than)

lemma note_queue: "ab_queue (note_action a b) = ab_queue b"
  by (simp add: note_action_def note_approval_def split: action.split option.split)

lemma thread_progress:
  assumes "thread_step be now (a # rest, b) = (p, b')" "progress (note_action a b) a (act be now a (note_action a b))"
  shows "10 * length (ab_queue b') + program_weight p < 10 * length (ab_queue b) + program_weight (a # rest)
    \<or> 10 * length (ab_queue b') + program_weight p = 10 * length (ab_queue b) + program_weight (a # rest)
      \<and> program_chatter p < program_chatter (a # rest)"
proof -
  obtain "next" where "act be now a (note_action a b) = (next, b')" "p = next @ rest"
    using assms(1) by (auto simp: thread_step_def split: prod.splits)
  then show ?thesis using assms(2) by (auto simp: progress_def Let_def note_queue)
qed

lemma quiet_less:
  assumes "quiet_step s s'" "lock_inv {#} (sy_broker s) (sy_worker s) (sy_others s)"
  shows "(s', s) \<in> less_left"
  using assms
proof (induction rule: quiet_step.induct)
  case (quiet_other s a rest others be now p b)
  have "other_ok (sy_broker s) (sy_worker s) a"
    using quiet_other by (simp add: lock_inv_def items_ok_def)
  then have "progress b0 a (act be now a b0)" for b0
    by (intro act_progress) auto
  from thread_progress [OF quiet_other(2) this] show ?case
    using quiet_other(1) by (auto simp: less_left_def work_left_def)
next
  case (quiet_worker s be now p b)
  then obtain a rest where w: "sy_worker s = a # rest" by (cases "sy_worker s") auto
  have "worker_ok (sy_broker s) a" using quiet_worker w by (simp add: lock_inv_def items_ok_def)
  then have "progress b0 a (act be now a b0)" for b0
    using quiet_worker(3) by (intro act_progress) auto
  from thread_progress [OF _ this] show ?case
    using quiet_worker(4) w by (auto simp: less_left_def work_left_def)
qed (simp_all add: less_left_def work_left_def)

text \<open>From a state with the invariant, no schedule goes on forever.\<close>

lemma quiet_inv:
  "quiet_step s s' \<Longrightarrow> lock_inv {#} (sy_broker s) (sy_worker s) (sy_others s) \<Longrightarrow>
     lock_inv {#} (sy_broker s') (sy_worker s') (sy_others s')"
  by (rule system_step_inv [OF quiet_system])

lemma quiet_ends:
  "lock_inv {#} (sy_broker s) (sy_worker s) (sy_others s) \<Longrightarrow> Wellfounded.accp quiet_step\<inverse>\<inverse> s"
proof (induction s rule: wf_induct_rule [OF wf_less_left])
  case (1 s)
  show ?case
  proof (rule accp.accI)
    fix t assume "quiet_step\<inverse>\<inverse> t s"
    then have t: "quiet_step s t" by simp
    show "Wellfounded.accp quiet_step\<inverse>\<inverse> t" by (rule 1(1) [OF quiet_less [OF t 1(2)] quiet_inv [OF t 1(2)]])
  qed
qed

section \<open>Where every schedule ends\<close>

definition at_rest :: "'c system \<Rightarrow> bool" where
  "at_rest s = (sy_worker s = [] \<and> sy_others s = {#} \<and> ab_queue (sy_broker s) = [])"

definition patient_backend :: "'c backend" where
  "patient_backend = undefined\<lparr>be_panics := \<lambda>_. None, be_stream_guest := \<lambda>_ _. (GuestOk, silent_run)\<rparr>"

lemma patient_backend_ok: "panics_cleanly patient_backend" "readers_end patient_backend"
  by (simp_all add: patient_backend_def panics_cleanly_def readers_end_def silent_run)

lemma stuck_at_rest:
  fixes s :: "'c system"
  assumes stuck: "\<nexists>t. quiet_step s t"
  shows "at_rest s"
proof -
  have "sy_worker s = []"
  proof (rule ccontr)
    assume "sy_worker s \<noteq> []"
    moreover obtain p b where "thread_step patient_backend 0 (sy_worker s, sy_broker s) = (p, b)" by fastforce
    ultimately show False using stuck quiet_worker [of s patient_backend 0 p b] patient_backend_ok by blast
  qed
  moreover have "sy_others s = {#}"
  proof (rule ccontr)
    assume "sy_others s \<noteq> {#}"
    then obtain q others where q: "sy_others s = add_mset q others" by (meson multiset_nonemptyE multi_member_split)
    obtain p b where step: "thread_step (patient_backend :: 'c backend) 0 (q, sy_broker s) = (p, b)" by fastforce
    show False
    proof (cases q)
      case Nil
      then show False using stuck quiet_exit [of s others] q by blast
    next
      case (Cons a rest)
      then show False using stuck quiet_other [of s a rest others patient_backend 0 p b] q step by blast
    qed
  qed
  moreover have "ab_queue (sy_broker s) = []"
  proof (rule ccontr)
    assume "ab_queue (sy_broker s) \<noteq> []"
    then show False using stuck quiet_receive [of s] \<open>sy_worker s = []\<close> by (metis neq_Nil_conv)
  qed
  ultimately show ?thesis by (simp add: at_rest_def)
qed


lemma reaches_rest:
  assumes "lock_inv {#} (sy_broker s) (sy_worker s) (sy_others s)"
  shows "\<exists>t. quiet_step\<^sup>*\<^sup>* s t \<and> at_rest t"
  using quiet_ends [OF assms]
proof (induction s rule: accp.induct)
  case (accI s)
  show ?case
  proof (cases "\<exists>t. quiet_step s t")
    case True
    then show ?thesis using accI(2) by (meson conversepI converse_rtranclp_into_rtranclp)
  next
    case False
    then show ?thesis using stuck_at_rest by blast
  qed
qed


section \<open>A broker that is being dropped\<close>

text \<open>
  \<open>Drop\<close> has the broker for itself: no caller is in an operation, and the sweeper is at most
  in the middle of a round.
\<close>

fun sweeping :: "'c action \<Rightarrow> bool" where
  "sweeping (SweepList _ _) = True"
| "sweeping (ExpireTake _) = True"
| "sweeping (Tell _ _) = True"
| "sweeping (Record _) = True"
| "sweeping (Release _) = True"
| "sweeping _ = False"

definition only_sweeper :: "'c system \<Rightarrow> bool" where
  "only_sweeper s = (\<forall>p \<in># sy_others s. list_all sweeping p)"

definition drop_begins :: "u64 list \<Rightarrow> 'c system \<Rightarrow> 'c system" where
  "drop_begins order s = s\<lparr>sy_broker := begin_drop order (sy_broker s)\<rparr>"

text \<open>The session that was started by the time of an action, with its handle.\<close>

definition started_handle :: "'c action \<Rightarrow> ('c job \<times> cancel_handle) option" where
  "started_handle a = (case a of
     Announce _ job handle _ \<Rightarrow> Some (job, handle)
   | _ \<Rightarrow> guest_handle a)"

text \<open>Nothing but a registration makes a handle known, and a raised signal stays up.\<close>

definition no_new_handles :: "('c, 'z) action_broker_scheme \<Rightarrow> ('c, 'z) action_broker_scheme \<Rightarrow> bool" where
  "no_new_handles b b' \<longleftrightarrow>
     (\<forall>i h. fmlookup (bs_handles b') i = Some h \<longrightarrow> fmlookup (bs_handles b) i = Some h)
   \<and> (\<forall>h. is_cancelled (ab_signals b) h \<longrightarrow> is_cancelled (ab_signals b') h)"

lemma no_new_handles_same:
  "bs_handles b' = bs_handles b \<Longrightarrow> ab_signals b' = ab_signals b \<Longrightarrow> no_new_handles b b'"
  by (simp add: no_new_handles_def)

text \<open>What the worker may know of a session while everything is cancelled.\<close>

fun doomed :: "('c job \<times> cancel_handle) set \<Rightarrow> cancel_store \<Rightarrow> 'c action \<Rightarrow> bool" where
  "doomed W m (Start _ handle _) = is_cancelled m handle"
| "doomed W m (Announce _ job handle _) = ((job, handle) \<in> W \<and> is_cancelled m handle)"
| "doomed W m (Guest job handle _) = ((job, handle) \<in> W \<and> is_cancelled m handle)"
| "doomed W m (Forward _ job handle _ _) = ((job, handle) \<in> W \<and> is_cancelled m handle)"
| "doomed W m _ = True"

definition worker_doomed ::
    "('c job \<times> cancel_handle) set \<Rightarrow> 'c monitored \<Rightarrow> 'c action list \<times> 'c monitored \<Rightarrow> bool" where
  "worker_doomed W b s \<longleftrightarrow> no_new_handles b (snd s) \<and> list_all (doomed W (ab_signals (snd s))) (fst s)"

lemma doomed_ending [simp]:
  "list_all (doomed W m) (closing i job t d out)" "list_all (doomed W m) (finishing job d ms audit)"
  "list_all (doomed W m) (barrier job ms)"
  "list_all sweeping (closing i job t d out)"
  by (simp_all add: closing_def finishing_def barrier_def Let_def)

lemma worker_doomed_step:
  assumes all: "all_cancelled b" and a: "doomed W (ab_signals b) a" "worker_ok b a"
  shows "worker_doomed W b (act be now a b)"
proof (cases a)
  case (Tell c ms)
  then show ?thesis by (cases ms) (simp_all add: worker_doomed_def no_new_handles_same)
next
  case (Look job)
  then show ?thesis using all
    by (auto simp: worker_doomed_def look_act_def all_cancelled_def no_new_handles_same
        split: option.split risk.split)
next
  case (Start job handle d)
  then show ?thesis using a by (simp add: worker_doomed_def start_act_def no_new_handles_same)
next
  case (Announce c job handle d)
  then show ?thesis using a by (simp add: worker_doomed_def no_new_handles_same)
next
  case (Guest job handle d)
  then show ?thesis using a
    by (auto simp: worker_doomed_def guest_act_def no_new_handles_same
        split: prod.split option.split job_sink.split call.split)
next
  case (Forward ms job handle d result)
  then show ?thesis using a
    by (cases ms) (auto simp: worker_doomed_def forward_act_def no_new_handles_same
        split: prod.split option.split)
next
  case (Notify i sink reason)
  then show ?thesis by (auto simp: worker_doomed_def notify_act_def channel_send_def no_new_handles_same)
next
  case (Record entry)
  then show ?thesis by (simp add: worker_doomed_def audit_record_eq no_new_handles_same)
qed (use a in \<open>auto simp: worker_doomed_def park_act_def release_def no_new_handles_def Let_def\<close>)

lemma sweeping_step:
  assumes "sweeping a"
  shows "no_new_handles b (snd (act be now a b)) \<and> list_all sweeping (fst (act be now a b))"
proof (cases a)
  case (Tell c ms)
  then show ?thesis by (cases ms) (simp_all add: no_new_handles_same)
next
  case (SweepList order time)
  then show ?thesis by (simp add: sweep_list_def no_new_handles_same list_all_iff)
next
  case (ExpireTake i)
  have "no_new_handles b (snd (take_pending i b))" by (simp add: take_pending_def no_new_handles_same)
  then show ?thesis
    using ExpireTake by (cases "take_pending i b"; cases "fst (take_pending i b)") (simp_all add: expire_take_def)
next
  case (Record entry)
  then show ?thesis by (simp add: audit_record_eq no_new_handles_same)
qed (use assms in \<open>auto simp: no_new_handles_def release_def\<close>)


definition drop_inv :: "('c job \<times> cancel_handle) set \<Rightarrow> 'c system \<Rightarrow> bool" where
  "drop_inv W s \<longleftrightarrow> all_cancelled (sy_broker s) \<and> only_sweeper s
     \<and> list_all (doomed W (ab_signals (sy_broker s))) (sy_worker s)
     \<and> lock_inv {#} (sy_broker s) (sy_worker s) (sy_others s)"

lemma all_cancelled_kept: "all_cancelled b \<Longrightarrow> no_new_handles b b' \<Longrightarrow> all_cancelled b'"
  unfolding all_cancelled_def no_new_handles_def by blast

lemma doomed_kept:
  assumes "list_all (doomed W (ab_signals b)) p" "no_new_handles b b'"
  shows "list_all (doomed W (ab_signals b')) p"
proof -
  have "doomed W (ab_signals b) a \<Longrightarrow> doomed W (ab_signals b') a" for a
    using assms(2) by (cases a) (auto simp: no_new_handles_def)
  then show ?thesis using assms(1) by (auto simp: list_all_iff)
qed

lemma drop_step:
  assumes "quiet_step s s'" "drop_inv W s"
  shows "drop_inv W s'"
  using assms
proof (induction rule: quiet_step.induct)
  case (quiet_other s a rest others be now p b)
  note inv = quiet_other(3) [unfolded drop_inv_def]
  have a: "sweeping a" "list_all sweeping rest" "\<forall>p \<in># others. list_all sweeping p"
    using inv quiet_other(1) by (simp_all add: only_sweeper_def)
  then have "note_action a (sy_broker s) = sy_broker s" by (cases a) (simp_all add: note_action_def)
  then obtain "next" where step: "act be now a (sy_broker s) = (next, b)" "p = next @ rest"
    using quiet_other(2) by (auto simp: thread_step_def split: prod.splits)
  then have b: "no_new_handles (sy_broker s) b" "list_all sweeping next"
    using sweeping_step [OF a(1), of "sy_broker s" be now] by simp_all
  have "lock_inv {#} b (sy_worker s) (add_mset p others)"
    using quiet_inv [OF quiet_step.quiet_other [OF quiet_other(1,2)]] inv by simp
  then show ?case
    using inv a b step(2) all_cancelled_kept [OF _ b(1)] doomed_kept [OF _ b(1), of W "sy_worker s"]
    by (simp add: drop_inv_def only_sweeper_def)
next
  case (quiet_exit s others)
  note inv = quiet_exit(2) [unfolded drop_inv_def]
  have "lock_inv {#} (sy_broker s) (sy_worker s) others"
    using quiet_inv [OF quiet_step.quiet_exit [OF quiet_exit(1)]] inv by simp
  then show ?case using inv quiet_exit(1) by (simp add: drop_inv_def only_sweeper_def)
next
  case (quiet_receive s job queue)
  note inv = quiet_receive(3) [unfolded drop_inv_def]
  have "lock_inv {#} ((sy_broker s)\<lparr>ab_queue := queue\<rparr>) [Look job] (sy_others s)"
    using quiet_inv [OF quiet_step.quiet_receive [OF quiet_receive(1,2)]] inv by simp
  then show ?case using inv by (simp add: drop_inv_def only_sweeper_def all_cancelled_def)
next
  case (quiet_worker s be now p b)
  note inv = quiet_worker(5) [unfolded drop_inv_def]
  obtain a rest where w: "sy_worker s = a # rest" using quiet_worker(1) by (cases "sy_worker s") auto
  have a: "worker_ok (sy_broker s) a" using inv w by (simp add: lock_inv_def items_ok_def)
  then have note_eq: "note_action a (sy_broker s) = sy_broker s" using worker_careful by blast
  obtain "next" where step: "act be now a (sy_broker s) = (next, b)" "p = next @ rest"
    using quiet_worker(4) w note_eq by (auto simp: thread_step_def split: prod.splits)
  have "worker_doomed W (sy_broker s) (next, b)"
    using worker_doomed_step [of "sy_broker s" W a be now] inv w a step(1) by simp
  then have b: "no_new_handles (sy_broker s) b" "list_all (doomed W (ab_signals b)) next"
    by (simp_all add: worker_doomed_def)
  have "lock_inv {#} b p (sy_others s)"
    using quiet_inv [OF quiet_step.quiet_worker [OF quiet_worker(1-4)]] inv by simp
  then show ?case
    using inv w b step(2) all_cancelled_kept [OF _ b(1)] doomed_kept [OF _ b(1), of W rest]
    by (simp add: drop_inv_def only_sweeper_def)
qed

lemma begin_drop_inv:
  "lock_inv {#} b w others \<Longrightarrow> lock_inv {#} (begin_drop order b) w others"
  by (rule inv_same) (auto simp: begin_drop_def lock_inv_def sizes_ok_def)

lemma drop_begins_inv:
  assumes s: "careful_interleaving capacity timeout s" "only_sweeper s"
    and order: "fset (fmdom (bs_handles (sy_broker s))) \<subseteq> set order"
  shows "drop_inv {(job, handle). \<exists>a \<in> set (sy_worker s). started_handle a = Some (job, handle)}
    (drop_begins order s)" (is "drop_inv ?W _")
proof -
  let ?b = "begin_drop order (sy_broker s)"
  have all: "all_cancelled ?b" by (rule begin_drop_cancels [OF order])
  have bal: "balanced s" by (rule careful_balanced [OF s(1)])
  have "doomed ?W (ab_signals ?b) a" if a: "a \<in> set (sy_worker s)" for a
  proof -
    have "id_ok (sy_broker s) a" using bal a by (simp add: balanced_def list_all_iff)
    moreover have "is_cancelled (ab_signals ?b) handle" if "fmlookup (bs_handles (sy_broker s)) i = Some handle" for i handle
      using all that by (auto simp: all_cancelled_def begin_drop_def)
    moreover have "(job, handle) \<in> ?W" if "started_handle a = Some (job, handle)" for job handle
      using a that by blast
    ultimately show ?thesis
      by (cases a) (simp_all only: doomed.simps id_ok.simps started_handle_def guest_handle_def action.case)
  qed
  then have "list_all (doomed ?W (ab_signals ?b)) (sy_worker s)" by (simp only: list_all_iff) blast
  then show ?thesis
    using all s(2) begin_drop_inv [OF interleaving_inv [OF careful_interleaved [OF s(1)]], of order]
    by (simp add: drop_inv_def drop_begins_def only_sweeper_def)
qed


text \<open>At rest, the registered ids are those of the parked sessions.\<close>

lemma resting_ids:
  assumes "careful_interleaving capacity timeout s" "at_rest s"
  shows "fmdom (bs_handles (sy_broker s)) = fmdom (bs_pending (sy_broker s))"
proof -
  have "mset_set (fset (fmdom (bs_pending (sy_broker s)))) = mset_set (fset (fmdom (bs_handles (sy_broker s))))"
    using careful_balanced [OF assms(1)] assms(2)
    by (simp add: at_rest_def balanced_def accounts_def stored_ids_def thread_ids_def registered_def)
  then have "fset (fmdom (bs_pending (sy_broker s))) = fset (fmdom (bs_handles (sy_broker s)))"
    by (metis finite_fset finite_set_mset_mset_set)
  then show ?thesis by (simp add: fset_inject)
qed

text \<open>A session that is still parked then has been asked for, and nothing else was sent.\<close>

lemma resting_parked:
  assumes "careful_interleaving capacity timeout s" "at_rest s"
    and "fmlookup (bs_pending (sy_broker s)) i = Some p"
  shows "channel_of (pj_job p) < ab_next_channel (sy_broker s)" "ab_open (sy_broker s) (channel_of (pj_job p))"
    "\<exists>reason. ab_sent (sy_broker s) (channel_of (pj_job p)) = [pending_message (job_sink (pj_job p)) reason]"
proof -
  let ?c = "channel_of (pj_job p)"
  note inv = interleaving_inv [OF careful_interleaved [OF assms(1)]]
  have "?c \<in># claims (sy_broker s) (sy_worker s) (sy_others s)"
    by (simp add: claims_def parked_claims_take [OF assms(3)])
  then show chan_c: "?c < ab_next_channel (sy_broker s)" using inv by (simp add: lock_inv_def holders_ok_def)
  then show open_c: "ab_open (sy_broker s) ?c" using careful_balanced [OF assms(1)] chan_c by (simp add: balanced_def accounts_def)
  have "job_waiting (sy_broker s) [] (pj_job p)"
    using inv assms(2,3) by (auto simp: lock_inv_def items_ok_def at_rest_def)
  then show "\<exists>reason. ab_sent (sy_broker s) ?c = [pending_message (job_sink (pj_job p)) reason]"
    using open_c by (auto simp: job_waiting_def heard_def notice_on_def notice_def channel_of_def Let_def)
qed

section \<open>Properties\<close>

text \<open>
  C9. The broker comes to rest, also when it is dropped: from any interleaving, with or
  without the drop's cancellation of every handle, no schedule of the threads without further
  calls goes on forever (given backends whose readers end), and where none can go on the
  worker is idle, no operation or sweep is in progress and the queue is empty; so the joins
  of the drop return.
\<close>

theorem broker_comes_to_rest:
  assumes "interleaving capacity timeout s" and "s0 = s \<or> s0 = drop_begins order s"
  shows "Wellfounded.accp quiet_step\<inverse>\<inverse> s0
    \<and> (\<forall>t. quiet_step\<^sup>*\<^sup>* s0 t \<and> (\<nexists>u. quiet_step t u) \<longrightarrow> at_rest t)"
proof -
  have "lock_inv {#} (sy_broker s0) (sy_worker s0) (sy_others s0)"
    using interleaving_inv [OF assms(1)] begin_drop_inv assms(2) by (auto simp: drop_begins_def)
  then show ?thesis using quiet_ends stuck_at_rest by blast
qed

theorem broker_comes_to_rest_witness:
  "Wellfounded.accp quiet_step\<inverse>\<inverse> (drop_begins [7] (system_of example_submitted [] {#}))"
  using broker_comes_to_rest [OF reachable_interleaving [OF example_reachable(2)], of _ "[7]"] by blast

text \<open>
  Nothing is left but what waits for approval: when a careful schedule has come to rest,
  the ids still registered are exactly those of the parked sessions, and every other
  session has given its id back.
\<close>

theorem rest_leaves_parked:
  assumes "careful_interleaving capacity timeout s" and "\<nexists>t. quiet_step s t"
  shows "fmdom (bs_handles (sy_broker s)) = fmdom (bs_pending (sy_broker s))
    \<and> ab_queue (sy_broker s) = [] \<and> sy_worker s = [] \<and> sy_others s = {#}"
proof -
  have "at_rest s" by (rule stuck_at_rest [OF assms(2)])
  then show ?thesis using resting_ids [OF assms(1)] by (simp add: at_rest_def)
qed

theorem rest_leaves_parked_witness:
  "fmdom (bs_handles example_start) = fmdom (bs_pending example_start)"
proof -
  have "\<nexists>t. quiet_step (system_of example_start [] {#}) t"
    by (auto elim!: quiet_step.cases simp: system_of_def example_start_fields)
  from rest_leaves_parked [OF example_start_careful this] show ?thesis by (simp add: system_of_def)
qed

text \<open>
  C11. No guest starts once the drop has cancelled the registered handles: whatever the worker
  and the sweeper do after it, a guest that runs is of a session that was already started
  when the drop began, and its own signal is raised.
\<close>

theorem no_guest_starts_after_drop:
  assumes "careful_interleaving capacity timeout s" and "only_sweeper s"
    and "fset (fmdom (bs_handles (sy_broker s))) \<subseteq> set order"
    and "quiet_step\<^sup>*\<^sup>* (drop_begins order s) t"
    and "a \<in> set (sy_worker t)" and "guest_handle a = Some (job, handle)"
  shows "is_cancelled (ab_signals (sy_broker t)) handle
    \<and> (\<exists>a0 \<in> set (sy_worker s). started_handle a0 = Some (job, handle))"
proof -
  let ?W = "{(job, handle). \<exists>a \<in> set (sy_worker s). started_handle a = Some (job, handle)}"
  have "drop_inv ?W t"
    using assms(4) drop_begins_inv [OF assms(1-3)] by (induction rule: rtranclp_induct) (auto intro: drop_step)
  then have "doomed ?W (ab_signals (sy_broker t)) a"
    using assms(5) by (auto simp: drop_inv_def list_all_iff)
  then show ?thesis using assms(6) by (cases a) (auto simp: guest_handle_def)
qed

theorem no_guest_starts_after_drop_witness:
  "is_cancelled (ab_signals (begin_drop [7] (example_submitted\<lparr>ab_queue := []\<rparr>))) (CancelHandle 0)"
proof -
  obtain job where job: "careful_interleaving 2 100
      (system_of (example_submitted\<lparr>ab_queue := []\<rparr>) [Guest job (CancelHandle 0) AutoApproved] {#})"
    by (rule example_running)
  have "cr_id example_request = 7" by (simp add: example_request_def)
  then have order: "fset (fmdom (bs_handles (sy_broker (system_of (example_submitted\<lparr>ab_queue := []\<rparr>)
      [Guest job (CancelHandle 0) AutoApproved] {#})))) \<subseteq> set [7]"
    by (simp add: system_of_def example_submitted_def submit_def submit_job_eq example_valid
        example_start_fields Let_def fcard.rep_eq)
  have only: "only_sweeper (system_of (example_submitted\<lparr>ab_queue := []\<rparr>)
      [Guest job (CancelHandle 0) AutoApproved] {#})" by (simp add: only_sweeper_def system_of_def)
  show ?thesis
    using no_guest_starts_after_drop [OF job only order rtranclp.rtrancl_refl,
        of "Guest job (CancelHandle 0) AutoApproved" job "CancelHandle 0"]
    by (simp add: system_of_def drop_begins_def guest_handle_def)
qed

end
