(* ===== verification/Lock_Answers.thy ===== *)
theory Lock_Answers
  imports Quiescence
begin

text \<open>
  No session is lost, and each is on record.  From its place in the queue on, a session of a
  careful schedule is always somewhere: in the queue, in the pending map or in the hands of
  a thread; it leaves only by an end on its channel, and the thread that sends it writes the
  audit entry of the same session and the same end next.  So when the broker has come to
  rest, the session has ended and was recorded, or it is parked, its caller asked.
\<close>

section \<open>What the audit trail says of a session\<close>

definition risky :: "command_request \<Rightarrow> bool" where
  "risky r = (classify_risk r \<noteq> AutoApprove)"

text \<open>How a session was admitted, by the risk of its request and by the way it ended.\<close>

fun decision_fits :: "command_request \<Rightarrow> approval_decision \<Rightarrow> audit_outcome \<Rightarrow> bool" where
  "decision_fits r AutoApproved out = (\<not> risky r)"
| "decision_fits r Approved out = risky r"
| "decision_fits r DecisionDenied out = (risky r \<and> out = AuditDenied)"
| "decision_fits r TimedOut out = (risky r \<and> out = AuditDenied)"
| "decision_fits r DecisionCancelled out = (risky r \<and> out = AuditCancelled)"

text \<open>
  The entry of a request whose channel ended with the message \<open>m\<close>. Only a panic is recorded
  as a failure and told as a denial.
\<close>

definition records :: "command_request \<Rightarrow> message \<Rightarrow> audit_entry \<Rightarrow> bool" where
  "records r m e \<longleftrightarrow> ae_id e = cr_id r \<and> ae_actor e = cr_actor r \<and> ae_program e = cr_program r
     \<and> decision_fits r (ae_decision e) (ae_outcome e) \<and> ends_session m
     \<and> (terminal_audit m = Some (ae_outcome e)
        \<or> ae_outcome e = AuditFailed \<and> (\<exists>sink. m = terminal_message sink
            (TermDeniedWith (InvalidTransition ''worker panic while executing session''))))"

lemma records_entry:
  "job_request job = r \<Longrightarrow> records r m (job_entry (cr_id r) job d out) \<longleftrightarrow>
     decision_fits r d out \<and> ends_session m \<and> (terminal_audit m = Some out
        \<or> out = AuditFailed \<and> (\<exists>sink. m = terminal_message sink
            (TermDeniedWith (InvalidTransition ''worker panic while executing session''))))"
  by (auto simp: records_def job_entry_def)

lemma terminal_message_audit [simp]:
  "terminal_audit (terminal_message sink TermCancelled) = Some AuditCancelled"
  "terminal_audit (terminal_message sink TermDenied) = Some AuditDenied"
  "terminal_audit (terminal_message sink (TermDeniedWith e)) = Some AuditDenied"
  by (cases sink; simp add: terminal_message_def)+

section \<open>Who holds the session\<close>

text \<open>The session of the request \<open>r\<close> that reports on the channel \<open>c\<close>, before its end.\<close>

definition session_of :: "nat \<Rightarrow> command_request \<Rightarrow> 'c job \<Rightarrow> bool" where
  "session_of c r job \<longleftrightarrow> channel_of job = c \<and> job_request job = r
     \<and> (job_admission job = AutoApproved \<or> job_admission job = Approved \<and> risky r)"

definition admitted :: "nat \<Rightarrow> command_request \<Rightarrow> 'c job \<Rightarrow> approval_decision \<Rightarrow> bool" where
  "admitted c r job d \<longleftrightarrow> session_of c r job \<and> d = job_admission job \<and> (d = AutoApproved \<longrightarrow> \<not> risky r)"

fun carries :: "nat \<Rightarrow> command_request \<Rightarrow> 'c action \<Rightarrow> bool" where
  "carries c r (Push _ job _) = session_of c r job"
| "carries c r (ApproveLook i job) = (session_of c r job \<and> risky r \<and> i = cr_id r)"
| "carries c r (Look job) = session_of c r job"
| "carries c r (Start job _ d) = admitted c r job d"
| "carries c r (Announce _ job _ d) = admitted c r job d"
| "carries c r (Guest job _ d) = admitted c r job d"
| "carries c r (Forward _ job _ d _) = admitted c r job d"
| "carries c r (Park job _) = (session_of c r job \<and> risky r)"
| "carries c r _ = False"

definition stored :: "nat \<Rightarrow> command_request \<Rightarrow> ('c, 'z) action_broker_scheme \<Rightarrow> bool" where
  "stored c r b = ((\<exists>job \<in> set (ab_queue b). session_of c r job)
     \<or> (\<exists>p. fmlookup (bs_pending b) (cr_id r) = Some p \<and> session_of c r (pj_job p) \<and> risky r))"

definition told :: "nat \<Rightarrow> command_request \<Rightarrow> audit_entry \<Rightarrow> ('c, 'z) action_broker_scheme \<Rightarrow> bool" where
  "told c r e b = (\<exists>m \<in> set (ab_sent b c). records r m e)"

text \<open>A thread that reports the end: the message is left to send, or it was sent.\<close>

definition reporting :: "nat \<Rightarrow> command_request \<Rightarrow> ('c, 'z) action_broker_scheme \<Rightarrow> 'c action list \<Rightarrow> bool" where
  "reporting c r b p \<longleftrightarrow>
     (\<exists>ms e q. p = Tell c ms # Record e # q \<and> (if ms = [] then told c r e b else records r (last ms) e))
   \<or> (\<exists>e q. p = Record e # q \<and> told c r e b)"

definition held :: "nat \<Rightarrow> command_request \<Rightarrow> ('c, 'z) action_broker_scheme \<Rightarrow> 'c action list \<Rightarrow> bool" where
  "held c r b p = (list_ex (carries c r) p \<or> reporting c r b p)"

text \<open>What an operation does for the session; it takes no message back.\<close>

definition step_keeps ::
    "nat \<Rightarrow> command_request \<Rightarrow> ('c, 'z) action_broker_scheme \<Rightarrow> bool
       \<Rightarrow> 'c action list \<times> ('c, 'z) action_broker_scheme \<Rightarrow> bool" where
  "step_keeps c r b carried s \<longleftrightarrow>
     (stored c r b \<or> carried \<longrightarrow> stored c r (snd s) \<or> held c r (snd s) (fst s))
   \<and> set (ab_sent b c) \<subseteq> set (ab_sent (snd s) c)"

lemma stored_same:
  "ab_queue b' = ab_queue b \<Longrightarrow> bs_pending b' = bs_pending b \<Longrightarrow> stored c r b' = stored c r b"
  by (simp add: stored_def)

lemma told_more: "told c r e b \<Longrightarrow> set (ab_sent b c) \<subseteq> set (ab_sent b' c) \<Longrightarrow> told c r e b'"
  by (auto simp: told_def)

lemma reporting_more:
  "reporting c r b p \<Longrightarrow> set (ab_sent b c) \<subseteq> set (ab_sent b' c) \<Longrightarrow> reporting c r b' p"
  by (force simp: reporting_def intro: told_more split: if_splits)

lemma reporting_append: "reporting c r b p \<Longrightarrow> reporting c r b (p @ q)"
  by (force simp: reporting_def split: if_splits)

lemma held_more: "held c r b p \<Longrightarrow> set (ab_sent b c) \<subseteq> set (ab_sent b' c) \<Longrightarrow> held c r b' p"
  by (auto simp: held_def intro: reporting_more)

lemma held_append: "held c r b p \<or> list_ex (carries c r) q \<Longrightarrow> held c r b (p @ q)"
  by (auto simp: held_def reporting_append)

lemma step_keeps_same:
  assumes "ab_queue b' = ab_queue b" "bs_pending b' = bs_pending b" "set (ab_sent b c) \<subseteq> set (ab_sent b' c)"
    and "carried \<Longrightarrow> held c r b' next"
  shows "step_keeps c r b carried (next, b')"
  using assms stored_same [of b' b c r] by (auto simp: step_keeps_def)

text \<open>The three ways in which a thread ends a session report it.\<close>

lemma ending_held:
  assumes "session_of c r job"
  shows "decision_fits r d out \<and> terminal_audit (terminal_message (job_sink job) t) = Some out \<Longrightarrow>
      held c r b (closing (cr_id r) job t d out @ q)"
    "decision_fits r (job_admission job) AuditFailed \<Longrightarrow> held c r b (barrier job ms)"
    "decision_fits r d out \<and> ms \<noteq> [] \<and> ends_session (last ms) \<and> terminal_audit (last ms) = Some out \<Longrightarrow>
      held c r b (finishing job d ms out)"
  using assms
  by (auto simp: held_def reporting_def closing_def barrier_def finishing_def Let_def session_of_def channel_of_def
      records_entry terminal_message_ends)

section \<open>The callers and the sweeper\<close>

lemma take_keeps:
  assumes "take_pending i b = (found, b')"
  shows "stored c r b \<longrightarrow> stored c r b' \<or> i = cr_id r \<and> (\<exists>job. found = Some job \<and> session_of c r job \<and> risky r)"
    "ab_sent b' = ab_sent b"
  using assms by (auto simp: take_pending_def stored_def split: if_splits)

lemma parked_keeps:
  "step_keeps c r b False (deny_take i b)" "step_keeps c r b False (cancel_take i b)"
  "step_keeps c r b False (expire_take i b)" "step_keeps c r b False (approve_take i b)"
proof -
  obtain found b' where t: "take_pending i b = (found, b')" by fastforce
  note keeps = take_keeps(1) [OF t, of c r] take_keeps(2) [OF t]
  have closed: "held c r b' (closing (cr_id r) job t d out @ q)"
    if "session_of c r job" "decision_fits r d out" "terminal_audit (terminal_message (job_sink job) t) = Some out"
    for job t d out q
    using ending_held(1) [OF that(1)] that(2,3) by blast
  show "step_keeps c r b False (deny_take i b)" "step_keeps c r b False (cancel_take i b)"
    "step_keeps c r b False (approve_take i b)"
    unfolding deny_take_def cancel_take_def approve_take_def t
    using keeps by (cases found; auto simp: step_keeps_def held_def [of _ _ _ "[ApproveLook _ _]"] intro!: closed)+
  show "step_keeps c r b False (expire_take i b)"
    unfolding expire_take_def t using keeps closed [where q = "[]"]
    by (cases found) (auto simp: step_keeps_def)
qed

lemma submit_keeps:
  assumes "c < ab_next_channel b"
  shows "step_keeps c r b False (submit_act sink component r' b)"
proof -
  obtain d b1 where new: "channel_new b = (d, b1)" by fastforce
  then have "ab_queue b1 = ab_queue b" "bs_pending b1 = bs_pending b" "ab_sent b1 c = ab_sent b c"
    using assms by (auto simp: channel_new_def)
  then show ?thesis
    using new by (auto simp: submit_act_def intro!: step_keeps_same split: sum.split)
qed

lemma push_keeps:
  assumes "ab_worker_up b"
  shows "step_keeps c r b (session_of c r job) (push_act i job reply b)"
  using assms by (auto simp: push_act_def step_keeps_def stored_def)

lemma approve_look_keeps:
  "step_keeps c r b (carries c r (ApproveLook i job)) (approve_look i job b)"
proof -
  have "session_of c r (job\<lparr>job_admission := Approved\<rparr>)" if "session_of c r job" "risky r"
    using that by (simp add: session_of_def channel_of_def)
  then show ?thesis using ending_held(1) [of c r job DecisionCancelled AuditCancelled TermCancelled b]
    by (auto simp: approve_look_def held_def [of _ _ _ "[Push _ _ _]"] intro!: step_keeps_same)
qed

section \<open>The worker\<close>

lemma admitted_fits:
  assumes "admitted c r job d"
  shows "session_of c r job" "d = job_admission job" "decision_fits r d out"
  using assms by (auto simp: admitted_def session_of_def)

lemma admitted_frame:
  "channel_of job' = channel_of job \<Longrightarrow> job_request job' = job_request job \<Longrightarrow>
     job_admission job' = job_admission job \<Longrightarrow> admitted c r job' d = admitted c r job d"
  by (simp add: admitted_def session_of_def)

lemma audited_ends:
  "audit_of outcome = Returned audit \<Longrightarrow>
     ends_session (Outcome outcome) \<and> terminal_audit (Outcome outcome) = Some audit"
  by (cases outcome) (simp_all add: ends_session_def audit_of_def)

lemma capture_admitted:
  "capture_result result job = (outcome, job1) \<Longrightarrow> admitted c r job1 d = admitted c r job d"
  by (rule admitted_frame) (auto simp: channel_of_def dest: capture_result_frame)

lemma stream_admitted:
  "stream_result result job = (e, audit, job1) \<Longrightarrow> admitted c r job1 d = admitted c r job d
     \<and> ends_session (Event e) \<and> terminal_audit (Event e) = Some audit"
  using stream_result_frame [of result job e audit job1] admitted_frame [of job1 job c r d]
  by (auto simp: channel_of_def ends_session_def stream_result_def split: sum.splits runtime_error.splits)

text \<open>A worker that finds no handle says so and writes no entry; here it always finds one.\<close>

lemma look_keeps:
  assumes "job_id job |\<in>| fmdom (bs_handles b)"
  shows "step_keeps c r b (session_of c r job) (look_act job b)"
proof -
  obtain handle where "fmlookup (bs_handles b) (cr_id (job_request job)) = Some handle"
    using assms by (auto simp: job_id_def fmlookup_dom_iff)
  then show ?thesis
    by (auto simp: look_act_def held_def admitted_def session_of_def risky_def intro!: step_keeps_same
        split: option.split risk.split)
qed

lemma start_keeps: "step_keeps c r b (admitted c r job d) (start_act job handle d b)"
proof -
  have ended: "held c r b (finishing job' d [terminal_message sink t] out)"
    if "admitted c r job d" "channel_of job' = channel_of job" "job_request job' = job_request job"
      "job_admission job' = job_admission job" "terminal_audit (terminal_message sink t) = Some out"
    for job' sink t out
    using that ending_held(3) [of c r job' d out "[terminal_message sink t]" b]
      admitted_fits(1,2) [of c r job' d] admitted_fits(3) [of c r job' d out] admitted_frame [of job' job c r d]
    by (simp add: terminal_message_ends)
  show ?thesis
    by (auto simp: start_act_def held_def [of _ _ _ "[Guest _ _ _]"] held_def [of _ _ _ "[Announce _ _ _ _]"]
        channel_of_def admitted_frame [of "job\<lparr>job_session := _\<rparr>" job] intro!: step_keeps_same ended
        split: prod.split sum.split job_sink.split)
qed

lemma guest_keeps: "step_keeps c r b (admitted c r job d) (guest_act be job handle d b)"
proof -
  have panicked: "held c r b (barrier job ms)" if "admitted c r job d" for ms
    using ending_held(2) admitted_fits(1,2) admitted_fits(3) [OF that, of AuditFailed] that by metis
  have ended: "held c r b (finishing job1 d [Outcome outcome] audit)"
    if "admitted c r job d" "capture_result result job = (outcome, job1)" "audit_of outcome = Returned audit"
    for result outcome job1 audit
    using ending_held(3) [of c r job1 d audit "[Outcome outcome]" b] audited_ends [OF that(3)]
      admitted_fits(1,2) [of c r job1 d] admitted_fits(3) [of c r job1 d audit] capture_admitted [OF that(2)] that(1) by simp
  show ?thesis
    by (auto simp: guest_act_def held_def [of _ _ _ "[Guest _ _ _]"] held_def [of _ _ _ "[Forward _ _ _ _ _]"]
        intro!: step_keeps_same panicked ended split: prod.split option.split job_sink.split call.split)
qed

lemma forward_keeps: "step_keeps c r b (admitted c r job d) (forward_act ms job handle d result b)"
proof (cases ms)
  case Nil
  have ended: "held c r b (finishing job1 d [Event e] audit)"
    if "admitted c r job d" "stream_result r' job = (e, audit, job1)" for r' e audit job1
    using ending_held(3) [of c r job1 d audit "[Event e]" b] admitted_fits(1,2) [of c r job1 d] admitted_fits(3) [of c r job1 d audit]
      stream_admitted [OF that(2), of c r d] that(1) by simp
  show ?thesis using Nil
    by (auto simp: forward_act_def held_def [of _ _ _ "[Forward _ _ _ _ _]"] intro!: step_keeps_same ended
        split: prod.split option.split)
next
  case (Cons m ms')
  then show ?thesis by (auto simp: forward_act_def held_def chan.send_sent intro!: step_keeps_same)
qed

lemma park_keeps:
  assumes "job_id job |\<notin>| fmdom (bs_pending b)"
  shows "step_keeps c r b (session_of c r job \<and> risky r) (park_act now job reason b)"
  using assms
  by (auto simp: park_act_def step_keeps_def stored_def session_of_def channel_of_def job_id_def Let_def fmdom_notD)

lemma notify_keeps:
  assumes "ab_open b (sink_channel sink)"
  shows "step_keeps c r b False (notify_act i sink reason b)"
  using assms by (auto simp: notify_act_def channel_send_def intro!: step_keeps_same)

text \<open>Every action but the two that report an end.\<close>

lemma act_keeps:
  assumes c: "c < ab_next_channel b" and up: "ab_worker_up b" and a: "id_ok b a"
    and report: "\<forall>d ms. a \<noteq> Tell d ms" "\<forall>e. a \<noteq> Record e"
    and look: "\<And>job. a = Look job \<Longrightarrow> job_id job |\<in>| fmdom (bs_handles b)"
    and park: "\<And>job reason. a = Park job reason \<Longrightarrow> job_id job |\<notin>| fmdom (bs_pending b)"
    and notice: "\<And>i sink reason. a = Notify i sink reason \<Longrightarrow> ab_open b (sink_channel sink)"
  shows "step_keeps c r b (carries c r a) (act be now a b)"
proof (cases a)
  case (Enqueue job)
  then show ?thesis by (auto simp: enqueue_act_def Let_def intro!: step_keeps_same split: prod.split)
next
  case (ApproveLook i job)
  then show ?thesis using approve_look_keeps by simp
next
  case (SweepList order time)
  then show ?thesis by (simp add: sweep_list_def step_keeps_same)
next
  case (HangUp d)
  then show ?thesis by (simp add: hang_up_def step_keeps_same)
next
  case (Announce d job handle approval)
  then show ?thesis by (auto simp: held_def chan.send_sent intro!: step_keeps_same)
next
  case (CancelLook i)
  then show ?thesis by (simp add: cancel_look_def step_keeps_same split: option.split)
qed (use assms in \<open>simp_all add: submit_keeps parked_keeps push_keeps look_keeps start_keeps guest_keeps
    forward_keeps park_keeps notify_keeps step_keeps_same release_def\<close>)

section \<open>The threads\<close>

text \<open>What an action needs of the broker, in any system that is in balance.\<close>

definition ready :: "nat \<Rightarrow> 'c monitored \<Rightarrow> bool" where
  "ready c b \<longleftrightarrow> c < ab_next_channel b \<and> ab_worker_up b \<and> (\<forall>d < ab_next_channel b. ab_open b d)"

text \<open>The entry of a session whose end was told before is written.\<close>

definition written :: "nat \<Rightarrow> command_request \<Rightarrow> ('c, 'z) action_broker_scheme \<Rightarrow> ('c, 'z) action_broker_scheme \<Rightarrow> bool" where
  "written c r b b' \<longleftrightarrow> (\<exists>e. told c r e b
     \<and> bs_audit b' = last_n DEFAULT_MAX_AUDIT_ENTRIES (bs_audit b @ [e]))"

definition thread_keeps ::
    "nat \<Rightarrow> command_request \<Rightarrow> 'c action list \<Rightarrow> 'c monitored \<Rightarrow> 'c action list \<times> 'c monitored \<Rightarrow> bool" where
  "thread_keeps c r p b s \<longleftrightarrow>
     (stored c r b \<or> held c r b p \<longrightarrow> stored c r (snd s) \<or> held c r (snd s) (fst s) \<or> written c r b (snd s))
   \<and> set (ab_sent b c) \<subseteq> set (ab_sent (snd s) c)"

lemma note_same:
  "stored c r (note_action a b) = stored c r b" "ab_sent (note_action a b) = ab_sent b"
  "ready c (note_action a b) = ready c b" "bs_pending (note_action a b) = bs_pending b"
  "bs_handles (note_action a b) = bs_handles b" "ab_next_channel (note_action a b) = ab_next_channel b"
  by (simp_all add: stored_def ready_def note_action_def note_approval_def
      split: action.split option.split)

lemma tell_keeps:
  assumes b: "ready c b" and b': "b' = snd (channel_send d m b)"
  shows "thread_keeps c r (Tell d (m # ms) # rest) b (Tell d ms # rest, b')"
proof -
  have sent: "ab_sent b' c = (if d = c then ab_sent b c @ [m] else ab_sent b c)" and
    same: "stored c r b' = stored c r b" "set (ab_sent b c) \<subseteq> set (ab_sent b' c)"
    using b by (auto simp: b' ready_def chan.send_sent intro!: stored_same)
  have "told c r e b'" if "records r m e" "d = c" for e
    using that sent by (auto simp: told_def)
  then have "reporting c r b' (Tell d ms # rest)" if "reporting c r b (Tell d (m # ms) # rest)"
    using that by (auto simp: reporting_def)
  then show ?thesis using same by (auto simp: thread_keeps_def held_def)
qed

lemma record_keeps: "thread_keeps c r (Record e # rest) b (rest, audit_record e b)"
proof -
  have "stored c r (audit_record e b) = stored c r b" by (intro stored_same) (simp_all add: audit_record_eq)
  moreover have "written c r b (audit_record e b)" if "told c r e b"
    using that by (auto simp: written_def audit_record_eq)
  moreover have "ab_sent (audit_record e b) = ab_sent b" by (simp add: audit_record_eq)
  ultimately show ?thesis by (auto simp: thread_keeps_def held_def reporting_def)
qed

lemma told_keeps: "thread_keeps c r (Tell d [] # rest) b (rest, b)"
  by (auto simp: thread_keeps_def held_def reporting_def)

lemma thread_step_keeps:
  assumes step: "thread_step be now (a # rest, b) = s" and b: "ready c b" and a: "id_ok b a"
    and look: "\<And>job. a = Look job \<Longrightarrow> job_id job |\<in>| fmdom (bs_handles b)"
    and park: "\<And>job reason. a = Park job reason \<Longrightarrow> job_id job |\<notin>| fmdom (bs_pending b)"
    and notice: "\<And>i sink reason. a = Notify i sink reason \<Longrightarrow> sink_channel sink < ab_next_channel b"
  shows "thread_keeps c r (a # rest) b s"
proof (cases "(\<exists>d ms. a = Tell d ms) \<or> (\<exists>e. a = Record e)")
  case True
  then consider d where "a = Tell d []" | d m ms where "a = Tell d (m # ms)" | e where "a = Record e"
    by (metis neq_Nil_conv)
  then show ?thesis
    using step tell_keeps [OF b refl] told_keeps record_keeps
    by cases (auto simp: thread_step_def note_action_def)
next
  case False
  let ?b = "note_action a b"
  obtain "next" b' where act: "act be now a ?b = (next, b')" and s: "s = (next @ rest, b')"
    using step by (auto simp: thread_step_def split: prod.splits)
  have open_all: "\<forall>d < ab_next_channel b. ab_open ?b d" "ab_worker_up ?b" "c < ab_next_channel b"
    using b note_same(3) [of c a b] by (simp_all add: ready_def note_same)
  have "step_keeps c r ?b (carries c r a) (act be now a ?b)"
    by (rule act_keeps) (use False a look park notice open_all in \<open>simp_all add: note_same note_accounts\<close>)
  moreover have "\<not> reporting c r b (a # rest)" using False by (auto simp: reporting_def)
  ultimately show ?thesis
    using held_append [of c r b' "next" rest]
    by (auto simp: step_keeps_def thread_keeps_def act s note_same held_def [of c r b "a # rest"])
qed

section \<open>The system\<close>

definition tracked :: "nat \<Rightarrow> command_request \<Rightarrow> 'c system \<Rightarrow> bool" where
  "tracked c r s \<longleftrightarrow> stored c r (sy_broker s)
     \<or> (\<exists>p \<in># sy_others s. held c r (sy_broker s) p) \<or> held c r (sy_broker s) (sy_worker s)"

definition system_keeps :: "nat \<Rightarrow> command_request \<Rightarrow> 'c system \<Rightarrow> 'c system \<Rightarrow> bool" where
  "system_keeps c r s s' \<longleftrightarrow>
     (tracked c r s \<longrightarrow> tracked c r s' \<or> written c r (sy_broker s) (sy_broker s'))
   \<and> set (ab_sent (sy_broker s) c) \<subseteq> set (ab_sent (sy_broker s') c)"

lemma other_keeps:
  assumes "sy_others s = add_mset p others" "thread_keeps c r p (sy_broker s) (p', b)"
  shows "system_keeps c r s (s\<lparr>sy_broker := b, sy_others := add_mset p' others\<rparr>)"
proof -
  have sent: "set (ab_sent (sy_broker s) c) \<subseteq> set (ab_sent b c)" using assms(2) by (simp add: thread_keeps_def)
  note more = held_more [OF _ sent, of r]
  show ?thesis using assms more sent unfolding system_keeps_def tracked_def thread_keeps_def by auto
qed

lemma worker_keeps:
  assumes "thread_keeps c r (sy_worker s) (sy_broker s) (p, b)"
  shows "system_keeps c r s (s\<lparr>sy_broker := b, sy_worker := p\<rparr>)"
proof -
  have sent: "set (ab_sent (sy_broker s) c) \<subseteq> set (ab_sent b c)" using assms by (simp add: thread_keeps_def)
  note more = held_more [OF _ sent, of r]
  show ?thesis using assms more sent unfolding system_keeps_def tracked_def thread_keeps_def by auto
qed

lemma careful_step_keeps:
  assumes "careful_step s s'" "balanced s" "lock_inv {#} (sy_broker s) (sy_worker s) (sy_others s)"
    and "ready c (sy_broker s)"
  shows "system_keeps c r s s'"
  using assms
proof (induction rule: careful_step.induct)
  case (careful_call s op)
  then show ?case by (auto simp: system_keeps_def tracked_def)
next
  case (careful_other s a rest others be now p b)
  have a: "id_ok (sy_broker s) a" "other_ok (sy_broker s) (sy_worker s) a"
    using careful_other by (simp_all add: balanced_def lock_inv_def items_ok_def)
  have "thread_keeps c r (a # rest) (sy_broker s) (p, b)"
    by (rule thread_step_keeps [OF careful_other(3,6) a(1)]) (use a(2) in auto)
  then show ?case by (rule other_keeps [OF careful_other(1)])
next
  case (careful_exit s others)
  then show ?case by (auto simp: system_keeps_def tracked_def held_def reporting_def)
next
  case (careful_receive s job queue)
  have "held c r ((sy_broker s)\<lparr>ab_queue := queue\<rparr>) p = held c r (sy_broker s) p" for p
    by (simp add: held_def reporting_def told_def)
  moreover have "held c r b [Look job] = session_of c r job" "\<not> held c r b []" for b :: "'a monitored"
    by (simp_all add: held_def reporting_def)
  ultimately show ?case using careful_receive(1,2)
    by (auto simp: system_keeps_def tracked_def stored_def)
next
  case (careful_worker s be now p b)
  obtain a rest where w: "sy_worker s = a # rest" using careful_worker(1) by (cases "sy_worker s") auto
  have a: "id_ok (sy_broker s) a" "a \<in> set (sy_worker s)" using careful_worker w by (simp_all add: balanced_def)
  have "thread_keeps c r (a # rest) (sy_broker s) (p, b)"
  proof (rule thread_step_keeps [OF careful_worker(3) [unfolded w] careful_worker(6) a(1)])
    show "job_id job |\<in>| fmdom (bs_handles (sy_broker s))" if "a = Look job" for job
      using held_registered [OF careful_worker(4) a(2)] that by simp
    show "job_id job |\<notin>| fmdom (bs_pending (sy_broker s))" if "a = Park job reason" for job reason
      using held_not_parked [OF careful_worker(4) a(2)] that by simp
    show "sink_channel sink < ab_next_channel (sy_broker s)" if "a = Notify i sink reason" for i sink reason
      using careful_worker(5) w that by (auto simp: lock_inv_def notice_ok_def notice_def Let_def)
  qed
  then show ?case by (intro worker_keeps) (simp add: w)
qed

lemma careful_ready:
  assumes "careful_interleaving capacity timeout s" "c < ab_next_channel (sy_broker s)"
  shows "ready c (sy_broker s)"
  using assms careful_balanced [OF assms(1)] interleaving_setup [OF careful_interleaved [OF assms(1)]]
  by (simp add: ready_def balanced_def accounts_def)

text \<open>Along a schedule: the session is still somewhere, or its entry was written at some step.\<close>

definition on_record :: "nat \<Rightarrow> command_request \<Rightarrow> 'c system \<Rightarrow> 'c system \<Rightarrow> bool" where
  "on_record c r s t \<longleftrightarrow> (\<exists>u u' e m. careful_step\<^sup>*\<^sup>* s u \<and> careful_step u u' \<and> careful_step\<^sup>*\<^sup>* u' t
     \<and> bs_audit (sy_broker u') = last_n DEFAULT_MAX_AUDIT_ENTRIES (bs_audit (sy_broker u) @ [e])
     \<and> records r m e \<and> m \<in> set (ab_sent (sy_broker u) c) \<and> m \<in> set (ab_sent (sy_broker t) c))"

lemma tracked_steps:
  assumes "careful_step\<^sup>*\<^sup>* s t" "careful_interleaving capacity timeout s"
    and "c < ab_next_channel (sy_broker s)" "tracked c r s"
  shows "careful_interleaving capacity timeout t \<and> c < ab_next_channel (sy_broker t)
    \<and> (tracked c r t \<or> on_record c r s t)"
  using assms(1)
proof (induction rule: rtranclp_induct)
  case (step t u)
  then have t: "careful_interleaving capacity timeout t" "c < ab_next_channel (sy_broker t)" by simp_all
  have keeps: "system_keeps c r t u"
    using careful_step_keeps [OF step(2) careful_balanced [OF t(1)]
        interleaving_inv [OF careful_interleaved [OF t(1)]] careful_ready [OF t]] .
  have "tracked c r u \<or> on_record c r s u"
  proof (cases "tracked c r t")
    case True
    then consider "tracked c r u" | "written c r (sy_broker t) (sy_broker u)"
      using keeps by (auto simp: system_keeps_def)
    then show ?thesis
    proof cases
      case 2
      then show ?thesis using step(1,2) keeps
        unfolding written_def told_def on_record_def system_keeps_def by blast
    qed simp
  next
    case False
    then have "on_record c r s t" using step(3) by simp
    then show ?thesis using keeps step(2)
      unfolding on_record_def system_keeps_def by (meson rtranclp.rtrancl_into_rtrancl subsetD)
  qed
  moreover have "c < ab_next_channel (sy_broker u)"
    using system_setup [OF careful_step_system [OF step(2)]] t(2) by (simp add: same_setup_def)
  ultimately show ?case using careful_next [OF t(1) step(2)] by simp
qed (use assms in simp)

text \<open>With no operation in progress, the worker's steps are careful and come to rest.\<close>

lemma worker_rests:
  fixes s :: "'c system"
  assumes "careful_interleaving capacity timeout s" "sy_others s = {#}"
  shows "\<exists>t. careful_step\<^sup>*\<^sup>* s t \<and> at_rest t"
proof -
  have "Wellfounded.accp quiet_step\<inverse>\<inverse> s"
    using quiet_ends interleaving_inv [OF careful_interleaved [OF assms(1)]] by blast
  then show ?thesis using assms(2)
  proof (induction s rule: accp.induct)
    case (accI s)
    show ?case
    proof (cases "\<exists>t. quiet_step s t")
      case False
      then show ?thesis using stuck_at_rest by blast
    next
      case True
      then obtain t where t: "quiet_step s t" by blast
      have "careful_step s t \<and> sy_others t = {#}"
        using t accI(3) by (induction rule: quiet_step.induct) (auto intro: careful_step.intros)
      then show ?thesis using accI(2) [of t] t by (auto intro: converse_rtranclp_into_rtranclp)
    qed
  qed
qed

section \<open>Properties\<close>

text \<open>
  C5. No queued session is lost, and each that ends is on record: in a careful schedule,
  however the callers, the sweeper and the worker go on from a state with the session in the
  queue, when the broker has come to rest that session is parked and its caller was asked,
  or its end was sent on its channel and after that an audit entry was written with its id,
  actor and program, with the decision its risk allows, and with the outcome that its
  caller was told (a panic is told as a denial and recorded as a failure).
\<close>

theorem no_session_is_lost:
  assumes "careful_interleaving capacity timeout s" and "job \<in> set (ab_queue (sy_broker s))"
    and "careful_step\<^sup>*\<^sup>* s t" and "at_rest t"
  shows "on_record (channel_of job) (job_request job) s t
    \<or> (\<exists>i p reason. fmlookup (bs_pending (sy_broker t)) i = Some p
         \<and> channel_of (pj_job p) = channel_of job \<and> job_request (pj_job p) = job_request job
         \<and> ab_sent (sy_broker t) (channel_of job) = [pending_message (job_sink (pj_job p)) reason])"
proof -
  let ?c = "channel_of job" and ?r = "job_request job"
  note inv = interleaving_inv [OF careful_interleaved [OF assms(1)]]
  have "?c \<in># claims (sy_broker s) (sy_worker s) (sy_others s)" using assms(2) by (simp add: claims_def)
  then have "?c < ab_next_channel (sy_broker s)" using inv by (simp add: lock_inv_def holders_ok_def)
  moreover have "job_ready (sy_broker s) (sy_worker s) job"
    using inv assms(2) by (simp add: lock_inv_def items_ok_def list_all_iff)
  then have "session_of ?c ?r job"
    by (auto simp: job_ready_def session_of_def risky_def split: approval_decision.splits)
  then have "tracked ?c ?r s" using assms(2) by (auto simp: tracked_def stored_def)
  ultimately have t: "careful_interleaving capacity timeout t" "tracked ?c ?r t \<or> on_record ?c ?r s t"
    using tracked_steps [OF assms(3,1)] by blast+
  have "\<exists>i p. fmlookup (bs_pending (sy_broker t)) i = Some p \<and> session_of ?c ?r (pj_job p)" if "tracked ?c ?r t"
    using that assms(4) by (auto simp: tracked_def at_rest_def stored_def held_def reporting_def)
  then show ?thesis
    using t(2) resting_parked(3) [OF t(1) assms(4)] by (metis session_of_def)
qed

theorem no_session_is_lost_witness:
  "\<exists>t. careful_step\<^sup>*\<^sup>* (system_of example_submitted [] {#}) t \<and> at_rest t
     \<and> (on_record 0 example_request (system_of example_submitted [] {#}) t
        \<or> (\<exists>sink reason. ab_sent (sy_broker t) 0 = [pending_message sink reason]))"
proof -
  let ?s = "system_of example_submitted [] {#}" and ?job = "new_job SinkOutcome () example_request 0"
  obtain t where t: "careful_step\<^sup>*\<^sup>* ?s t" "at_rest t"
    using worker_rests [OF example_careful] by (auto simp: system_of_def)
  have job: "?job \<in> set (ab_queue (sy_broker ?s))"
    by (simp add: system_of_def example_submitted_fields)
  have "channel_of ?job = 0" "job_request ?job = example_request"
    by (simp_all add: channel_of_def new_job_def sink_channel_def)
  then show ?thesis using no_session_is_lost [OF example_careful job t] t by metis
qed

end
