(* ===== verification/Draining.thy ===== *)
theory Draining
  imports Quiescence
begin

text \<open>
  The broker drains.  Once it has come to rest, only parked sessions are left; the next round of
  the sweeper after their deadlines ends each of them, whatever the scheduling of its lock
  sections, and gives every id and with it the whole capacity back.
\<close>

section \<open>One sweep and nothing else\<close>

text \<open>The sweeper starts a round; \<open>order\<close> is the order in which the map lists its entries.\<close>

definition sweep_begins :: "u64 list \<Rightarrow> nat \<Rightarrow> 'c system \<Rightarrow> 'c system" where
  "sweep_begins order now s = s\<lparr>sy_others := add_mset [SweepList order now] (sy_others s)\<rparr>"

text \<open>What the sweeper does depends neither on the backend nor on the time it goes on.\<close>

lemma sweeping_act: "sweeping a \<Longrightarrow> act be now a b = act be' now' a b \<and> note_action a b = b"
  by (cases a) (simp_all add: note_action_def)

lemma sweeping_thread:
  assumes "list_all sweeping p" "thread_step be now (p, b) = (p', b')"
  shows "list_all sweeping p'" "ab_queue b' = ab_queue b" "thread_step be' now' (p, b) = (p', b')"
proof -
  have queue: "ab_queue (snd (act be now a b)) = ab_queue b" if "sweeping a" for a
  proof (cases a)
    case (Tell c ms)
    then show ?thesis by (cases ms) simp_all
  qed (use that in \<open>auto simp: sweep_list_def expire_take_def audit_record_eq release_def
      split: prod.split option.split dest: take_queue_same\<close>)
  show "list_all sweeping p'" "ab_queue b' = ab_queue b" "thread_step be' now' (p, b) = (p', b')"
    using assms queue sweeping_step [where be = be and now = now and b = b]
      sweeping_act [where be = be and now = now and be' = be' and now' = now' and b = b]
    by (cases p; force simp: thread_step_def split: prod.splits)+
qed

lemma runs_next:
  assumes "runs_to be now (a # rest, b) ([], b')"
  shows "runs_to be now (thread_step be now (a # rest, b)) ([], b')"
proof -
  obtain n where n: "(thread_step be now ^^ n) (a # rest, b) = ([], b')"
    using assms by (auto simp: runs_to_def)
  then obtain m where "n = Suc m" by (cases n) auto
  then show ?thesis using n unfolding runs_to_def by (metis comp_apply funpow_Suc_right)
qed

lemma runs_done: "runs_to be now ([], b) ([], b') \<Longrightarrow> b' = b"
proof -
  have "(thread_step be now ^^ n) ([], b) = ([], b)" for n
    by (induction n) (simp_all add: thread_step_def)
  then show "runs_to be now ([], b) ([], b') \<Longrightarrow> b' = b" by (auto simp: runs_to_def)
qed

text \<open>The only thread is the sweeper's, and left to itself it arrives at \<open>b'\<close>.\<close>

definition sweeps_to :: "'c monitored \<Rightarrow> 'c system \<Rightarrow> bool" where
  "sweeps_to b' s \<longleftrightarrow> sy_worker s = [] \<and> ab_queue (sy_broker s) = []
     \<and> (sy_others s = {#} \<and> sy_broker s = b'
        \<or> (\<exists>p. sy_others s = {#p#} \<and> list_all sweeping p
             \<and> runs_to undefined 0 (p, sy_broker s) ([], b')))"

lemma sweeps_step: "quiet_step s s' \<Longrightarrow> sweeps_to b' s \<Longrightarrow> sweeps_to b' s'"
proof (induction rule: quiet_step.induct)
  case (quiet_other s a rest others be now p b)
  then have p: "others = {#}" "list_all sweeping (a # rest)"
    "runs_to undefined 0 (a # rest, sy_broker s) ([], b')" "sy_worker s = []" "ab_queue (sy_broker s) = []"
    by (auto simp: sweeps_to_def add_mset_eq_single)
  note step = sweeping_thread [OF p(2) quiet_other(2)]
  have "runs_to undefined 0 (p, b) ([], b')" using runs_next [OF p(3)] unfolding step(3) .
  then show ?case using p(1,4,5) step(1,2) by (simp add: sweeps_to_def)
next
  case (quiet_exit s others)
  then show ?case using runs_done by (auto simp: sweeps_to_def add_mset_eq_single)
qed (auto simp: sweeps_to_def)

lemma sweep_runs_out:
  assumes "at_rest s" "quiet_step\<^sup>*\<^sup>* (sweep_begins order now s) t" "at_rest t"
  shows "sy_broker t = sweep order now (sy_broker s)"
proof -
  have "sweeps_to (sweep order now (sy_broker s)) (sweep_begins order now s)"
    using assms(1) sweep_runs by (auto simp: sweeps_to_def at_rest_def sweep_begins_def)
  with assms(2) have "sweeps_to (sweep order now (sy_broker s)) t"
    by (induction rule: rtranclp_induct) (auto intro: sweeps_step)
  then show ?thesis using assms(3) by (auto simp: sweeps_to_def at_rest_def)
qed

section \<open>What a sweep tells the callers\<close>

lemma sweep_one_sent:
  assumes "fmlookup (bs_pending b) i = Some p"
  shows "ab_sent (sweep_one i b) c = (if c = channel_of (pj_job p) \<and> ab_open b c
    then ab_sent b c @ [terminal_message (job_sink (pj_job p)) TermDenied] else ab_sent b c)"
  using assms by (auto simp: sweep_one_def channel_of_def)

text \<open>A channel hears of the one session of the list that reports to it, and of no other.\<close>

lemma sweep_fold_silent:
  assumes "\<forall>i \<in> set ids. \<forall>p. fmlookup (bs_pending b) i = Some p \<longrightarrow> channel_of (pj_job p) \<noteq> c"
  shows "ab_sent (fold sweep_one ids b) c = ab_sent b c"
  using assms
proof (induction ids arbitrary: b)
  case (Cons i ids)
  have "ab_sent (sweep_one i b) c = ab_sent b c"
  proof (cases "fmlookup (bs_pending b) i")
    case None
    then show ?thesis by (simp add: sweep_one_def)
  next
    case (Some p)
    then show ?thesis using Cons.prems by (simp add: sweep_one_sent [OF Some])
  qed
  moreover have "\<forall>k \<in> set ids. \<forall>p. fmlookup (bs_pending (sweep_one i b)) k = Some p \<longrightarrow> channel_of (pj_job p) \<noteq> c"
    using Cons.prems by (simp add: sweep_one_maps(1))
  ultimately show ?case using Cons.IH by simp
qed simp

lemma sweep_fold_sent:
  assumes "distinct ids" "k \<in> set ids" "fmlookup (bs_pending b) k = Some q"
    and "ab_open b (channel_of (pj_job q))"
    and "\<forall>i \<in> set ids. \<forall>p. fmlookup (bs_pending b) i = Some p \<longrightarrow> channel_of (pj_job p) = channel_of (pj_job q) \<longrightarrow> i = k"
  shows "ab_sent (fold sweep_one ids b) (channel_of (pj_job q))
    = ab_sent b (channel_of (pj_job q)) @ [terminal_message (job_sink (pj_job q)) TermDenied]"
  using assms
proof (induction ids arbitrary: b)
  case (Cons i ids)
  have rest: "fmlookup (bs_pending (sweep_one i b)) j = Some p \<longleftrightarrow> j \<noteq> i \<and> fmlookup (bs_pending b) j = Some p" for j p
    by (simp add: sweep_one_maps(1))
  show ?case
  proof (cases "i = k")
    case True
    have "ab_sent (fold sweep_one ids (sweep_one i b)) (channel_of (pj_job q))
        = ab_sent (sweep_one i b) (channel_of (pj_job q))"
    proof (intro sweep_fold_silent ballI allI impI notI)
      fix j p assume "j \<in> set ids" "fmlookup (bs_pending (sweep_one i b)) j = Some p"
        "channel_of (pj_job p) = channel_of (pj_job q)"
      moreover from this have "j \<noteq> i" "fmlookup (bs_pending b) j = Some p" using rest by blast+
      ultimately show False using Cons.prems(5) True by (metis list.set_intros(2))
    qed
    then show ?thesis using Cons.prems(3,4) True by (simp add: sweep_one_sent)
  next
    case False
    have "ab_sent (sweep_one i b) (channel_of (pj_job q)) = ab_sent b (channel_of (pj_job q))"
      by (rule sweep_fold_silent [of "[i]" b, simplified]) (use Cons.prems(5) False in force)
    moreover have "ab_sent (fold sweep_one ids (sweep_one i b)) (channel_of (pj_job q))
        = ab_sent (sweep_one i b) (channel_of (pj_job q)) @ [terminal_message (job_sink (pj_job q)) TermDenied]"
    proof (rule Cons.IH)
      show "distinct ids" "k \<in> set ids" using Cons.prems(1,2) False by simp_all
      show "fmlookup (bs_pending (sweep_one i b)) k = Some q" using Cons.prems(3) False rest by metis
      show "ab_open (sweep_one i b) (channel_of (pj_job q))" using Cons.prems(4) by simp
      show "\<forall>j \<in> set ids. \<forall>p. fmlookup (bs_pending (sweep_one i b)) j = Some p
          \<longrightarrow> channel_of (pj_job p) = channel_of (pj_job q) \<longrightarrow> j = k"
        using Cons.prems(5) rest by (meson list.set_intros(2))
    qed
    ultimately show ?thesis by simp
  qed
qed simp

section \<open>Parked sessions of an interleaving\<close>

lemma parked_apart:
  assumes inv: "lock_inv H b w others"
    and i: "fmlookup (bs_pending b) i = Some p" and j: "fmlookup (bs_pending b) j = Some q"
    and same: "channel_of (pj_job p) = channel_of (pj_job q)"
  shows "i = j"
proof (rule ccontr)
  assume ne: "i \<noteq> j"
  let ?c = "channel_of (pj_job q)" and ?b = "b\<lparr>bs_pending := fmdrop i (bs_pending b)\<rparr>"
  have "fmlookup (bs_pending ?b) j = Some q" using j ne by simp
  from parked_claims_take [OF this] have "?c \<in># parked_claims ?b" by simp
  then have "1 \<le> count (parked_claims ?b) ?c" by (simp only: count_greater_eq_one_iff)
  then have "2 \<le> count (parked_claims b) ?c" unfolding parked_claims_take [OF i] same by simp
  moreover have "count (parked_claims b) ?c \<le> count (claims b w others + H) ?c" by (simp add: claims_def)
  moreover have "count (claims b w others + H) ?c \<le> 1" using inv unfolding lock_inv_def holders_ok_def by blast
  ultimately show False by linarith
qed

text \<open>A careful schedule that parks a session: the one with which the library's examples go on.\<close>

lemma careful_parking:
  assumes s: "careful_interleaving capacity timeout (system_of b [] others)" and queue: "ab_queue b = [job]"
    and job: "classify_risk (job_request job) = RequiresApproval reason" "job_admission job = AutoApproved"
    and handle: "fmlookup (bs_handles b) (job_id job) = Some handle" and heard: "ab_open b (channel_of job)"
  obtains b' p where "careful_interleaving capacity timeout (system_of b' [] others)"
    and "bs_pending b' = fmupd (job_id job) p (bs_pending b)" and "pj_deadline p = bs_approval_timeout b"
    and "bs_handles b' = bs_handles b" and "ab_queue b' = []"
proof -
  let ?be = "undefined\<lparr>be_panics := \<lambda>_. None\<rparr>" and ?b1 = "b\<lparr>ab_queue := []\<rparr>" and ?i = "job_id job"
  let ?p = "\<lparr>pj_job = note_event job (PendingApproval reason), pj_deadline = 0 + approval_timeout ?b1\<rparr>"
  let ?b2 = "?b1\<lparr>bs_pending := fmupd ?i ?p (bs_pending b)\<rparr>" and ?sink = "job_sink job"
  let ?b3 = "snd (channel_send (sink_channel ?sink) (pending_message ?sink reason) ?b2)"
  have be: "panics_cleanly ?be" by (simp add: panics_cleanly_def)
  have "careful_step (system_of b [] others) (system_of ?b1 [Look job] others)"
    using careful_receive [of "system_of b [] others" job "[]"] queue by (simp add: system_of_def)
  moreover have "careful_step (system_of ?b1 [Look job] others) (system_of ?b1 [Park job reason] others)"
    using careful_work [of ?be 0 "Look job" ?b1 _ ?b1 "[]" others] be job handle
    by (simp add: look_act_def job_id_def note_action_def)
  moreover have "careful_step (system_of ?b1 [Park job reason] others) (system_of ?b2 [Notify ?i ?sink reason] others)"
    using careful_work [of ?be 0 "Park job reason" ?b1 _ ?b2 "[]" others] be
    by (simp add: park_act_def job_id_def note_action_def Let_def)
  moreover have "careful_step (system_of ?b2 [Notify ?i ?sink reason] others) (system_of ?b3 [] others)"
    using careful_work [of ?be 0 "Notify ?i ?sink reason" ?b2 "[]" ?b3 "[]" others] be heard
    by (simp add: notify_act_def note_action_def case_prod_beta chan.send_reports channel_of_def)
  ultimately have "careful_interleaving capacity timeout (system_of ?b3 [] others)"
    using s by (meson careful_next)
  then show thesis by (rule that [of _ ?p]) simp_all
qed

lemma example_parked:
  obtains b :: "unit monitored" and p where "careful_interleaving 2 100 (system_of b [] {#})"
    and "bs_pending b = fmupd 7 p fmempty" and "pj_deadline p = 100" and "ab_queue b = []"
proof -
  let ?job = "new_job SinkOutcome () risky_request 0" and ?b = "fst (submit_job SinkOutcome () risky_request example_start)"
  have i: "job_id ?job = 7" by (simp add: job_id_def new_job_def risky_request_def example_request_def)
  have "bs_approval_timeout example_start = 100"
    by (simp add: example_start_def monitored_init_def with_config_def wasi_runtime_new_def map_err_def
        action_broker.extend_def monitored.fields_def)
  then have fields: "ab_queue ?b = [?job]" "bs_pending ?b = fmempty" "ab_open ?b (channel_of ?job)"
    "\<exists>handle. fmlookup (bs_handles ?b) (job_id ?job) = Some handle" "bs_approval_timeout ?b = 100"
    by (simp_all add: submit_job_eq risky_request_checks example_start_fields fcard.rep_eq Let_def job_id_def
        channel_of_def sink_channel_def new_job_def channel_new_def)
  have "careful_interleaving 2 100 (system_of ?b [] {#})"
    using careful_submission [OF example_start_careful, of risky_request "OpSubmit () risky_request" SinkOutcome "()"]
    by (simp add: risky_request_checks example_start_fields fcard.rep_eq sink_channel_def)
  moreover have "classify_risk (job_request ?job) = RequiresApproval NativeExecution" "job_admission ?job = AutoApproved"
    by (simp_all add: new_job_def risky_request_checks)
  ultimately obtain b p where "careful_interleaving 2 100 (system_of b [] {#})"
    "bs_pending b = fmupd (job_id ?job) p (bs_pending ?b)" "pj_deadline p = bs_approval_timeout ?b" "ab_queue b = []"
    using fields by (metis careful_parking)
  then show thesis using that fields i by simp
qed

section \<open>Properties\<close>

text \<open>
  C10. The broker drains: when a careful schedule has come to rest, the next round of the sweeper
  after the last deadline ends every session that is left, however its lock sections are
  scheduled. The caller of each, who was asked, is told of the denial and of nothing else, the
  audit trail gets one entry for each, and no id stays registered, so the whole
  capacity is free again.
\<close>

theorem broker_drains:
  assumes "careful_interleaving capacity timeout s" and "at_rest s"
    and "distinct order" and "set order = fset (fmdom (bs_pending (sy_broker s)))"
    and "\<forall>i p. fmlookup (bs_pending (sy_broker s)) i = Some p \<longrightarrow> pj_deadline p \<le> now"
    and "quiet_step\<^sup>*\<^sup>* (sweep_begins order now s) t" and "at_rest t"
  shows "bs_handles (sy_broker t) = fmempty \<and> bs_pending (sy_broker t) = fmempty
    \<and> audit_trail (sy_broker t) = last_n DEFAULT_MAX_AUDIT_ENTRIES
        (audit_trail (sy_broker s) @ map (expiry_entry (sy_broker s)) order)
    \<and> (\<forall>i p. fmlookup (bs_pending (sy_broker s)) i = Some p \<longrightarrow> (\<exists>reason.
         ab_sent (sy_broker t) (channel_of (pj_job p))
           = [pending_message (job_sink (pj_job p)) reason, terminal_message (job_sink (pj_job p)) TermDenied]))"
proof -
  let ?b = "sy_broker s"
  note inv = interleaving_inv [OF careful_interleaved [OF assms(1)]]
  have all: "filter (expired now ?b) order = order"
    using assms(4,5) by (auto simp: filter_id_conv expired_def split: option.splits dest: fmdom_notI)
  have parked: "\<forall>k \<in> set order. k |\<in>| fmdom (bs_pending ?b)" using assms(4) by simp
  have t: "sy_broker t = fold sweep_one order ?b"
    using sweep_runs_out [OF assms(2,6,7)] all by (simp add: sweep_def)
  have "length (bs_audit ?b) \<le> DEFAULT_MAX_AUDIT_ENTRIES" using inv by (simp add: lock_inv_def sizes_ok_def)
  note fold = sweep_fold [OF assms(3) parked this, folded t]
  have "fmdom (bs_handles ?b) = fmdom (bs_pending ?b)" using resting_ids [OF assms(1,2)] .
  then have "fmlookup (bs_handles (sy_broker t)) j = None" "fmlookup (bs_pending (sy_broker t)) j = None" for j
    using fold [of j] assms(4) by (auto simp: fmdom_notD fmdom_notI)
  then have empty: "bs_handles (sy_broker t) = fmempty" "bs_pending (sy_broker t) = fmempty"
    by (auto intro!: fmap_ext)
  have "ab_sent (sy_broker t) (channel_of (pj_job p))
      = ab_sent ?b (channel_of (pj_job p)) @ [terminal_message (job_sink (pj_job p)) TermDenied]"
    if p: "fmlookup (bs_pending ?b) i = Some p" for i p
    unfolding t
  proof (rule sweep_fold_sent [OF assms(3) _ p resting_parked(2) [OF assms(1,2) p]])
    show "i \<in> set order" using p assms(4) by (auto intro: fmdomI)
    show "\<forall>j \<in> set order. \<forall>q. fmlookup (bs_pending ?b) j = Some q \<longrightarrow>
        channel_of (pj_job q) = channel_of (pj_job p) \<longrightarrow> j = i"
      using parked_apart [OF inv _ p] by blast
  qed
  then show ?thesis
    using empty fold resting_parked(3) [OF assms(1,2)] by (simp add: audit_trail_def)
qed

theorem broker_drains_witness:
  "\<exists>(s :: unit system) t. at_rest s \<and> bs_pending (sy_broker s) \<noteq> fmempty
     \<and> quiet_step\<^sup>*\<^sup>* (sweep_begins [7] 100 s) t \<and> at_rest t
     \<and> bs_handles (sy_broker t) = fmempty \<and> bs_pending (sy_broker t) = fmempty"
proof -
  obtain b :: "unit monitored" and p where b: "careful_interleaving 2 100 (system_of b [] {#})"
    "bs_pending b = fmupd 7 p fmempty" "pj_deadline p = 100" "ab_queue b = []"
    by (rule example_parked)
  let ?s = "system_of b [] {#}"
  have rest: "at_rest ?s" using b(4) by (simp add: at_rest_def system_of_def)
  have "system_step ?s (sweep_begins [7] 100 ?s)"
    using system_step.call [of ?s "OpSweep [7] 100"] by (simp add: sweep_begins_def)
  then obtain t where t: "quiet_step\<^sup>*\<^sup>* (sweep_begins [7] 100 ?s) t" "at_rest t"
    using reaches_rest system_step_inv interleaving_inv [OF careful_interleaved [OF b(1)]] by blast
  have "bs_pending (sy_broker ?s) \<noteq> fmempty" using b(2) by (auto simp: system_of_def)
  moreover have "distinct [7 :: u64]" "set [7] = fset (fmdom (bs_pending (sy_broker ?s)))"
    "\<forall>i p. fmlookup (bs_pending (sy_broker ?s)) i = Some p \<longrightarrow> pj_deadline p \<le> 100"
    using b(2,3) by (simp_all add: system_of_def)
  ultimately show ?thesis using broker_drains [OF b(1) rest _ _ _ t] rest t by blast
qed

end
