(* ===== verification/Audit_Trail.thy ===== *)
theory Audit_Trail
  imports Lock_Answers Draining
begin

text \<open>
  The audit trail tells the truth.  \<open>Lock_Answers\<close> shows that what ends is recorded; here the
  converse, again along careful schedules, by tracing an entry back: it is of the request of a
  session that stood in the queue earlier in the schedule, whose caller was told the end it
  names on the channel of that session; its decision is one that the risk of the request
  allows, and where it says that a human approved the session, a caller did.
\<close>

section \<open>Entries with a session behind them\<close>

definition approved_by :: "'c monitored \<Rightarrow> nat \<Rightarrow> approval_decision \<Rightarrow> bool" where
  "approved_by b c d = (d = Approved \<longrightarrow> c \<in> set (mo_approved b))"

text \<open>
  \<open>K c r\<close> says that a session of the request \<open>r\<close> that reports on the channel \<open>c\<close> is known: at
  the end it stood in the queue earlier in the schedule.
\<close>

definition backed :: "(nat \<Rightarrow> command_request \<Rightarrow> bool) \<Rightarrow> 'c monitored \<Rightarrow> audit_entry \<Rightarrow> bool" where
  "backed K b e = (\<exists>c < ab_next_channel b. \<exists>r. K c r
     \<and> (\<exists>m \<in> set (ab_sent b c). records r m e \<and> approved_by b c (ae_decision e)))"

definition no_record :: "'c action list \<Rightarrow> bool" where
  "no_record p = list_all (\<lambda>a. \<forall>e. a \<noteq> Record e) p"

text \<open>A thread writes an entry only as the first thing after the end that it sends.\<close>

definition due :: "(nat \<Rightarrow> command_request \<Rightarrow> bool) \<Rightarrow> 'c monitored \<Rightarrow> nat \<Rightarrow> message list \<Rightarrow> audit_entry \<Rightarrow> bool" where
  "due K b c ms e = (if ms = [] then backed K b e
     else c < ab_next_channel b \<and> (\<exists>r. K c r \<and> records r (last ms) e) \<and> approved_by b c (ae_decision e))"

definition backs :: "(nat \<Rightarrow> command_request \<Rightarrow> bool) \<Rightarrow> 'c monitored \<Rightarrow> 'c action list \<Rightarrow> bool" where
  "backs K b p \<longleftrightarrow> no_record p
   \<or> (\<exists>e q. p = Record e # q \<and> no_record q \<and> backed K b e)
   \<or> (\<exists>c ms e q. p = Tell c ms # Record e # q \<and> no_record q \<and> due K b c ms e)"

text \<open>What a thread knows of the session in its hands beyond \<open>other_ok\<close> and \<open>worker_ok\<close>.\<close>

fun licensed :: "(nat \<Rightarrow> command_request \<Rightarrow> bool) \<Rightarrow> 'c action \<Rightarrow> bool" where
  "licensed K (ApproveLook _ job) = K (channel_of job) (job_request job)"
| "licensed K (Look job) = K (channel_of job) (job_request job)"
| "licensed K (Park job _) = K (channel_of job) (job_request job)"
| "licensed K (Start job _ d) = (K (channel_of job) (job_request job) \<and> admitted (channel_of job) (job_request job) job d)"
| "licensed K (Announce _ job _ d) = (K (channel_of job) (job_request job) \<and> admitted (channel_of job) (job_request job) job d)"
| "licensed K (Guest job _ d) = (K (channel_of job) (job_request job) \<and> admitted (channel_of job) (job_request job) job d)"
| "licensed K (Forward _ job _ d _) = (K (channel_of job) (job_request job) \<and> admitted (channel_of job) (job_request job) job d)"
| "licensed K _ = True"

text \<open>The parked sessions are known.\<close>

definition parked_known :: "(nat \<Rightarrow> command_request \<Rightarrow> bool) \<Rightarrow> 'c monitored \<Rightarrow> bool" where
  "parked_known K b = (\<forall>i p. fmlookup (bs_pending b) i = Some p \<longrightarrow>
     K (channel_of (pj_job p)) (job_request (pj_job p)))"

text \<open>More was sent, more channels were made, more was approved.\<close>

definition grows :: "'c monitored \<Rightarrow> 'c monitored \<Rightarrow> bool" where
  "grows b b' \<longleftrightarrow> ab_next_channel b \<le> ab_next_channel b' \<and> set (mo_approved b) \<subseteq> set (mo_approved b')
     \<and> (\<forall>c < ab_next_channel b. set (ab_sent b c) \<subseteq> set (ab_sent b' c))"

lemma approved_grows: "approved_by b c d \<Longrightarrow> grows b b' \<Longrightarrow> approved_by b' c d"
  by (auto simp: approved_by_def grows_def)

lemma backed_grows: "backed K b e \<Longrightarrow> grows b b' \<Longrightarrow> backed K b' e"
  unfolding backed_def using approved_grows
  by (metis (no_types, lifting) grows_def order_less_le_trans subsetD)

lemma due_grows: "due K b c ms e \<Longrightarrow> grows b b' \<Longrightarrow> due K b' c ms e"
  using backed_grows [of K b e b'] approved_grows [of b c _ b'] by (auto simp: due_def grows_def split: if_splits)

lemma backs_grows: "backs K b p \<Longrightarrow> grows b b' \<Longrightarrow> backs K b' p"
  unfolding backs_def by (blast intro: backed_grows due_grows)

lemma no_record_simps [simp]:
  "no_record []" "no_record (a # p) \<longleftrightarrow> (\<forall>e. a \<noteq> Record e) \<and> no_record p"
  "no_record (p @ q) \<longleftrightarrow> no_record p \<and> no_record q"
  by (simp_all add: no_record_def)

lemma backs_append: "backs K b p \<Longrightarrow> no_record q \<Longrightarrow> backs K b (p @ q)"
  by (auto simp: backs_def)

lemma backs_none: "no_record p \<Longrightarrow> backs K b p"
  by (simp add: backs_def)

section \<open>Ending a session\<close>

text \<open>The three programs that end a session, as in \<open>ending_held\<close>.\<close>

lemma ending_backs:
  assumes "session_of c r job" "c < ab_next_channel b" "K c r"
  shows "decision_fits r d out \<and> approved_by b c d
      \<and> terminal_audit (terminal_message (job_sink job) t) = Some out \<Longrightarrow> backs K b (closing (cr_id r) job t d out)"
    "decision_fits r (job_admission job) AuditFailed \<and> approved_by b c (job_admission job) \<Longrightarrow> backs K b (barrier job ms)"
    "decision_fits r d out \<and> approved_by b c d \<and> ms \<noteq> [] \<and> ends_session (last ms)
      \<and> terminal_audit (last ms) = Some out \<Longrightarrow> backs K b (finishing job d ms out)"
  using assms
  by (auto simp: backs_def due_def closing_def barrier_def finishing_def Let_def session_of_def channel_of_def
      records_def job_entry_def terminal_message_ends)


section \<open>One action\<close>

definition in_hand :: "(nat \<Rightarrow> command_request \<Rightarrow> bool) \<Rightarrow> 'c monitored \<Rightarrow> 'c job \<Rightarrow> bool" where
  "in_hand K b job = (session_of (channel_of job) (job_request job) job \<and> channel_of job < ab_next_channel b
     \<and> K (channel_of job) (job_request job))"

definition parked_fit :: "(nat \<Rightarrow> command_request \<Rightarrow> bool) \<Rightarrow> 'c monitored \<Rightarrow> bool" where
  "parked_fit K b = (\<forall>i p. fmlookup (bs_pending b) i = Some p \<longrightarrow>
     in_hand K b (pj_job p) \<and> risky (job_request (pj_job p)) \<and> cr_id (job_request (pj_job p)) = i)"

definition running_fit :: "(nat \<Rightarrow> command_request \<Rightarrow> bool) \<Rightarrow> 'c monitored \<Rightarrow> 'c job \<Rightarrow> approval_decision \<Rightarrow> bool" where
  "running_fit K b job d = (channel_of job < ab_next_channel b \<and> K (channel_of job) (job_request job)
     \<and> admitted (channel_of job) (job_request job) job d \<and> approved_by b (channel_of job) d)"

fun fits :: "(nat \<Rightarrow> command_request \<Rightarrow> bool) \<Rightarrow> 'c monitored \<Rightarrow> 'c action \<Rightarrow> bool" where
  "fits K b (ApproveLook i job) = (in_hand K b job \<and> risky (job_request job) \<and> cr_id (job_request job) = i)"
| "fits K b (Look job) = in_hand K b job"
| "fits K b (Start job _ d) = running_fit K b job d"
| "fits K b (Announce _ job _ d) = running_fit K b job d"
| "fits K b (Guest job _ d) = running_fit K b job d"
| "fits K b (Forward _ job _ d _) = running_fit K b job d"
| "fits K b (Park job _) = K (channel_of job) (job_request job)"
| "fits K b _ = True"

definition act_fits :: "(nat \<Rightarrow> command_request \<Rightarrow> bool) \<Rightarrow> 'c monitored \<Rightarrow> 'c action list \<times> 'c monitored \<Rightarrow> bool" where
  "act_fits K b s = (backs K b (fst s) \<and> list_all (licensed K) (fst s))"

lemma ending_licensed [simp]:
  "list_all (licensed K) (closing i job t d out)" "list_all (licensed K) (finishing job d ms out)"
  "list_all (licensed K) (barrier job ms)"
  by (simp_all add: closing_def finishing_def barrier_def Let_def)

lemma act_fits_simps [simp]:
  "act_fits K b ([], b')" "\<forall>e. a \<noteq> Record e \<Longrightarrow> act_fits K b ([a], b') = licensed K a"
  "act_fits K b ([Tell c ms, Release i], b')" "act_fits K b ([Release i, Return r], b')"
  "act_fits K b ([Raise handle, Return r], b')" "act_fits K b ([Unpark i, Release i], b')"
  by (simp_all add: act_fits_def backs_none)

lemma closing_fits:
  assumes "in_hand K b job" "risky (job_request job)" "cr_id (job_request job) = i"
    and "d = DecisionDenied \<or> d = TimedOut \<longrightarrow> out = AuditDenied" "d = DecisionCancelled \<longrightarrow> out = AuditCancelled"
    and "d \<noteq> AutoApproved" "d \<noteq> Approved"
    and "terminal_audit (terminal_message (job_sink job) t) = Some out"
  shows "act_fits K b (closing i job t d out, b')" "act_fits K b (closing i job t d out @ [Return r], b')"
proof -
  have "decision_fits (job_request job) d out" using assms(2,4-7) by (cases d) simp_all
  then have "backs K b (closing i job t d out)"
    using ending_backs(1) [of "channel_of job" "job_request job" job b K d out t] assms
    by (simp add: in_hand_def approved_by_def)
  then show "act_fits K b (closing i job t d out, b')" "act_fits K b (closing i job t d out @ [Return r], b')"
    by (simp_all add: act_fits_def backs_append)
qed

lemma parked_fits:
  assumes "parked_fit K b"
  shows "act_fits K b (deny_take i b)" "act_fits K b (cancel_take i b)"
    "act_fits K b (expire_take i b)" "act_fits K b (approve_take i b)"
proof -
  obtain found b' where t: "take_pending i b = (found, b')" by fastforce
  have "act_fits K b (deny_take i b) \<and> act_fits K b (cancel_take i b)
      \<and> act_fits K b (expire_take i b) \<and> act_fits K b (approve_take i b)"
  proof (cases found)
    case None
    then show ?thesis
      by (simp add: deny_take_def cancel_take_def approve_take_def expire_take_def t)
  next
    case (Some job)
    then have job: "in_hand K b job" "risky (job_request job)" "cr_id (job_request job) = i"
      using assms t by (auto simp: take_pending_def parked_fit_def)
    show ?thesis
      by (simp add: deny_take_def cancel_take_def approve_take_def expire_take_def t Some closing_fits [OF job]
          job(1) [unfolded in_hand_def])
  qed
  then show "act_fits K b (deny_take i b)" "act_fits K b (cancel_take i b)"
    "act_fits K b (expire_take i b)" "act_fits K b (approve_take i b)" by simp_all
qed

lemma approve_look_fits:
  "fits K b (ApproveLook i job) \<Longrightarrow> act_fits K b (approve_look i job b)"
  by (auto simp: approve_look_def intro!: closing_fits)

lemma running_ends:
  assumes "running_fit K b job d"
  shows "act_fits K b (barrier job ms, b')"
    "job_sink job' = job_sink job \<and> job_request job' = job_request job \<and> job_admission job' = job_admission job
      \<and> ms \<noteq> [] \<and> ends_session (last ms) \<and> terminal_audit (last ms) = Some out
      \<Longrightarrow> act_fits K b (finishing job' d ms out, b')"
    "job_sink job' = job_sink job \<and> job_request job' = job_request job \<and> job_admission job' = job_admission job
      \<Longrightarrow> K (channel_of job') (job_request job') \<and> admitted (channel_of job') (job_request job') job' d"
proof -
  let ?c = "channel_of job" and ?r = "job_request job"
  have job: "?c < ab_next_channel b" "admitted ?c ?r job d" "approved_by b ?c d" "K ?c ?r" using assms by (simp_all add: running_fit_def)
  note fits = admitted_fits(1,2) [OF job(2)] admitted_fits(3) [OF job(2)]
  show "act_fits K b (barrier job ms, b')"
    using ending_backs(2) [OF fits(1) job(1), of K, OF job(4)] fits(2,3) job(3) by (simp add: act_fits_def)
  show "job_sink job' = job_sink job \<and> job_request job' = job_request job \<and> job_admission job' = job_admission job
      \<and> ms \<noteq> [] \<and> ends_session (last ms) \<and> terminal_audit (last ms) = Some out
      \<Longrightarrow> act_fits K b (finishing job' d ms out, b')"
    using ending_backs(3) [of ?c ?r job' b K d out ms] fits(1,3) job(1,3,4)
    by (simp add: session_of_def act_fits_def channel_of_def)
  show "job_sink job' = job_sink job \<and> job_request job' = job_request job \<and> job_admission job' = job_admission job
      \<Longrightarrow> K (channel_of job') (job_request job') \<and> admitted (channel_of job') (job_request job') job' d"
    using admitted_frame [of job' job ?c ?r d] job(2,4) by (simp add: channel_of_def)
qed

lemma look_fits: "in_hand K b job \<Longrightarrow> act_fits K b (look_act job b)"
  by (auto simp: look_act_def in_hand_def admitted_def session_of_def risky_def split: option.split risk.split)

lemma start_fits: "running_fit K b job d \<Longrightarrow> act_fits K b (start_act job handle d b)"
  using running_ends(3) [of K b job d "job\<lparr>job_session := _\<rparr>"]
  by (auto simp: start_act_def terminal_message_ends intro!: running_ends(2)
      split: prod.split sum.split job_sink.split)

lemma guest_fits:
  assumes "running_fit K b job d"
  shows "act_fits K b (guest_act be job handle d b)"
proof -
  have "act_fits K b (finishing job1 d [Outcome outcome] audit, b)"
    if "capture_result result job = (outcome, job1)" "audit_of outcome = Returned audit" for result outcome job1 audit
    using running_ends(2) [OF assms] capture_result_frame [OF that(1)] audited_ends [OF that(2)] by simp
  then show ?thesis using running_ends(1,3) [OF assms]
    by (auto simp: guest_act_def split: prod.split option.split job_sink.split call.split)
qed

lemma forward_fits:
  assumes "running_fit K b job d"
  shows "act_fits K b (forward_act ms job handle d result b)"
proof -
  have "act_fits K b (finishing job1 d [Event e] audit, b)" if "stream_result r job = (e, audit, job1)" for r e audit job1
    using running_ends(2) [OF assms] stream_result_frame [OF that] stream_admitted [OF that] by simp
  then show ?thesis using running_ends(3) [OF assms, of job]
    by (cases ms) (auto simp: forward_act_def split: prod.split option.split)
qed

text \<open>Every action but the two that report an end.\<close>

lemma act_fits_all:
  fixes b :: "'c monitored"
  assumes "parked_fit K b" "fits K b a" and "\<forall>d ms. a \<noteq> Tell d ms" "\<forall>e. a \<noteq> Record e"
  shows "act_fits K b (act be now a b)"
proof (cases a)
  case (Submit sink component r)
  then show ?thesis by (simp add: submit_act_def split: sum.split prod.split)
next
  case (Enqueue job)
  then show ?thesis by (simp add: enqueue_act_def Let_def split: prod.split)
next
  case (Push i job reply)
  then show ?thesis by (simp add: push_act_def)
next
  case (ApproveLook i job)
  then show ?thesis using approve_look_fits assms(2) by simp
next
  case (CancelLook i)
  then show ?thesis by (simp add: cancel_look_def split: option.split)
next
  case (SweepList order time)
  have "no_record (map ExpireTake ids :: 'c action list)" "list_all (licensed K) (map ExpireTake ids :: 'c action list)"
    for ids
    by (induction ids) simp_all
  then show ?thesis using SweepList by (simp add: sweep_list_def act_fits_def backs_none)
next
  case (Announce c job handle d)
  then show ?thesis using assms(2) by (simp add: running_fit_def)
next
  case (Park job reason)
  then show ?thesis by (simp add: park_act_def Let_def)
next
  case (Notify i sink reason)
  then show ?thesis by (simp add: notify_act_def split: prod.split)
qed (use assms parked_fits look_fits start_fits guest_fits forward_fits in simp_all)

lemma act_audit: "\<forall>e. a \<noteq> Record e \<Longrightarrow> bs_audit (snd (act be now a b)) = bs_audit b \<and>
    mo_approved (snd (act be now a b)) = mo_approved (b :: 'c monitored)"
proof -
  have taken: "bs_audit b' = bs_audit b \<and> mo_approved b' = mo_approved b" if "take_pending i b = (found, b')" for i found b'
    using that by (auto simp: take_pending_def)
  have send: "bs_audit (snd (channel_send c m b)) = bs_audit b \<and> mo_approved (snd (channel_send c m b)) = mo_approved b" for c m
    by (simp add: channel_send_def)
  assume "\<forall>e. a \<noteq> Record e"
  then show ?thesis
  proof (cases a)
    case (Tell c ms)
    then show ?thesis using send by (cases ms) simp_all
  next
    case (Forward ms job handle d result)
    then show ?thesis using send by (cases ms) (auto simp: forward_act_def split: option.split prod.split)
  next
    case (Guest job handle d)
    then show ?thesis by (auto simp: guest_act_def split: option.split prod.split job_sink.split call.split)
  qed (auto simp: send approve_take_def deny_take_def cancel_take_def expire_take_def submit_act_def enqueue_act_def
      push_act_def approve_look_def cancel_look_def sweep_list_def look_act_def start_act_def park_act_def notify_act_def
      channel_new_def hang_up_def Let_def release_def channel_send_def
      dest: taken split: option.split prod.split sum.split job_sink.split risk.split)
qed

text \<open>Only the worker parks a session, and it knows which.\<close>

lemma act_known:
  fixes b :: "'c monitored"
  assumes "parked_known K b" "fits K b a"
  shows "parked_known K (snd (act be now a b))"
proof -
  have send: "bs_pending (snd (channel_send c m b)) = bs_pending b" for c m and b :: "'c monitored"
    by (simp add: channel_send_def)
  have fewer: "parked_known K b'" if "\<And>i p. fmlookup (bs_pending b') i = Some p \<Longrightarrow> fmlookup (bs_pending b) i = Some p"
    for b' :: "'c monitored" using assms(1) that by (auto simp: parked_known_def)
  have taken: "fmlookup (bs_pending b) j = Some p"
    if "take_pending i b = (found, b')" "fmlookup (bs_pending b') j = Some p" for i found b' j p
    using that by (auto simp: take_pending_def split: option.splits if_splits)
  show ?thesis
  proof (cases a)
    case (Park job reason)
    then show ?thesis using assms by (auto simp: park_act_def Let_def parked_known_def channel_of_def split: if_splits)
  next
    case (Tell c ms)
    then show ?thesis using send by (cases ms) (auto intro!: fewer)
  next
    case (Forward ms job handle d result)
    then show ?thesis using send by (cases ms) (auto simp: forward_act_def intro!: fewer split: option.splits prod.splits)
  next
    case (Guest job handle d)
    then show ?thesis by (auto simp: guest_act_def intro!: fewer split: option.splits prod.splits job_sink.splits call.splits)
  next
    case (Unpark i)
    then show ?thesis by (auto intro!: fewer split: if_splits)
  next
    case (Notify i sink reason)
    then show ?thesis by (auto simp: notify_act_def channel_send_def intro!: fewer)
  qed (auto simp: send approve_take_def deny_take_def cancel_take_def expire_take_def submit_act_def enqueue_act_def
      push_act_def approve_look_def cancel_look_def sweep_list_def look_act_def start_act_def audit_record_eq
      channel_new_def hang_up_def Let_def release_def
      intro!: fewer dest: taken split: option.splits prod.splits sum.splits job_sink.splits risk.splits)
qed

section \<open>One thread\<close>

definition thread_fits :: "(nat \<Rightarrow> command_request \<Rightarrow> bool) \<Rightarrow> 'c monitored \<Rightarrow> 'c action list \<times> 'c monitored \<Rightarrow> bool" where
  "thread_fits K b s \<longleftrightarrow> grows b (snd s) \<and> backs K (snd s) (fst s) \<and> list_all (licensed K) (fst s)
     \<and> (\<forall>e \<in> set (bs_audit (snd s)). e \<in> set (bs_audit b) \<or> backed K (snd s) e)"

lemma note_grows: "set (mo_approved b) \<subseteq> set (mo_approved (note_action a b))"
  by (auto simp: note_action_def note_approval_def split: action.split option.split)

lemma note_fits:
  "parked_fit K (note_action a b) = parked_fit K b" "fits K b a \<Longrightarrow> fits K (note_action a b) a"
  "bs_audit (note_action a b) = bs_audit b"
proof -
  show "parked_fit K (note_action a b) = parked_fit K b" by (simp add: parked_fit_def in_hand_def note_same)
  show "fits K b a \<Longrightarrow> fits K (note_action a b) a" by (cases a) (simp_all add: note_action_def)
  show "bs_audit (note_action a b) = bs_audit b"
    by (simp add: note_action_def note_approval_def split: action.split option.split)
qed

lemma backs_rest: "backs K b (a # p) \<Longrightarrow> \<forall>c ms. a \<noteq> Tell c ms \<Longrightarrow> no_record p"
  by (auto simp: backs_def)

lemma tell_fits:
  assumes b: "\<forall>c < ab_next_channel b. ab_open b c" and b': "b' = snd (channel_send d m b)"
    and backs: "backs K b (Tell d (m # ms) # rest)" and grows: "grows b b'"
  shows "backs K b' (Tell d ms # rest)"
proof -
  have "due K b' d ms e" if e: "due K b d (m # ms) e" for e
  proof (cases "ms = []")
    case True
    then obtain r where r: "records r m e" "approved_by b d (ae_decision e)" "d < ab_next_channel b" "K d r"
      using e by (auto simp: due_def)
    then have "m \<in> set (ab_sent b' d)" using b by (simp add: b' chan.send_sent)
    moreover have "d < ab_next_channel b'" using r(3) grows by (simp add: grows_def)
    ultimately have "backed K b' e" unfolding backed_def using r(1,4) approved_grows [OF r(2) grows] by blast
    then show ?thesis using True by (simp add: due_def)
  next
    case False
    then have "due K b d ms e" using e by (simp add: due_def)
    then show ?thesis using grows by (rule due_grows)
  qed
  then show ?thesis using backs by (auto simp: backs_def)
qed

lemma thread_step_fits:
  assumes step: "thread_step be now (a # rest, b) = (p, b')"
    and b: "\<forall>c < ab_next_channel b. ab_open b c" "parked_fit K b"
    and a: "fits K b a" "backs K b (a # rest)" "list_all (licensed K) rest"
    and sent: "\<forall>c < ab_next_channel b. set (ab_sent b c) \<subseteq> set (ab_sent b' c)"
  shows "thread_fits K b (p, b')"
proof -
  let ?b = "note_action a b"
  obtain "next" where act: "act be now a ?b = (next, b')" and p: "p = next @ rest"
    using step by (auto simp: thread_step_def split: prod.splits)
  have audit: "mo_approved b' = mo_approved ?b"
  proof (cases "\<exists>e. a = Record e")
    case True
    then show ?thesis using act by (auto simp: audit_record_eq)
  next
    case False
    then show ?thesis using act_audit [of a be now ?b] act by simp
  qed
  then have grows: "grows b b'"
    using thread_setup [OF step] sent note_grows [of b a] by (simp add: grows_def same_setup_def)
  consider d where "a = Tell d []" | d m ms where "a = Tell d (m # ms)" | e where "a = Record e"
    | "\<forall>d ms. a \<noteq> Tell d ms" "\<forall>e. a \<noteq> Record e" by (metis neq_Nil_conv)
  then show ?thesis
  proof cases
    case 1
    then have same: "next = []" "b' = b" using act by (simp_all add: note_action_def)
    have "backs K b rest" using a(2) 1 by (auto simp: backs_def due_def)
    then show ?thesis using grows a(3) same by (simp add: thread_fits_def p)
  next
    case 2
    then have same: "next = [Tell d ms]" "b' = snd (channel_send d m b)" using act by (simp_all add: note_action_def)
    have "backs K b' (Tell d ms # rest)" by (rule tell_fits [OF b(1) same(2) _ grows]) (use a(2) 2 in simp)
    moreover have "bs_audit b' = bs_audit b" by (simp add: same(2) channel_send_def)
    ultimately show ?thesis using grows a(3) by (simp add: thread_fits_def p same(1))
  next
    case 3
    then have same: "next = []" "b' = audit_record e b" using act by (simp_all add: note_action_def)
    have "no_record rest" "backed K b e" using a(2) 3 by (auto simp: backs_def)
    moreover have "set (bs_audit b') \<subseteq> insert e (set (bs_audit b))"
      by (auto simp: same(2) audit_record_eq last_n_def dest: in_set_dropD)
    ultimately show ?thesis
      using grows a(3) backed_grows [OF _ grows] by (auto simp: thread_fits_def p same(1) backs_none)
  next
    case 4
    have "act_fits K ?b (next, b')"
      using act_fits_all [of K ?b a be now] note_fits [where a = a and b = b] a(1) b(2) 4 act by simp
    moreover have "grows ?b b'" using grows audit by (simp add: grows_def note_same)
    ultimately have fit: "backs K b' (next @ rest)" "list_all (licensed K) next"
      using backs_append [OF backs_grows [of K ?b "next" b'] backs_rest [OF a(2) 4(1)]] by (auto simp: act_fits_def)
    moreover have "bs_audit b' = bs_audit b" using act_audit [OF 4(2), of be now ?b] act note_fits(3) [where a = a and b = b] by simp
    ultimately show ?thesis using grows a(3) by (simp add: thread_fits_def p)
  qed
qed

section \<open>The system\<close>

text \<open>A session that stood in the queue at some moment of the schedule that led to the system.\<close>

definition known :: "usize \<Rightarrow> nat \<Rightarrow> 'c system \<Rightarrow> nat \<Rightarrow> command_request \<Rightarrow> bool" where
  "known capacity timeout s c r = (\<exists>s0 job. careful_interleaving capacity timeout s0 \<and> careful_step\<^sup>*\<^sup>* s0 s
     \<and> job \<in> set (ab_queue (sy_broker s0)) \<and> channel_of job = c \<and> job_request job = r)"

definition audit_inv :: "(nat \<Rightarrow> command_request \<Rightarrow> bool) \<Rightarrow> 'c system \<Rightarrow> bool" where
  "audit_inv K s \<longleftrightarrow> (\<forall>e \<in> set (bs_audit (sy_broker s)). backed K (sy_broker s) e)
     \<and> (\<forall>p \<in># sy_others s. backs K (sy_broker s) p \<and> list_all (licensed K) p)
     \<and> backs K (sy_broker s) (sy_worker s) \<and> list_all (licensed K) (sy_worker s)
     \<and> parked_known K (sy_broker s)"

lemma licensed_mono: "licensed K a \<Longrightarrow> K \<le> K' \<Longrightarrow> licensed K' a"
  by (cases a) (auto simp: le_fun_def)

lemma backed_mono: "backed K b e \<Longrightarrow> K \<le> K' \<Longrightarrow> backed K' b e"
  unfolding backed_def le_fun_def le_bool_def by blast

lemma backs_mono: "backs K b p \<Longrightarrow> K \<le> K' \<Longrightarrow> backs K' b p"
proof -
  assume p: "backs K b p" and le: "K \<le> K'"
  have due: "due K' b c ms e" if "due K b c ms e" for c ms e
  proof (cases "ms = []")
    case False
    then obtain r where "K c r" "records r (last ms) e" "c < ab_next_channel b" "approved_by b c (ae_decision e)"
      using \<open>due K b c ms e\<close> by (auto simp: due_def)
    moreover have "K' c r" using le \<open>K c r\<close> by (auto simp: le_fun_def)
    ultimately show ?thesis using False by (auto simp: due_def)
  qed (use that backed_mono [OF _ le] in \<open>simp add: due_def\<close>)
  show ?thesis using p unfolding backs_def
    by (elim disj_forward ex_forward conj_forward) (assumption | erule backed_mono [OF _ le] | erule due)+
qed

lemma audit_inv_mono: "audit_inv K s \<Longrightarrow> K \<le> K' \<Longrightarrow> audit_inv K' s"
proof -
  assume s: "audit_inv K s" and le: "K \<le> K'"
  have "parked_known K b \<Longrightarrow> parked_known K' b" for b :: "'a monitored"
    using le unfolding parked_known_def le_fun_def le_bool_def by blast
  moreover have "list_all (licensed K) p \<Longrightarrow> list_all (licensed K') p" for p :: "'a action list"
    using licensed_mono [OF _ le] by (auto simp: list_all_iff)
  ultimately show ?thesis
    using s backed_mono [OF _ le] backs_mono [OF _ le] unfolding audit_inv_def by blast
qed

text \<open>What the invariants of the schedule say of the sessions in the hands of the threads.\<close>

lemma claimed_channel:
  assumes "lock_inv {#} b w others" "c \<in># claims b w others"
  shows "c < ab_next_channel b"
  using assms by (simp add: lock_inv_def holders_ok_def)

lemma ready_in_hand:
  "job_ready b w job \<Longrightarrow> channel_of job < ab_next_channel b \<Longrightarrow> K (channel_of job) (job_request job) \<Longrightarrow> in_hand K b job"
  by (auto simp: job_ready_def in_hand_def session_of_def risky_def split: approval_decision.splits)

lemma waiting_in_hand:
  "job_waiting b w job \<Longrightarrow> channel_of job < ab_next_channel b \<Longrightarrow> K (channel_of job) (job_request job) \<Longrightarrow>
     in_hand K b job \<and> risky (job_request job)"
  by (auto simp: job_waiting_def in_hand_def session_of_def risky_def)

lemma system_parked_fit:
  assumes "balanced s" and inv: "lock_inv {#} (sy_broker s) (sy_worker s) (sy_others s)"
    and known: "parked_known K (sy_broker s)"
  shows "parked_fit K (sy_broker s)"
  unfolding parked_fit_def
proof (intro allI impI)
  fix i p assume p: "fmlookup (bs_pending (sy_broker s)) i = Some p"
  have "channel_of (pj_job p) < ab_next_channel (sy_broker s)"
    by (rule claimed_channel [OF inv]) (simp add: claims_def parked_claims_take [OF p])
  moreover have "job_waiting (sy_broker s) (sy_worker s) (pj_job p)"
    using inv p by (simp add: lock_inv_def items_ok_def)
  moreover have "job_id (pj_job p) = i" using assms(1) p by (simp add: balanced_def accounts_def)
  moreover have "K (channel_of (pj_job p)) (job_request (pj_job p))" using known p by (simp add: parked_known_def)
  ultimately show "in_hand K (sy_broker s) (pj_job p) \<and> risky (job_request (pj_job p)) \<and> cr_id (job_request (pj_job p)) = i"
    using waiting_in_hand by (metis job_id_def)
qed

lemma other_fits:
  assumes "other_ok b w a" "id_ok b a" "licensed K a" "\<forall>c \<in># claim a. c < ab_next_channel b"
  shows "fits K b a"
  using assms waiting_in_hand by (cases a) (auto simp: job_id_def)

lemma running_cleared:
  assumes "cleared b job" "admitted (channel_of job) (job_request job) job d" "channel_of job < ab_next_channel b"
    and "K (channel_of job) (job_request job)"
  shows "running_fit K b job d"
  using assms by (auto simp: running_fit_def cleared_def approved_by_def admitted_def session_of_def risky_def)

lemma worker_fits:
  assumes "worker_ok b a" "licensed K a" "\<forall>c \<in># claim a. c < ab_next_channel b"
  shows "fits K b a"
  using assms running_cleared ready_in_hand by (cases a) auto

lemma audit_other:
  assumes s: "audit_inv K s" "sy_others s = add_mset p others" and fit: "thread_fits K (sy_broker s) (p', b)"
    and "parked_known K b"
  shows "audit_inv K (s\<lparr>sy_broker := b, sy_others := add_mset p' others\<rparr>)"
proof -
  have grows: "grows (sy_broker s) b" using fit by (simp add: thread_fits_def)
  show ?thesis using s fit backs_grows [OF _ grows] backed_grows [OF _ grows] assms(4)
    unfolding audit_inv_def thread_fits_def by auto
qed

lemma audit_worker:
  assumes s: "audit_inv K s" and fit: "thread_fits K (sy_broker s) (p, b)" and "parked_known K b"
  shows "audit_inv K (s\<lparr>sy_broker := b, sy_worker := p\<rparr>)"
proof -
  have grows: "grows (sy_broker s) b" using fit by (simp add: thread_fits_def)
  show ?thesis using s fit backs_grows [OF _ grows] backed_grows [OF _ grows] assms(3)
    unfolding audit_inv_def thread_fits_def by auto
qed

lemma thread_known:
  assumes "thread_step be now (a # rest, b) = (p, b')" "parked_known K b" "fits K b a"
  shows "parked_known K b'"
proof -
  have "parked_known K (note_action a b)" using assms(2) by (simp add: parked_known_def note_same)
  then have "parked_known K (snd (act be now a (note_action a b)))"
    using act_known note_fits(2) [OF assms(3)] by blast
  then show ?thesis using assms(1) by (auto simp: thread_step_def split: prod.splits)
qed

lemma careful_step_audit:
  assumes "careful_step s s'" "balanced s" "lock_inv {#} (sy_broker s) (sy_worker s) (sy_others s)"
    and "\<And>c. c < ab_next_channel (sy_broker s) \<Longrightarrow> ready c (sy_broker s)" and "audit_inv K s"
    and queue: "\<forall>job \<in> set (ab_queue (sy_broker s)). K (channel_of job) (job_request job)"
  shows "audit_inv K s'"
proof -
  let ?b = "sy_broker s"
  have sent: "\<forall>c < ab_next_channel ?b. set (ab_sent ?b c) \<subseteq> set (ab_sent (sy_broker s') c)"
    using careful_step_keeps [OF assms(1-3) assms(4)] by (auto simp: system_keeps_def)
  have opened: "\<forall>c < ab_next_channel ?b. ab_open ?b c" using assms(4) by (auto simp: ready_def)
  have known: "parked_known K ?b" using assms(5) by (simp add: audit_inv_def)
  note parked = system_parked_fit [OF assms(2,3) known]
  from assms(1) show ?thesis
  proof (cases rule: careful_step.cases)
    case (careful_call op)
    have "no_record [first_action op]" "licensed K (first_action op)" by (cases op; simp)+
    then show ?thesis using assms(5) careful_call by (simp add: audit_inv_def backs_none)
  next
    case (careful_other a rest others be now p b)
    have a: "id_ok ?b a" "other_ok ?b (sy_worker s) a" "\<forall>c \<in># claim a. c < ab_next_channel ?b"
      using assms(2,3) careful_other(2) claimed_channel [OF assms(3)]
      by (auto simp: balanced_def lock_inv_def items_ok_def claims_def)
    have others: "backs K ?b (a # rest)" "licensed K a" "list_all (licensed K) rest"
      using assms(5) careful_other(2) by (simp_all add: audit_inv_def)
    note fits = other_fits [OF a(2,1) others(2) a(3)]
    have "thread_fits K ?b (p, b)"
      using thread_step_fits [OF careful_other(4) opened parked fits others(1,3)] sent careful_other(1) by simp
    then show ?thesis
      using audit_other [OF assms(5) careful_other(2)] thread_known [OF careful_other(4) known fits] careful_other(1) by simp
  next
    case (careful_exit others)
    then show ?thesis using assms(5) by (simp add: audit_inv_def)
  next
    case (careful_receive job rest)
    have "grows ?b (?b\<lparr>ab_queue := rest\<rparr>)" by (simp add: grows_def)
    from backs_grows [OF _ this] backed_grows [OF _ this] show ?thesis
      using assms(5) queue careful_receive by (auto simp: audit_inv_def backs_none parked_known_def)
  next
    case (careful_worker be now p b)
    obtain a rest where w: "sy_worker s = a # rest" using careful_worker(2) by (cases "sy_worker s") auto
    have a: "worker_ok ?b a" "licensed K a" "\<forall>c \<in># claim a. c < ab_next_channel ?b"
      using assms(3,5) w claimed_channel [OF assms(3)]
      by (auto simp: lock_inv_def items_ok_def claims_def audit_inv_def)
    have worker: "backs K ?b (a # rest)" "list_all (licensed K) rest" using assms(5) w by (simp_all add: audit_inv_def)
    note fits = worker_fits [OF a]
    have "thread_fits K ?b (p, b)"
      using thread_step_fits [OF careful_worker(4) [unfolded w] opened parked fits worker] sent careful_worker(1) by simp
    then show ?thesis
      using audit_worker [OF assms(5)] thread_known [OF careful_worker(4) [unfolded w] known fits] careful_worker(1) by simp
  qed
qed

lemma known_grows: "careful_step s s' \<Longrightarrow> known capacity timeout s \<le> known capacity timeout s'"
proof (intro le_funI le_boolI)
  fix c r
  assume step: "careful_step s s'" and "known capacity timeout s c r"
  then obtain s0 job where s0: "careful_interleaving capacity timeout s0" "careful_step\<^sup>*\<^sup>* s0 s"
    "job \<in> set (ab_queue (sy_broker s0))" "channel_of job = c" "job_request job = r"
    unfolding known_def by blast
  from rtranclp.rtrancl_into_rtrancl [OF s0(2) step] s0(1,3-5) show "known capacity timeout s' c r"
    unfolding known_def by blast
qed

lemma careful_audit_inv: "careful_interleaving capacity timeout s \<Longrightarrow> audit_inv (known capacity timeout s) s"
proof (induction rule: careful_interleaving.induct)
  case (careful_init s)
  then show ?case
    by (auto simp: system_init_def monitored_init_def with_config_def wasi_runtime_new_def map_err_def audit_inv_def
        parked_known_def backs_none action_broker.extend_def monitored.fields_def split: if_splits)
next
  case (careful_next s s')
  have "\<forall>job \<in> set (ab_queue (sy_broker s)). known capacity timeout s (channel_of job) (job_request job)"
    using careful_next(1) unfolding known_def by blast
  from careful_step_audit [OF careful_next(2) careful_balanced [OF careful_next(1)]
      interleaving_inv [OF careful_interleaved [OF careful_next(1)]] careful_ready [OF careful_next(1)] careful_next(3) this]
  show ?case using known_grows [OF careful_next(2)] by (rule audit_inv_mono)
qed

section \<open>Properties\<close>

text \<open>
  C6. The audit trail tells the truth: in a careful schedule every entry traces back to a
  session that stood in the queue earlier in the same schedule.  It has the id, the actor and
  the program of the request of that very session; the caller of that session was told, on
  its own channel, the end that the entry names (a panic is told as a denial); the decision
  is one that the risk of that request allows, so \<open>AutoApproved\<close> is recorded for harmless
  requests only; and where it says \<open>Approved\<close>, a caller did approve this session.
\<close>

theorem audit_trail_is_truthful:
  assumes "careful_interleaving capacity timeout s" and "e \<in> set (audit_trail (sy_broker s))"
  shows "\<exists>s0 job m. careful_interleaving capacity timeout s0 \<and> careful_step\<^sup>*\<^sup>* s0 s
    \<and> job \<in> set (ab_queue (sy_broker s0))
    \<and> m \<in> set (ab_sent (sy_broker s) (channel_of job)) \<and> records (job_request job) m e
    \<and> (ae_decision e = Approved \<longrightarrow> channel_of job \<in> set (mo_approved (sy_broker s)))"
proof -
  have "backed (known capacity timeout s) (sy_broker s) e"
    using careful_audit_inv [OF assms(1)] assms(2) by (simp add: audit_inv_def audit_trail_def)
  then show ?thesis unfolding backed_def approved_by_def known_def by blast
qed

theorem audit_trail_is_truthful_witness:
  "\<exists>(s :: unit system) e s0 job m. careful_interleaving 2 100 s \<and> e \<in> set (audit_trail (sy_broker s))
     \<and> careful_step\<^sup>*\<^sup>* s0 s \<and> job \<in> set (ab_queue (sy_broker s0))
     \<and> m \<in> set (ab_sent (sy_broker s) (channel_of job)) \<and> records (job_request job) m e"
proof -
  obtain b :: "unit monitored" and p where b: "careful_interleaving 2 100 (system_of b [] {#})"
    "bs_pending b = fmupd 7 p fmempty" by (rule example_parked)
  let ?c = "sink_channel (job_sink (pj_job p))" and ?m = "terminal_message (job_sink (pj_job p)) TermDenied"
  let ?e = "job_entry 7 (pj_job p) DecisionDenied AuditDenied"
  let ?tail = "[Release 7, Return (Ok Accepted)] :: unit action list"
  let ?b1 = "b\<lparr>bs_pending := fmdrop 7 (bs_pending b)\<rparr>"
  let ?b2 = "snd (channel_send ?c ?m ?b1)"
  let ?b3 = "audit_record ?e ?b2"
  let ?sys = "\<lambda>b p. system_of b [] (add_mset p {#})"
  have "careful_step (system_of b [] {#}) (?sys b [DenyTake 7])"
    using careful_call [of "system_of b [] {#}" "OpDeny 7"] by (simp add: system_of_def)
  moreover have "careful_step (?sys b [DenyTake 7]) (?sys ?b1 (Tell ?c [?m] # Record ?e # ?tail))"
    using careful_act [of undefined 0 "DenyTake 7" b _ ?b1 "[]" "[]" "{#}"] b(2)
    by (simp add: deny_take_def take_pending_def closing_def careful_def note_action_def)
  moreover have "careful_step (?sys ?b1 (Tell ?c [?m] # Record ?e # ?tail)) (?sys ?b2 (Tell ?c [] # Record ?e # ?tail))"
    using careful_act [of undefined 0 "Tell ?c [?m]" ?b1 "[Tell ?c []]" ?b2 "[]" "Record ?e # ?tail" "{#}"]
    by (simp add: careful_def note_action_def)
  moreover have "careful_step (?sys ?b2 (Tell ?c [] # Record ?e # ?tail)) (?sys ?b2 (Record ?e # ?tail))"
    using careful_act [of undefined 0 "Tell ?c []" ?b2 "[]" ?b2 "[]" "Record ?e # ?tail" "{#}"]
    by (simp add: careful_def note_action_def)
  moreover have "careful_step (?sys ?b2 (Record ?e # ?tail)) (?sys ?b3 ?tail)"
    using careful_act [of undefined 0 "Record ?e" ?b2 "[]" ?b3 "[]" ?tail "{#}"]
    by (simp add: careful_def note_action_def)
  ultimately have s: "careful_interleaving 2 100 (?sys ?b3 ?tail)" using b(1) by (meson careful_next)
  have "?e \<in> set (audit_trail (sy_broker (?sys ?b3 ?tail)))"
    by (simp add: system_of_def audit_trail_def audit_record_eq last_n_def DEFAULT_MAX_AUDIT_ENTRIES_def)
  from audit_trail_is_truthful [OF s this] this s show ?thesis by blast
qed

end
