(* ===== verification/Engine.thy ===== *)
theory Engine
  imports Streaming
begin

text \<open>
  \<open>lib.rs\<close>: several runs on one \<open>WasiRuntime\<close>.  The engine's epoch is shared, the run lock
  admits one run at a time, and every run has a thread that advances the epoch: the watchdog
  of a capturing run or the reader of a streaming one.  The model interleaves the callers,
  the guests, these threads and the clock; what the threads do with the pipes is in the
  theory \<open>Streaming\<close>.
\<close>

section \<open>State\<close>

datatype run_path = Capturing | EventStreaming

text \<open>
  Where a run is: waiting for the lock, holding it, past \<open>build_store\<close>, in its guest, past
  the guest's call, back at its caller, or unwound by a panic in the guest's call.
\<close>

datatype run_phase = Waiting | Locked | Built | InGuest | CallReturned | Finished | Unwound

datatype ticker = NoTicker | Ticking | TickerDone

record engine_run =
  er_path :: run_path
  er_ticks :: u64
  er_cancelled :: bool
  er_phase :: run_phase
  er_deadline :: nat
  er_built_at :: nat
  er_ticker :: ticker
  er_count :: nat
  er_last :: nat

text \<open>Clocks count milliseconds; the epoch counts the increments of the engine.\<close>

record engine =
  en_epoch :: nat
  en_now :: nat
  en_lock :: "nat option"
  en_runs :: "nat \<Rightarrow> engine_run option"

definition engine_init :: engine where
  "engine_init = \<lparr>en_epoch = 0, en_now = 0, en_lock = None, en_runs = (\<lambda>_. None)\<rparr>"

definition set_run :: "nat \<Rightarrow> engine_run \<Rightarrow> engine \<Rightarrow> engine" where
  "set_run r run e = e\<lparr>en_runs := (en_runs e)(r \<mapsto> run)\<rparr>"

section \<open>The threads\<close>

text \<open>A call of \<open>run_wasi_inner\<close> or \<open>run_wasi_events_impl\<close>, up to its lock.\<close>

definition request_run :: "nat \<Rightarrow> run_path \<Rightarrow> resource_limits \<Rightarrow> engine \<Rightarrow> engine" where
  "request_run r path l e = (case en_runs e r of
     Some _ \<Rightarrow> e
   | None \<Rightarrow> set_run r \<lparr>er_path = path, er_ticks = epoch_ticks l, er_cancelled = False,
       er_phase = Waiting, er_deadline = 0, er_built_at = 0, er_ticker = NoTicker,
       er_count = 0, er_last = 0\<rparr> e)"

definition acquire :: "nat \<Rightarrow> engine_run \<Rightarrow> engine \<Rightarrow> engine" where
  "acquire r run e =
     (if er_phase run = Waiting \<and> en_lock e = None
      then (set_run r (run\<lparr>er_phase := Locked\<rparr>) e)\<lparr>en_lock := Some r\<rparr> else e)"

text \<open>\<open>set_epoch_deadline\<close> counts from the epoch it finds; an error returns at once.\<close>

definition build :: "nat \<Rightarrow> bool \<Rightarrow> engine_run \<Rightarrow> engine \<Rightarrow> engine" where
  "build r fails run e =
     (if er_phase run \<noteq> Locked then e
      else if fails then (set_run r (run\<lparr>er_phase := Finished\<rparr>) e)\<lparr>en_lock := None\<rparr>
      else set_run r (run\<lparr>er_phase := Built, er_deadline := en_epoch e + unat (er_ticks run),
             er_built_at := en_now e\<rparr>) e)"

text \<open>The watchdog or the reader is spawned and the guest called.\<close>

definition spawn :: "nat \<Rightarrow> engine_run \<Rightarrow> engine \<Rightarrow> engine" where
  "spawn r run e =
     (if er_phase run = Built
      then set_run r (run\<lparr>er_phase := InGuest, er_ticker := Ticking, er_last := en_now e\<rparr>) e else e)"

text \<open>
  One look of the watchdog or the reader at its handle and its clock.  On a cancellation
  the watchdog bursts once and returns, the reader bursts at every turn of its loop.
\<close>

definition tick :: "nat \<Rightarrow> engine_run \<Rightarrow> engine \<Rightarrow> engine" where
  "tick r run e =
     (if er_ticker run \<noteq> Ticking then e
      else if er_cancelled run
        then (set_run r (case er_path run of
                Capturing \<Rightarrow> run\<lparr>er_ticker := TickerDone\<rparr> | EventStreaming \<Rightarrow> run) e)
               \<lparr>en_epoch := en_epoch e + unat (er_ticks run)\<rparr>
      else if er_path run = Capturing \<and> unat (er_ticks run) \<le> er_count run
        then set_run r (run\<lparr>er_ticker := TickerDone\<rparr>) e
      else if en_now e - er_last run < 100 then e
      else (set_run r (run\<lparr>er_count := er_count run + 1, er_last := en_now e\<rparr>) e)
             \<lparr>en_epoch := en_epoch e + 1\<rparr>)"

text \<open>
  The thread ends: the watchdog on the stop message or the loss of its sender, the reader
  on the end of both streams, which only a returned call signals.
\<close>

definition stop_ticker :: "nat \<Rightarrow> engine_run \<Rightarrow> engine \<Rightarrow> engine" where
  "stop_ticker r run e =
     (if er_phase run = CallReturned \<or> er_phase run = Unwound \<and> er_path run = Capturing
      then set_run r (run\<lparr>er_ticker := TickerDone\<rparr>) e else e)"

definition guest_returns :: "nat \<Rightarrow> engine_run \<Rightarrow> engine \<Rightarrow> engine" where
  "guest_returns r run e =
     (if er_phase run = InGuest then set_run r (run\<lparr>er_phase := CallReturned\<rparr>) e else e)"

text \<open>The epoch check of a guest traps once the epoch has reached its deadline.\<close>

definition interruptible :: "nat \<Rightarrow> engine \<Rightarrow> bool" where
  "interruptible r e = (case en_runs e r of
     None \<Rightarrow> False | Some run \<Rightarrow> er_phase run = InGuest \<and> er_deadline run \<le> en_epoch e)"

definition join_run :: "nat \<Rightarrow> engine_run \<Rightarrow> engine \<Rightarrow> engine" where
  "join_run r run e =
     (if er_phase run = CallReturned \<and> er_ticker run = TickerDone
      then (set_run r (run\<lparr>er_phase := Finished\<rparr>) e)\<lparr>en_lock := None\<rparr> else e)"

text \<open>A panic in the call unwinds it: the guard releases the lock, nobody joins the thread.\<close>

definition unwind :: "nat \<Rightarrow> engine_run \<Rightarrow> engine \<Rightarrow> engine" where
  "unwind r run e =
     (if er_phase run = InGuest
      then (set_run r (run\<lparr>er_phase := Unwound\<rparr>) e)\<lparr>en_lock := None\<rparr> else e)"

datatype engine_action =
    Request nat run_path resource_limits
  | Acquire nat
  | Build nat bool
  | Spawn nat
  | Tick nat
  | StopTicker nat
  | GuestReturns nat
  | JoinRun nat
  | Unwind nat
  | CancelRun nat
  | Pass nat

definition on_run :: "nat \<Rightarrow> (engine_run \<Rightarrow> engine \<Rightarrow> engine) \<Rightarrow> engine \<Rightarrow> engine" where
  "on_run r f e = (case en_runs e r of None \<Rightarrow> e | Some run \<Rightarrow> f run e)"

text \<open>An action out of turn does nothing.\<close>

fun engine_step :: "engine \<Rightarrow> engine_action \<Rightarrow> engine" where
  "engine_step e (Request r path l) = request_run r path l e"
| "engine_step e (Acquire r) = on_run r (acquire r) e"
| "engine_step e (Build r fails) = on_run r (build r fails) e"
| "engine_step e (Spawn r) = on_run r (spawn r) e"
| "engine_step e (Tick r) = on_run r (tick r) e"
| "engine_step e (StopTicker r) = on_run r (stop_ticker r) e"
| "engine_step e (GuestReturns r) = on_run r (guest_returns r) e"
| "engine_step e (JoinRun r) = on_run r (join_run r) e"
| "engine_step e (Unwind r) = on_run r (unwind r) e"
| "engine_step e (CancelRun r) = on_run r (\<lambda>run. set_run r (run\<lparr>er_cancelled := True\<rparr>)) e"
| "engine_step e (Pass ms) = e\<lparr>en_now := en_now e + ms\<rparr>"

definition engine_history :: "engine_action list \<Rightarrow> engine" where
  "engine_history as = foldl engine_step engine_init as"

section \<open>The invariant\<close>

text \<open>
  A run that holds the lock is the only one whose thread can advance the epoch, so the
  epoch has moved since its store was built by exactly its own ticks, each 100ms after the
  last, as long as it is not cancelled.
\<close>

definition holds_lock :: "engine_run \<Rightarrow> bool" where
  "holds_lock run = (er_phase run \<in> {Locked, Built, InGuest, CallReturned})"

definition run_ok :: "engine \<Rightarrow> nat \<Rightarrow> engine_run \<Rightarrow> bool" where
  "run_ok e r run \<longleftrightarrow>
     (holds_lock run \<longrightarrow> en_lock e = Some r)
   \<and> (er_ticker run = Ticking \<longrightarrow> er_phase run \<in> {InGuest, CallReturned})
   \<and> (er_phase run \<in> {Waiting, Locked, Built} \<longrightarrow> er_count run = 0 \<and> er_ticker run = NoTicker)
   \<and> (er_phase run \<in> {Built, InGuest} \<longrightarrow> er_built_at run \<le> en_now e \<and>
        (er_cancelled run \<or> en_epoch e + unat (er_ticks run) = er_deadline run + er_count run))
   \<and> (er_phase run = InGuest \<longrightarrow> er_cancelled run \<or>
        er_built_at run + 100 * er_count run \<le> er_last run \<and> er_last run \<le> en_now e)"

definition engine_inv :: "engine \<Rightarrow> bool" where
  "engine_inv e \<longleftrightarrow> (\<forall>r run. en_runs e r = Some run \<longrightarrow> run_ok e r run)"

lemma run_ok_same:
  assumes "run_ok e r run" "\<not> holds_lock run \<or> en_lock e' = en_lock e \<and> en_epoch e' = en_epoch e"
    "en_now e' = en_now e"
  shows "run_ok e' r run"
proof (cases "holds_lock run")
  case True
  then have eq: "en_lock e' = en_lock e" "en_epoch e' = en_epoch e" using assms(2) by simp_all
  show ?thesis using assms(1) unfolding run_ok_def eq assms(3) .
next
  case False
  then consider "er_phase run = Waiting" | "er_phase run = Finished" | "er_phase run = Unwound"
    by (cases "er_phase run") (simp_all add: holds_lock_def)
  then show ?thesis using assms(1) False by cases (simp_all add: run_ok_def)
qed

text \<open>
  A step on one run that is good for it: either it leaves the lock and the epoch alone, or it
  comes from the holder, or it takes a free lock.
\<close>

lemma step_inv:
  assumes inv: "engine_inv e" and r: "en_runs e r = Some run"
    and e': "en_runs e' = (en_runs e)(r \<mapsto> run')" "en_now e' = en_now e"
    and new: "run_ok e' r run'"
    and share: "en_lock e' = en_lock e \<and> en_epoch e' = en_epoch e \<or> holds_lock run
      \<or> en_lock e = None"
  shows "engine_inv e'"
  unfolding engine_inv_def
proof (intro allI impI)
  fix r' run'' assume run'': "en_runs e' r' = Some run''"
  show "run_ok e' r' run''"
  proof (cases "r' = r")
    case True
    then show ?thesis using new run'' e' by simp
  next
    case False
    then have r': "en_runs e r' = Some run''" using run'' e' by simp
    have ok: "run_ok e r run" "run_ok e r' run''"
      using inv r r' unfolding engine_inv_def by blast+
    have lock: "holds_lock run \<Longrightarrow> en_lock e = Some r" "holds_lock run'' \<Longrightarrow> en_lock e = Some r'"
      using ok unfolding run_ok_def by blast+
    have "\<not> holds_lock run'' \<or> en_lock e' = en_lock e \<and> en_epoch e' = en_epoch e"
      using share lock False by (metis option.inject option.distinct(1))
    then show ?thesis using run_ok_same [OF ok(2)] e'(2) by blast
  qed
qed

lemma tick_ok:
  assumes inv: "engine_inv e" and r: "en_runs e r = Some run"
  shows "engine_inv (tick r run e)"
proof (cases "er_ticker run = Ticking")
  case False
  then show ?thesis using inv by (simp add: tick_def)
next
  case ticking: True
  have ok: "run_ok e r run" using inv r unfolding engine_inv_def by blast
  then have phase: "er_phase run = InGuest \<or> er_phase run = CallReturned"
    using ticking by (simp add: run_ok_def)
  then have held: "holds_lock run" by (auto simp: holds_lock_def)
  then have lock: "en_lock e = Some r" using ok by (simp add: run_ok_def)
  show ?thesis
  proof (cases "er_cancelled run")
    case True
    let ?run = "case er_path run of Capturing \<Rightarrow> run\<lparr>er_ticker := TickerDone\<rparr> | EventStreaming \<Rightarrow> run"
    have eq: "tick r run e = (set_run r ?run e)\<lparr>en_epoch := en_epoch e + unat (er_ticks run)\<rparr>"
      using ticking True by (simp add: tick_def)
    have "run_ok (tick r run e) r ?run"
      using ok phase lock True unfolding eq run_ok_def set_run_def holds_lock_def
      by (cases "er_path run") auto
    then show ?thesis using held by (intro step_inv [OF inv r]) (simp_all add: eq set_run_def)
  next
    case live: False
    consider (over) "er_path run = Capturing \<and> unat (er_ticks run) \<le> er_count run"
      | (early) "\<not> (er_path run = Capturing \<and> unat (er_ticks run) \<le> er_count run)" "en_now e - er_last run < 100"
      | (due) "\<not> (er_path run = Capturing \<and> unat (er_ticks run) \<le> er_count run)" "100 \<le> en_now e - er_last run"
      by fastforce
    then show ?thesis
    proof cases
      case over
      then have eq: "tick r run e = set_run r (run\<lparr>er_ticker := TickerDone\<rparr>) e"
        using ticking live by (simp add: tick_def)
      have "run_ok (tick r run e) r (run\<lparr>er_ticker := TickerDone\<rparr>)"
        using ok phase lock live unfolding eq run_ok_def set_run_def holds_lock_def by auto
      then show ?thesis using held by (intro step_inv [OF inv r]) (simp_all add: eq set_run_def)
    next
      case early
      then have "tick r run e = e" unfolding tick_def using ticking live by (simp only: if_False if_True) simp
      then show ?thesis using inv by simp
    next
      case due
      let ?run = "run\<lparr>er_count := er_count run + 1, er_last := en_now e\<rparr>"
      have eq: "tick r run e = (set_run r ?run e)\<lparr>en_epoch := en_epoch e + 1\<rparr>"
        unfolding tick_def using ticking live due by (simp only: if_False if_True not_less simp_thms) simp
      have "run_ok (tick r run e) r ?run"
        using ok phase lock live due unfolding eq run_ok_def set_run_def holds_lock_def by auto
      then show ?thesis using held by (intro step_inv [OF inv r]) (simp_all add: eq set_run_def)
    qed
  qed
qed

text \<open>The steps that move a run from one phase to the next.\<close>

lemma phase_ok:
  assumes inv: "engine_inv e" and r: "en_runs e r = Some run"
  shows "engine_inv (acquire r run e)" "engine_inv (build r fails run e)" "engine_inv (spawn r run e)"
    "engine_inv (stop_ticker r run e)" "engine_inv (guest_returns r run e)" "engine_inv (join_run r run e)"
    "engine_inv (set_run r (run\<lparr>er_cancelled := True\<rparr>) e)"
proof -
  have ok: "run_ok e r run" using inv r unfolding engine_inv_def by blast
  have step: "engine_inv e'"
    if "en_runs e' = (en_runs e)(r \<mapsto> run')" "en_now e' = en_now e" "en_epoch e' = en_epoch e"
      "run_ok e' r run'" "en_lock e' = en_lock e \<or> holds_lock run \<or> en_lock e = None" for e' run'
    by (rule step_inv [OF inv r that(1,2,4)]) (use that(3,5) in auto)
  show "engine_inv (acquire r run e)"
  proof (cases "er_phase run = Waiting \<and> en_lock e = None")
    case True
    show ?thesis
      by (rule step [of _ "run\<lparr>er_phase := Locked\<rparr>"])
        (use ok True in \<open>auto simp: acquire_def set_run_def run_ok_def holds_lock_def\<close>)
  qed (use inv in \<open>auto simp: acquire_def\<close>)
  show "engine_inv (build r fails run e)"
  proof (cases "er_phase run = Locked")
    case True
    show ?thesis
    proof (cases fails)
      case fails: True
      show ?thesis
        by (rule step [of _ "run\<lparr>er_phase := Finished\<rparr>"])
          (use ok True fails in \<open>auto simp: build_def set_run_def run_ok_def holds_lock_def\<close>)
    next
      case builds: False
      show ?thesis
        by (rule step [of _ "run\<lparr>er_phase := Built, er_deadline := en_epoch e + unat (er_ticks run),
             er_built_at := en_now e\<rparr>"])
          (use ok True builds in \<open>auto simp: build_def set_run_def run_ok_def holds_lock_def\<close>)
    qed
  qed (use inv in \<open>simp add: build_def\<close>)
  show "engine_inv (spawn r run e)"
  proof (cases "er_phase run = Built")
    case True
    show ?thesis
      by (rule step [of _ "run\<lparr>er_phase := InGuest, er_ticker := Ticking, er_last := en_now e\<rparr>"])
        (use ok True in \<open>auto simp: spawn_def set_run_def run_ok_def holds_lock_def\<close>)
  qed (use inv in \<open>simp add: spawn_def\<close>)
  show "engine_inv (stop_ticker r run e)"
  proof (cases "er_phase run = CallReturned \<or> er_phase run = Unwound \<and> er_path run = Capturing")
    case True
    then have phase: "er_phase run = CallReturned \<or> er_phase run = Unwound" by blast
    have eq: "stop_ticker r run e = set_run r (run\<lparr>er_ticker := TickerDone\<rparr>) e"
      using True unfolding stop_ticker_def by (rule if_P)
    have "run_ok (set_run r (run\<lparr>er_ticker := TickerDone\<rparr>) e) r (run\<lparr>er_ticker := TickerDone\<rparr>)"
      using phase by (rule disjE) (use ok in \<open>simp_all add: set_run_def run_ok_def holds_lock_def\<close>)
    then show ?thesis unfolding eq
      by (rule step [rotated 3]) (simp_all add: set_run_def)
  next
    case False
    then have "stop_ticker r run e = e" unfolding stop_ticker_def by (rule if_not_P)
    then show ?thesis using inv by simp
  qed
  show "engine_inv (guest_returns r run e)"
  proof (cases "er_phase run = InGuest")
    case True
    show ?thesis
      by (rule step [of _ "run\<lparr>er_phase := CallReturned\<rparr>"])
        (use ok True in \<open>auto simp: guest_returns_def set_run_def run_ok_def holds_lock_def\<close>)
  qed (use inv in \<open>simp add: guest_returns_def\<close>)
  show "engine_inv (join_run r run e)"
  proof (cases "er_phase run = CallReturned \<and> er_ticker run = TickerDone")
    case True
    show ?thesis
      by (rule step [of _ "run\<lparr>er_phase := Finished\<rparr>"])
        (use ok True in \<open>auto simp: join_run_def set_run_def run_ok_def holds_lock_def\<close>)
  qed (use inv in \<open>auto simp: join_run_def\<close>)
  show "engine_inv (set_run r (run\<lparr>er_cancelled := True\<rparr>) e)"
    by (rule step [of _ "run\<lparr>er_cancelled := True\<rparr>"])
      (use ok in \<open>auto simp: set_run_def run_ok_def holds_lock_def\<close>)
qed


definition unwinds :: "engine_action \<Rightarrow> bool" where
  "unwinds a = (case a of Unwind _ \<Rightarrow> True | _ \<Rightarrow> False)"

lemma engine_step_inv:
  assumes inv: "engine_inv e" and "\<not> unwinds a"
  shows "engine_inv (engine_step e a)"
proof -
  have on_run: "engine_inv (on_run r f e)"
    if "\<And>run. en_runs e r = Some run \<Longrightarrow> engine_inv (f run e)" for r f
    using that inv by (cases "en_runs e r") (simp_all add: on_run_def)
  note ok = tick_ok [OF inv] phase_ok [OF inv]
  show ?thesis
  proof (cases a)
    case (Request r path l)
    have "engine_inv (request_run r path l e)"
    proof (cases "en_runs e r")
      case None
      let ?new = "\<lparr>er_path = path, er_ticks = epoch_ticks l, er_cancelled = False, er_phase = Waiting,
        er_deadline = 0, er_built_at = 0, er_ticker = NoTicker, er_count = 0, er_last = 0\<rparr>"
      have "run_ok (set_run r ?new e) r' run" if "run_ok e r' run" for r' run
        by (rule run_ok_same [OF that]) (simp_all add: set_run_def)
      moreover have "run_ok (set_run r ?new e) r ?new" by (simp add: run_ok_def holds_lock_def)
      ultimately show ?thesis using inv None
        by (simp add: engine_inv_def request_run_def set_run_def)
    qed (use inv in \<open>simp add: request_run_def\<close>)
    then show ?thesis using Request by simp
  next
    case (Pass ms)
    have "run_ok (e\<lparr>en_now := en_now e + ms\<rparr>) r run" if "run_ok e r run" for r run
      using that by (cases "er_phase run"; cases "er_cancelled run")
        (simp_all add: run_ok_def holds_lock_def trans_le_add1)
    then show ?thesis using inv Pass by (simp add: engine_inv_def)
  next
    case (Unwind r)
    then show ?thesis using assms(2) by (simp add: unwinds_def)
  qed (simp_all add: on_run ok)
qed

lemma engine_history_inv:
  "list_all (\<lambda>a. \<not> unwinds a) as \<Longrightarrow> engine_inv (engine_history as)"
proof -
  have "engine_inv e \<Longrightarrow> list_all (\<lambda>a. \<not> unwinds a) as \<Longrightarrow> engine_inv (foldl engine_step e as)" for e
    by (induction as arbitrary: e) (simp_all add: engine_step_inv)
  moreover have "engine_inv engine_init" by (simp add: engine_inv_def engine_init_def)
  ultimately show "list_all (\<lambda>a. \<not> unwinds a) as \<Longrightarrow> engine_inv (engine_history as)"
    by (simp add: engine_history_def)
qed

section \<open>Properties\<close>

text \<open>
  C14. Runs on one engine do not disturb each other: in any history of any number of runs in
  which no call panics, a guest can be interrupted only when its own session was cancelled
  or its own timeout has passed since its deadline was set, a hundred milliseconds for each
  epoch of the deadline.
\<close>

theorem runs_are_isolated:
  assumes "list_all (\<lambda>a. \<not> unwinds a) as"
    and "en_runs (engine_history as) r = Some run" and "interruptible r (engine_history as)"
  shows "er_cancelled run
    \<or> er_built_at run + 100 * unat (er_ticks run) \<le> en_now (engine_history as)"
proof -
  let ?e = "engine_history as"
  have "run_ok ?e r run"
    using engine_history_inv [OF assms(1)] assms(2) by (simp add: engine_inv_def)
  moreover have "er_phase run = InGuest" "er_deadline run \<le> en_epoch ?e"
    using assms(2,3) by (simp_all add: interruptible_def)
  ultimately have "er_cancelled run \<or> unat (er_ticks run) \<le> er_count run
      \<and> er_built_at run + 100 * er_count run \<le> en_now ?e"
    by (auto simp: run_ok_def)
  then show ?thesis by auto
qed

text \<open>Two runs, one after the other; the second waits for the lock while the first is cancelled.\<close>

definition two_runs :: "resource_limits \<Rightarrow> engine_action list" where
  "two_runs l = [Request 0 EventStreaming l, Request 1 Capturing l, Acquire 0, Acquire 1, Build 0 False,
     Spawn 0, CancelRun 0, Tick 0, GuestReturns 0, StopTicker 0, JoinRun 0,
     Acquire 1, Build 1 False, Spawn 1]"

theorem runs_are_isolated_witness:
  "interruptible 0 (engine_history (take 8 (two_runs DEFAULT_LIMITS)))
   \<and> (\<exists>run. en_runs (engine_history (take 8 (two_runs DEFAULT_LIMITS))) 0 = Some run
       \<and> (er_cancelled run \<or> er_built_at run + 100 * unat (er_ticks run) \<le> 0))"
proof -
  let ?as = "take 8 (two_runs DEFAULT_LIMITS)"
  have quiet: "list_all (\<lambda>a. \<not> unwinds a) ?as" by (simp add: two_runs_def unwinds_def)
  have int: "interruptible 0 (engine_history ?as)" and now: "en_now (engine_history ?as) = 0"
    by (simp_all add: two_runs_def engine_history_def engine_init_def on_run_def request_run_def set_run_def
        acquire_def build_def spawn_def tick_def interruptible_def)
  then obtain run where "en_runs (engine_history ?as) 0 = Some run"
    by (auto simp: interruptible_def split: option.splits)
  then show ?thesis using runs_are_isolated [OF quiet _ int] int now by auto
qed

text \<open>
  C29. A panic breaks the isolation: after the call of a cancelled streaming run has
  panicked, its reader is still there and interrupts the next run on the engine, which
  nobody cancelled, without any time passing, whatever the limits.
\<close>

theorem leaked_reader_interrupts_others:
  "\<exists>as run. en_runs (engine_history as) 1 = Some run \<and> interruptible 1 (engine_history as)
     \<and> \<not> er_cancelled run \<and> er_ticks run = epoch_ticks l \<and> en_now (engine_history as) = er_built_at run"
proof -
  let ?as = "[Request 0 EventStreaming l, Acquire 0, Build 0 False, Spawn 0, CancelRun 0, Unwind 0,
     Request 1 Capturing l, Acquire 1, Build 1 False, Spawn 1, Tick 0]"
  have "interruptible 1 (engine_history ?as)"
    "\<exists>run. en_runs (engine_history ?as) 1 = Some run \<and> \<not> er_cancelled run \<and> er_ticks run = epoch_ticks l
       \<and> en_now (engine_history ?as) = er_built_at run"
    by (simp_all add: engine_history_def engine_init_def on_run_def request_run_def set_run_def
        acquire_def build_def spawn_def tick_def unwind_def interruptible_def)
  then show ?thesis by blast
qed

end
