(* ===== verification/Engine_Threads.thy ===== *)
theory Engine_Threads
  imports Engine
begin

text \<open>
  The thread of a run, seen twice.  \<open>Streaming\<close> has the reader with its pipes and counts the
  increments it makes, \<open>Runtime\<close> has the watchdog as the loop it is, and \<open>Engine\<close> has both as
  one \<open>Tick\<close> among the runs that share the engine.  Here the first two are mapped to actions of
  the third: the epoch and the clock of the engine move as the detailed models say.
\<close>

section \<open>The reader of a streaming run\<close>

text \<open>What the engine sees of an interleaving: the passing of time and the reader's looks.\<close>

fun reader_view :: "nat \<Rightarrow> usize \<Rightarrow> u64 \<Rightarrow> streaming \<Rightarrow> stream_action list \<Rightarrow> engine_action list" where
  "reader_view r budget ticks s [] = []"
| "reader_view r budget ticks s (a # as) = (case a of
       Elapse ms \<Rightarrow> [Pass ms]
     | ReaderStep timed_out cancelled \<Rightarrow>
         if sr_pc s \<noteq> CheckCancel then []
         else if cancelled then [CancelRun r, Tick r] else [Tick r]
     | _ \<Rightarrow> []) @ reader_view r budget ticks (stream_step budget ticks s a) as"

text \<open>A handle that was found raised stays raised.\<close>

fun steady :: "usize \<Rightarrow> u64 \<Rightarrow> bool \<Rightarrow> streaming \<Rightarrow> stream_action list \<Rightarrow> bool" where
  "steady budget ticks raised s [] = True"
| "steady budget ticks raised s (a # as) = (case a of
       ReaderStep timed_out cancelled \<Rightarrow>
         if sr_pc s \<noteq> CheckCancel then steady budget ticks raised (stream_step budget ticks s a) as
         else (raised \<longrightarrow> cancelled) \<and> steady budget ticks cancelled (stream_step budget ticks s a) as
     | _ \<Rightarrow> steady budget ticks raised (stream_step budget ticks s a) as)"

text \<open>
  The engine at the reader's state: \<open>epoch\<close> and \<open>now\<close> are those at the spawn of the reader.
\<close>

definition same_reader :: "nat \<Rightarrow> engine_run \<Rightarrow> nat \<Rightarrow> nat \<Rightarrow> bool \<Rightarrow> streaming \<Rightarrow> engine \<Rightarrow> bool" where
  "same_reader r run0 epoch now raised s e \<longleftrightarrow>
     en_epoch e = epoch + sr_epoch s \<and> en_now e = now + sr_now s \<and> sr_last_tick s \<le> sr_now s
   \<and> (\<exists>run. en_runs e r = Some run \<and> er_path run = EventStreaming \<and> er_ticker run = Ticking
        \<and> er_phase run = er_phase run0 \<and> er_deadline run = er_deadline run0 \<and> er_ticks run = er_ticks run0
        \<and> er_cancelled run = raised \<and> er_last run = now + sr_last_tick s)"

lemma same_reader_pass:
  "same_reader r run0 epoch now raised s e \<Longrightarrow>
     same_reader r run0 epoch now raised (s\<lparr>sr_now := sr_now s + ms\<rparr>) (engine_step e (Pass ms))"
  by (auto simp: same_reader_def)

text \<open>A step of the stream that is neither a look nor time leaves the engine alone.\<close>

lemma same_reader_frame:
  assumes "same_reader r run0 epoch now raised s e"
    and "sr_epoch s' = sr_epoch s" "sr_now s' = sr_now s" "sr_last_tick s' = sr_last_tick s"
  shows "same_reader r run0 epoch now raised s' e"
  using assms by (simp add: same_reader_def)

lemma reader_step_frame:
  assumes "sr_pc s \<noteq> CheckCancel"
  shows "sr_epoch (reader_step budget ticks timed_out cancelled s) = sr_epoch s"
    "sr_now (reader_step budget ticks timed_out cancelled s) = sr_now s"
    "sr_last_tick (reader_step budget ticks timed_out cancelled s) = sr_last_tick s"
  using assms by (auto simp: reader_step_def Let_def split: reader_pc.split prod.split)

lemma same_reader_look:
  assumes "same_reader r run0 epoch now raised s e" "sr_pc s = CheckCancel" "raised \<longrightarrow> cancelled"
    and "ticks = er_ticks run0"
  shows "same_reader r run0 epoch now cancelled (reader_step budget ticks timed_out cancelled s)
    (foldl engine_step e (if cancelled then [CancelRun r, Tick r] else [Tick r]))"
  using assms
  by (auto simp: same_reader_def reader_step_def on_run_def tick_def set_run_def)

lemma view_follows:
  assumes "same_reader r run0 epoch now raised s e" "steady budget (er_ticks run0) raised s as"
  shows "\<exists>raised'. same_reader r run0 epoch now raised' (foldl (stream_step budget (er_ticks run0)) s as)
    (foldl engine_step e (reader_view r budget (er_ticks run0) s as))"
  using assms
proof (induction as arbitrary: raised s e)
  case (Cons a as)
  let ?s = "stream_step budget (er_ticks run0) s a"
  have same: "\<exists>raised'. same_reader r run0 epoch now raised' (foldl (stream_step budget (er_ticks run0)) ?s as)
      (foldl engine_step e (reader_view r budget (er_ticks run0) ?s as))"
    if "sr_epoch ?s = sr_epoch s" "sr_now ?s = sr_now s" "sr_last_tick ?s = sr_last_tick s"
      "steady budget (er_ticks run0) raised ?s as"
    using Cons.IH [OF same_reader_frame [OF Cons.prems(1) that(1-3)] that(4)] .
  show ?case
  proof (cases a)
    case (Elapse ms)
    then show ?thesis
      using Cons.IH [OF same_reader_pass [OF Cons.prems(1), of ms]] Cons.prems(2) by simp
  next
    case (ReaderStep timed_out cancelled)
    show ?thesis
    proof (cases "sr_pc s = CheckCancel")
      case True
      then have "raised \<longrightarrow> cancelled" "steady budget (er_ticks run0) cancelled ?s as"
        using Cons.prems(2) ReaderStep by simp_all
      with same_reader_look [OF Cons.prems(1) True _ refl, of cancelled budget timed_out] show ?thesis
        using Cons.IH ReaderStep True by (cases cancelled) auto
    next
      case False
      then show ?thesis
        using same reader_step_frame [OF False] Cons.prems(2) ReaderStep by simp
    qed
  qed (use same Cons.prems(2) in \<open>auto simp: on_pipe_def split: stream.split\<close>)
qed auto

section \<open>The watchdog of a capturing run\<close>

text \<open>The turns of its loop: a look, and a wait of 100ms that the stop message ends.\<close>

function watchdog_view :: "nat \<Rightarrow> (nat \<Rightarrow> bool) \<Rightarrow> (nat \<Rightarrow> bool) \<Rightarrow> u64 \<Rightarrow> nat \<Rightarrow> u64 \<Rightarrow> engine_action list" where
  "watchdog_view r cancelled stopped deadline i ticks =
     (if cancelled i then [CancelRun r, Tick r]
      else if deadline \<le> ticks then [Tick r]
      else if stopped i then []
      else [Pass 100, Tick r] @ watchdog_view r cancelled stopped deadline (Suc i) (ticks + 1))"
  by pat_completeness auto
termination
proof (relation "measure (\<lambda>(_, _, _, deadline, _, ticks). unat deadline - unat ticks)", goal_cases)
  case (2 r cancelled stopped deadline i ticks)
  then have "unat ticks < unat deadline" by (simp add: word_le_nat_alt)
  moreover from this have "unat (ticks + 1) = unat ticks + 1"
    using unat_lt_2_64 [of deadline] unat_add_len [of ticks 1] by simp
  ultimately show ?case by simp
qed simp

declare watchdog_view.simps [simp del]

definition same_watchdog :: "nat \<Rightarrow> u64 \<Rightarrow> u64 \<Rightarrow> engine \<Rightarrow> bool" where
  "same_watchdog r deadline ticks e \<longleftrightarrow>
     (\<exists>run. en_runs e r = Some run \<and> er_path run = Capturing \<and> er_ticker run = Ticking
        \<and> er_ticks run = deadline \<and> \<not> er_cancelled run \<and> er_count run = unat ticks \<and> er_last run \<le> en_now e)"

lemma watchdog_follows:
  assumes "same_watchdog r deadline ticks e"
  shows "en_epoch (foldl engine_step e (watchdog_view r cancelled stopped deadline i ticks))
    = en_epoch e + watchdog_loop cancelled stopped deadline i ticks"
  using assms
proof (induction cancelled stopped deadline i ticks arbitrary: e rule: watchdog_loop.induct)
  case (1 cancelled stopped deadline i ticks)
  obtain run where run: "en_runs e r = Some run" "er_path run = Capturing" "er_ticker run = Ticking"
    "er_ticks run = deadline" "\<not> er_cancelled run" "er_count run = unat ticks" "er_last run \<le> en_now e"
    using 1(2) by (auto simp: same_watchdog_def)
  note unfold = watchdog_view.simps [of r cancelled stopped deadline i ticks]
    watchdog_loop.simps [of cancelled stopped deadline i ticks]
  show ?case
  proof (cases "cancelled i \<or> deadline \<le> ticks \<or> stopped i")
    case True
    then show ?thesis using run
      by (auto simp: unfold on_run_def tick_def set_run_def word_le_nat_alt)
  next
    case False
    then have less: "unat ticks < unat deadline" by (simp add: word_le_nat_alt)
    then have next_tick: "unat (ticks + 1) = unat ticks + 1"
      using unat_lt_2_64 [of deadline] unat_add_len [of ticks 1] by simp
    let ?e = "foldl engine_step e [Pass 100, Tick r]"
    have "?e = (set_run r (run\<lparr>er_count := er_count run + 1, er_last := en_now e + 100\<rparr>)
        (e\<lparr>en_now := en_now e + 100\<rparr>))\<lparr>en_epoch := en_epoch e + 1\<rparr>"
      using run less by (simp add: on_run_def tick_def)
    then have e': "en_epoch ?e = en_epoch e + 1" "same_watchdog r deadline (ticks + 1) ?e"
      using run next_tick by (simp_all add: same_watchdog_def set_run_def)
    show ?thesis using 1(1) [OF _ _ _ e'(2)] e'(1) False by (simp add: unfold)
  qed
qed

section \<open>When a guest is interrupted\<close>

text \<open>Time and the threads that tick leave a run where it is, with the deadline of its store.\<close>

fun thread_action :: "engine_action \<Rightarrow> bool" where
  "thread_action (Pass _) = True"
| "thread_action (Tick _) = True"
| "thread_action (CancelRun _) = True"
| "thread_action _ = False"

lemma thread_action_keeps:
  assumes "thread_action a" "en_runs e r = Some run"
  shows "\<exists>run'. en_runs (engine_step e a) r = Some run' \<and> er_phase run' = er_phase run
    \<and> er_deadline run' = er_deadline run"
  using assms
  by (cases a) (auto simp: on_run_def tick_def set_run_def split: option.split run_path.split)

lemma interruptible_view:
  assumes "list_all thread_action as" "en_runs e r = Some run" "er_phase run = InGuest"
  shows "interruptible r (foldl engine_step e as) \<longleftrightarrow> er_deadline run \<le> en_epoch (foldl engine_step e as)"
  using assms
proof (induction as arbitrary: e run)
  case (Cons a as)
  obtain run' where "en_runs (engine_step e a) r = Some run'" "er_phase run' = er_phase run"
    "er_deadline run' = er_deadline run"
    using thread_action_keeps [of a e r run] Cons.prems by auto
  then show ?case using Cons.IH [of "engine_step e a" run'] Cons.prems by simp
qed (simp add: interruptible_def)

lemma reader_view_actions: "list_all thread_action (reader_view r budget ticks s as)"
  by (induction as arbitrary: s) (simp_all split: stream_action.split)

lemma watchdog_view_actions: "list_all thread_action (watchdog_view r cancelled stopped deadline i ticks)"
proof (induction r cancelled stopped deadline i ticks rule: watchdog_view.induct)
  case (1 r cancelled stopped deadline i ticks)
  then show ?case by (subst watchdog_view.simps) simp
qed

section \<open>Properties\<close>

text \<open>
  C15. The reader drives the shared engine as its own model says: from the call of the guest
  on, whatever guest and reader do with the pipes and however time passes, the engine's
  epoch has moved by exactly the reader's increments and its clock by the time of the
  stream, and the guest is interruptible in the engine exactly if these increments
  have reached the deadline of the run's timeout.
\<close>

theorem reader_drives_engine:
  assumes "en_runs e r = Some run" and "er_path run = EventStreaming" and "er_phase run = InGuest"
    and "er_ticker run = Ticking" and "\<not> er_cancelled run" and "er_last run = en_now e"
    and "er_deadline run = en_epoch e + unat (er_ticks run)"
    and "steady budget (er_ticks run) False (streaming_init budget) as"
  shows "let s = stream_run budget (er_ticks run) as;
      e' = foldl engine_step e (reader_view r budget (er_ticks run) (streaming_init budget) as)
    in en_epoch e' = en_epoch e + sr_epoch s \<and> en_now e' = en_now e + sr_now s
      \<and> (interruptible r e' \<longleftrightarrow> deadline_reached (er_ticks run) (sr_epoch s))"
proof -
  let ?s = "stream_run budget (er_ticks run) as"
  let ?e = "foldl engine_step e (reader_view r budget (er_ticks run) (streaming_init budget) as)"
  have "same_reader r run (en_epoch e) (en_now e) False (streaming_init budget) e"
    using assms(1-6) by (simp add: same_reader_def streaming_init_def)
  from view_follows [OF this assms(8)] have "en_epoch ?e = en_epoch e + sr_epoch ?s" "en_now ?e = en_now e + sr_now ?s"
    by (auto simp: same_reader_def stream_run_def)
  then show ?thesis
    using interruptible_view [OF reader_view_actions assms(1,3)] assms(7)
    by (simp add: deadline_reached_def Let_def)
qed

definition example_streaming_engine :: engine where
  "example_streaming_engine =
     engine_history [Request 0 EventStreaming DEFAULT_LIMITS, Acquire 0, Build 0 False, Spawn 0]"

theorem reader_drives_engine_witness:
  "en_epoch (foldl engine_step example_streaming_engine [Pass 100, Tick 0]) = 1
   \<and> \<not> interruptible 0 (foldl engine_step example_streaming_engine [Pass 100, Tick 0])"
proof -
  let ?as = "[Elapse 100, ReaderStep True False, ReaderStep True False, ReaderStep True False, ReaderStep True False]"
  let ?e = example_streaming_engine and ?ticks = "epoch_ticks DEFAULT_LIMITS"
  obtain run where run: "en_runs ?e 0 = Some run" "er_path run = EventStreaming" "er_phase run = InGuest"
    "er_ticker run = Ticking" "\<not> er_cancelled run" "er_last run = en_now ?e"
    "er_deadline run = en_epoch ?e + unat (er_ticks run)" "er_ticks run = ?ticks" "en_epoch ?e = 0"
    by (simp add: example_streaming_engine_def engine_history_def engine_init_def request_run_def set_run_def
        on_run_def acquire_def build_def spawn_def)
  have view: "steady 10 ?ticks False (streaming_init 10) ?as"
    "reader_view 0 10 ?ticks (streaming_init 10) ?as = [Pass 100, Tick 0]"
    "sr_epoch (stream_run 10 ?ticks ?as) = 1"
    by (simp_all add: stream_run_def streaming_init_def reader_step_def pipe_new_def wait_ends_def wait_and_drain_def
        forward_def)
  have "1 < unat ?ticks" by (simp add: unat_epoch_ticks DEFAULT_LIMITS_def)
  moreover have "steady 10 (er_ticks run) False (streaming_init 10) ?as" using view(1) run(8) by simp
  note reader_drives_engine [OF run(1-7) this, unfolded run(8,9) view(2,3) Let_def deadline_reached_def]
  ultimately show ?thesis by (simp del: foldl_Cons engine_step.simps)
qed

text \<open>
  The watchdog drives the shared engine as its own model says: with the looks at the handle and
  the stop messages it finds, the engine's epoch moves by exactly the increments of its
  loop, and the guest is interruptible in the engine exactly if they have reached the
  deadline.
\<close>

theorem watchdog_drives_engine:
  assumes "en_runs e r = Some run" and "er_path run = Capturing" and "er_phase run = InGuest"
    and "er_ticker run = Ticking" and "\<not> er_cancelled run" and "er_last run \<le> en_now e"
    and "er_count run = 0" and "er_deadline run = en_epoch e + unat (er_ticks run)"
  shows "let increments = watchdog cancelled stopped (er_ticks run);
      e' = foldl engine_step e (watchdog_view r cancelled stopped (er_ticks run) 0 0)
    in en_epoch e' = en_epoch e + increments \<and> (interruptible r e' \<longleftrightarrow> deadline_reached (er_ticks run) increments)"
proof -
  let ?e = "foldl engine_step e (watchdog_view r cancelled stopped (er_ticks run) 0 0)"
  have "same_watchdog r (er_ticks run) 0 e" using assms(1-7) by (simp add: same_watchdog_def)
  from watchdog_follows [OF this, of cancelled stopped 0]
  have "en_epoch ?e = en_epoch e + watchdog cancelled stopped (er_ticks run)" by (simp add: watchdog_def)
  then show ?thesis
    using interruptible_view [OF watchdog_view_actions assms(1,3)] assms(8) by (simp add: deadline_reached_def Let_def)
qed

end
