(* ===== verification/Conformance.thy ===== *)
theory Conformance
  imports Runtime Native Pipe Cancel Engine
begin

text \<open>
  The crate's own unit tests, run on the model: each \<open>#[test]\<close> whose outcome does not depend
  on a guest's code is a definition here, with the calls and assertions of the
  source in their order, and a lemma says that it passes; the tests of \<open>broker.rs\<close> are in the
  theory \<open>Broker_Tests\<close>.  A disagreement between the model
  and the code on one of these inputs would be a lemma that fails.  \<open>tmp\<close> is
  \<open>std::env::temp_dir()\<close> and \<open>pid\<close> the text of the process id; the lemmas take a Unix host's.
\<close>

section \<open>Assertions\<close>

text \<open>\<open>expect\<close> goes on with the value or fails the test; \<open>refused\<close> is \<open>matches!(.., Err(p))\<close>.\<close>

definition expect :: "'e + 'a \<Rightarrow> ('a \<Rightarrow> bool) \<Rightarrow> bool" where
  "expect r k = (case r of Inl _ \<Rightarrow> False | Inr v \<Rightarrow> k v)"

definition refused :: "('e \<Rightarrow> bool) \<Rightarrow> 'e + 'a \<Rightarrow> bool" where
  "refused p r = (case r of Inl e \<Rightarrow> p e | Inr _ \<Rightarrow> False)"

lemma expect_simps [simp]: "expect (Inr v) k = k v" "expect (Inl e) k = False"
  by (simp_all add: expect_def)

lemma refused_simps [simp]: "refused p (Inl e) = p e" "refused p (Inr v) = False"
  by (simp_all add: refused_def)

definition invalid_path :: "capability_error \<Rightarrow> bool" where
  "invalid_path e = (case e of InvalidPath _ \<Rightarrow> True | _ \<Rightarrow> False)"

definition invalid_environment_name :: "capability_error \<Rightarrow> bool" where
  "invalid_environment_name e = (case e of InvalidEnvironmentName _ \<Rightarrow> True | _ \<Rightarrow> False)"

section \<open>\<open>capability.rs\<close>\<close>

definition rejects_relative_and_parent_paths :: bool where
  "rejects_relative_and_parent_paths =
     (refused invalid_path (filesystem_grant_new ''workspace'' Read)
      \<and> refused invalid_path (filesystem_grant_new ''/workspace/../secrets'' Read))"

definition rejects_zero_fuel_and_zero_memory_limits :: bool where
  "rejects_zero_fuel_and_zero_memory_limits =
     expect (limits_new 1024 30) (\<lambda>limits.
       \<not> is_ok (with_fuel limits 0) \<and> \<not> is_ok (with_memory_bytes limits 0)
       \<and> rl_max_fuel limits = 1000000)"

definition unlimited_fuel_uses_the_sentinel :: bool where
  "unlimited_fuel_uses_the_sentinel =
     expect (limits_new 1024 30) (\<lambda>limits. rl_max_fuel (with_unlimited_fuel limits) = u64_max)"

definition rejects_malformed_environment_names :: bool where
  "rejects_malformed_environment_names =
     refused invalid_environment_name (allow_environment grant_empty ''TOKEN=value'')"

definition rejects_port_zero_on_connect_and_bind :: bool where
  "rejects_port_zero_on_connect_and_bind =
     (refused (\<lambda>e. e = InvalidLoopbackPort 0) (allow_loopback_port grant_empty 0)
      \<and> refused (\<lambda>e. e = InvalidLoopbackPort 0) (allow_loopback_bind_port grant_empty 0))"

definition bind_allowlist_is_separate_and_empty_by_default :: bool where
  "bind_allowlist_is_separate_and_empty_by_default =
     expect (allow_loopback_port grant_empty 3000) (\<lambda>grant.
       allows_loopback_port grant 3000 \<and> \<not> allows_loopback_bind_port grant 3000
       \<and> expect (allow_loopback_bind_port grant 3001) (\<lambda>grant.
            allows_loopback_bind_port grant 3001 \<and> \<not> allows_loopback_port grant 3001
            \<and> \<not> allows_loopback_bind_port grant 3000))"

text \<open>The directories and the symbolic link the test creates, as \<open>canonicalize\<close> sees them.\<close>

definition linked_files :: "path \<Rightarrow> path \<Rightarrow> string \<Rightarrow> path \<Rightarrow> path option" where
  "linked_files root outside link p =
     (if p = root then Some root
      else if p = outside then Some outside
      else if p = path_push root link then Some outside
      else if p = path_push root (link @ ''/secret.txt'') then Some (path_push outside ''secret.txt'')
      else None)"

definition existing_path_check_rejects_a_symlink_that_leaves_the_grant :: "path \<Rightarrow> string \<Rightarrow> bool" where
  "existing_path_check_rejects_a_symlink_that_leaves_the_grant tmp pid =
     (let root = path_push tmp (''ferrous-capability-root-'' @ pid);
          outside = path_push tmp (''ferrous-capability-outside-'' @ pid)
      in expect (grant_workspace root Read) (\<lambda>grant.
           let escaped = path_push root ''link/secret.txt''
           in allows_path grant escaped
              \<and> \<not> allows_existing_path (linked_files root outside ''link'') grant escaped))"

lemma capability_tests_pass:
  "rejects_relative_and_parent_paths" "rejects_zero_fuel_and_zero_memory_limits"
  "unlimited_fuel_uses_the_sentinel" "rejects_malformed_environment_names"
  "rejects_port_zero_on_connect_and_bind" "bind_allowlist_is_separate_and_empty_by_default"
  "existing_path_check_rejects_a_symlink_that_leaves_the_grant ''/tmp'' ''42''"
proof -
  show "rejects_relative_and_parent_paths" "rejects_malformed_environment_names" by code_simp+
  show "rejects_zero_fuel_and_zero_memory_limits" "unlimited_fuel_uses_the_sentinel"
    by (simp_all add: rejects_zero_fuel_and_zero_memory_limits_def unlimited_fuel_uses_the_sentinel_def
        limits_new_def with_fuel_def with_memory_bytes_def with_unlimited_fuel_def DEFAULT_LIMITS_def)
  show "rejects_port_zero_on_connect_and_bind" "bind_allowlist_is_separate_and_empty_by_default"
    by (simp_all add: rejects_port_zero_on_connect_and_bind_def allow_loopback_port_def
        bind_allowlist_is_separate_and_empty_by_default_def allow_loopback_bind_port_def
        allows_loopback_port_def allows_loopback_bind_port_def grant_empty_def)
  show "existing_path_check_rejects_a_symlink_that_leaves_the_grant ''/tmp'' ''42''" by code_simp
qed

section \<open>\<open>cancel.rs\<close>\<close>

definition fresh_handle_is_not_cancelled :: "cancel_store \<Rightarrow> bool" where
  "fresh_handle_is_not_cancelled m = (case cancel_handle_new m of (handle, m1) \<Rightarrow> \<not> is_cancelled m1 handle)"

definition cancel_flips_the_flag_and_is_idempotent :: "cancel_store \<Rightarrow> bool" where
  "cancel_flips_the_flag_and_is_idempotent m = (case cancel_handle_new m of (handle, m1) \<Rightarrow>
     let m2 = cancel_handle_cancel m1 handle; m3 = cancel_handle_cancel m2 handle
     in is_cancelled m2 handle \<and> is_cancelled m3 handle)"

definition cloned_handles_share_the_signal :: "cancel_store \<Rightarrow> bool" where
  "cloned_handles_share_the_signal m = (case cancel_handle_new m of (handle, m1) \<Rightarrow>
     let clone = cancel_handle_clone handle
     in is_cancelled (cancel_handle_cancel m1 handle) clone)"

lemma cancel_tests_pass:
  "fresh_handle_is_not_cancelled m" "cancel_flips_the_flag_and_is_idempotent m"
  "cloned_handles_share_the_signal m"
  by (simp_all add: fresh_handle_is_not_cancelled_def cancel_flips_the_flag_and_is_idempotent_def
      cloned_handles_share_the_signal_def cancel_handle_new_def cancel_handle_cancel_def is_cancelled_def
      cancel_handle_clone_def)

section \<open>\<open>command.rs\<close>\<close>

definition absolute_test_workspace :: "path \<Rightarrow> path" where
  "absolute_test_workspace tmp = path_push tmp ''ferrous-test-workspace''"

definition native_request_with_workspace_and_grant_is_valid :: "path \<Rightarrow> bool" where
  "native_request_with_workspace_and_grant_is_valid tmp =
     (let workspace = absolute_test_workspace tmp
      in expect (grant_workspace workspace Read) (\<lambda>g.
           let grant = allow_native_execution g
           in is_ok (command_request_new 1 Human Native ''cargo'' [''test''] workspace grant)))"

lemma command_tests_pass: "native_request_with_workspace_and_grant_is_valid ''/tmp''"
  by code_simp


section \<open>\<open>pipe.rs\<close>\<close>

definition raw :: "string \<Rightarrow> bytes" where
  "raw s = map of_char s"

definition trapped :: "stream_error \<Rightarrow> bool" where
  "trapped e = (case e of Trap _ \<Rightarrow> True | _ \<Rightarrow> False)"

text \<open>A write that must succeed goes on with the pipe after it.\<close>

definition written_then :: "stream_pipe \<Rightarrow> string \<Rightarrow> (stream_pipe \<Rightarrow> bool) \<Rightarrow> bool" where
  "written_then p s k = (case pipe_write p (raw s) of (p1, r) \<Rightarrow> expect r (\<lambda>_. k p1))"

definition written_bytes_are_drained_incrementally :: bool where
  "written_bytes_are_drained_incrementally =
     written_then (pipe_new 1024) ''hello '' (\<lambda>pipe.
       case wait_and_drain pipe of ((first, _), pipe1) \<Rightarrow>
         first = raw ''hello '' \<and> (case wait_and_drain pipe1 of ((second, _), _) \<Rightarrow> second = []))"

definition eof_is_reported_after_set_eof :: bool where
  "eof_is_reported_after_set_eof =
     (case wait_and_drain (set_eof (pipe_new 1024)) of ((bytes, eof), _) \<Rightarrow> bytes = [] \<and> eof)"

definition write_beyond_capacity_is_a_trap :: bool where
  "write_beyond_capacity_is_a_trap =
     written_then (pipe_new 4) ''1234'' (\<lambda>pipe. refused trapped (snd (pipe_write pipe (raw ''5''))))"

definition full_pipe_reports_closed_on_check_write :: bool where
  "full_pipe_reports_closed_on_check_write =
     written_then (pipe_new 2) ''ab'' (\<lambda>pipe. refused (\<lambda>e. e = Closed) (check_write pipe))"

definition closed_pipe_rejects_further_writes :: bool where
  "closed_pipe_rejects_further_writes =
     (let pipe = pipe_close (pipe_new 1024)
      in refused (\<lambda>e. e = Closed) (snd (pipe_write pipe (raw ''x'')))
         \<and> refused (\<lambda>e. e = Closed) (check_write pipe)
         \<and> (case wait_and_drain (set_eof pipe) of ((bytes, eof), _) \<Rightarrow> bytes = [] \<and> eof))"

definition close_is_idempotent_and_keeps_buffered_bytes :: bool where
  "close_is_idempotent_and_keeps_buffered_bytes =
     written_then (pipe_new 1024) ''abc'' (\<lambda>p.
       let pipe = pipe_close (pipe_close p)
       in (case pipe_write pipe (raw ''d'') of (pipe1, r) \<Rightarrow>
             refused (\<lambda>e. e = Closed) r \<and> pipe_contents pipe1 = raw ''abc''))"

definition async_write_errors_instead_of_reporting_zero :: bool where
  "async_write_errors_instead_of_reporting_zero =
     written_then (pipe_new 2) ''ab'' (\<lambda>pipe. \<not> is_ok (snd (poll_write pipe (raw ''c''))))"

definition contents_returns_everything_written :: bool where
  "contents_returns_everything_written =
     written_then (pipe_new 1024) ''ab'' (\<lambda>pipe.
       case wait_and_drain pipe of (_, pipe1) \<Rightarrow>
         written_then pipe1 ''cd'' (\<lambda>pipe2. pipe_contents pipe2 = raw ''abcd''))"

lemma pipe_tests_pass:
  "written_bytes_are_drained_incrementally" "eof_is_reported_after_set_eof"
  "write_beyond_capacity_is_a_trap" "full_pipe_reports_closed_on_check_write"
  "closed_pipe_rejects_further_writes" "close_is_idempotent_and_keeps_buffered_bytes"
  "async_write_errors_instead_of_reporting_zero" "contents_returns_everything_written"
  by (simp_all add: written_bytes_are_drained_incrementally_def eof_is_reported_after_set_eof_def
      write_beyond_capacity_is_a_trap_def full_pipe_reports_closed_on_check_write_def
      closed_pipe_rejects_further_writes_def close_is_idempotent_and_keeps_buffered_bytes_def
      async_write_errors_instead_of_reporting_zero_def contents_returns_everything_written_def
      written_then_def raw_def trapped_def pipe_new_def pipe_write_def wait_and_drain_def set_eof_def
      pipe_close_def check_write_def poll_write_def pipe_contents_def free_space_def Let_def)

section \<open>\<open>policy.rs\<close>\<close>

text \<open>The helpers fold the ports into the empty grant.\<close>

definition grant_with_ports :: "u16 list \<Rightarrow> capability_error + capability_grant" where
  "grant_with_ports ports = fold (\<lambda>port r. case r of
     Inl e \<Rightarrow> Inl e | Inr grant \<Rightarrow> allow_loopback_port grant port) ports (Ok grant_empty)"

definition grant_with_bind_ports :: "u16 list \<Rightarrow> capability_error + capability_grant" where
  "grant_with_bind_ports ports = fold (\<lambda>port r. case r of
     Inl e \<Rightarrow> Inl e | Inr grant \<Rightarrow> allow_loopback_bind_port grant port) ports (Ok grant_empty)"

definition ipv4 :: "nat \<Rightarrow> nat \<Rightarrow> nat \<Rightarrow> nat \<Rightarrow> u16 \<Rightarrow> socket_addr" where
  "ipv4 a b c d port = \<lparr>sa_ip = V4 (of_nat (((a * 256 + b) * 256 + c) * 256 + d)), sa_port = port\<rparr>"

definition empty_grant_denies_all_networking :: bool where
  "empty_grant_denies_all_networking = (let policy = from_grant grant_empty
     in \<not> np_tcp policy \<and> \<not> np_udp policy \<and> np_allowed_connect_ports policy = {||}
        \<and> np_allowed_bind_ports policy = {||})"

definition connect_allowlist_does_not_permit_binding :: bool where
  "connect_allowlist_does_not_permit_binding =
     expect (grant_with_ports [3000]) (\<lambda>grant.
       let policy = from_grant grant; loopback = ipv4 127 0 0 1 3000; other_port = ipv4 127 0 0 1 3001;
           non_loopback = ipv4 10 0 0 1 3000; broadcast = ipv4 0 0 0 0 3000
       in np_tcp policy \<and> permits policy loopback TcpConnect \<and> \<not> permits policy loopback TcpBind
          \<and> \<not> permits policy loopback UdpConnect \<and> \<not> permits policy loopback UdpBind
          \<and> \<not> permits policy other_port TcpConnect \<and> \<not> permits policy non_loopback TcpConnect
          \<and> \<not> permits policy broadcast TcpBind)"

definition bind_allowlist_permits_binding_but_not_connecting :: bool where
  "bind_allowlist_permits_binding_but_not_connecting =
     expect (grant_with_bind_ports [4000]) (\<lambda>grant.
       let policy = from_grant grant; bind_addr = ipv4 127 0 0 1 4000; other = ipv4 127 0 0 1 4001
       in permits policy bind_addr TcpBind \<and> \<not> permits policy bind_addr TcpConnect
          \<and> \<not> permits policy other TcpBind)"

definition multiple_allowed_ports_are_all_permitted :: bool where
  "multiple_allowed_ports_are_all_permitted =
     expect (grant_with_ports [3000, 5173]) (\<lambda>grant.
       let policy = from_grant grant
       in permits policy (ipv4 127 0 0 1 3000) TcpConnect \<and> permits policy (ipv4 127 0 0 1 5173) TcpConnect)"

definition connect_and_bind_ports_can_coexist :: bool where
  "connect_and_bind_ports_can_coexist =
     expect (allow_loopback_port grant_empty 3000) (\<lambda>g. expect (allow_loopback_bind_port g 4000) (\<lambda>grant.
       let policy = from_grant grant; connect = ipv4 127 0 0 1 3000; bind = ipv4 127 0 0 1 4000
       in permits policy connect TcpConnect \<and> permits policy bind TcpBind
          \<and> \<not> permits policy connect TcpBind \<and> \<not> permits policy bind TcpConnect))"

lemma network_tests_pass:
  "empty_grant_denies_all_networking" "connect_allowlist_does_not_permit_binding"
  "bind_allowlist_permits_binding_but_not_connecting" "multiple_allowed_ports_are_all_permitted"
  "connect_and_bind_ports_can_coexist"
  by (simp_all add: empty_grant_denies_all_networking_def connect_allowlist_does_not_permit_binding_def
      bind_allowlist_permits_binding_but_not_connecting_def multiple_allowed_ports_are_all_permitted_def
      connect_and_bind_ports_can_coexist_def grant_with_ports_def grant_with_bind_ports_def
      allow_loopback_port_def allow_loopback_bind_port_def grant_empty_def from_grant_def permits_def
      is_loopback_def ipv4_def Let_def)

definition environment_selection_filters_by_allowlist :: bool where
  "environment_selection_filters_by_allowlist =
     expect (allow_environment grant_empty ''ALLOWED'') (\<lambda>g. expect (allow_environment g ''PATH'') (\<lambda>grant.
       selected_environment grant (\<lambda>name.
           if name = ''ALLOWED'' then Some ''value-1''
           else if name = ''PATH'' then Some ''/usr/bin''
           else if name = ''SECRET'' then Some ''leak'' else None)
         = [(''ALLOWED'', ''value-1''), (''PATH'', ''/usr/bin'')]))"

definition environment_selection_drops_missing_values :: bool where
  "environment_selection_drops_missing_values =
     expect (allow_environment grant_empty ''MISSING'') (\<lambda>grant. selected_environment grant (\<lambda>_. None) = [])"

definition classified_request :: "path \<Rightarrow> capability_grant \<Rightarrow> command_error + command_request" where
  "classified_request tmp grant = command_request_new 1 Agent Wasi ''tool'' [] tmp grant"

text \<open>The assertion of the tests of \<open>classify_risk\<close>.\<close>

definition classified_as :: "path \<Rightarrow> risk \<Rightarrow> capability_grant \<Rightarrow> bool" where
  "classified_as tmp risk grant = expect (classified_request tmp grant) (\<lambda>r. classify_risk r = risk)"

definition read_only_command_is_auto_approved :: "path \<Rightarrow> bool" where
  "read_only_command_is_auto_approved tmp =
     expect (grant_workspace tmp Read) (classified_as tmp AutoApprove)"

definition filesystem_write_requires_approval :: "path \<Rightarrow> bool" where
  "filesystem_write_requires_approval tmp =
     expect (grant_workspace tmp ReadWrite) (classified_as tmp (RequiresApproval FilesystemWrite))"

definition network_access_requires_approval :: "path \<Rightarrow> bool" where
  "network_access_requires_approval tmp =
     expect (grant_workspace tmp Read) (\<lambda>g. expect (allow_loopback_port g 3000)
       (classified_as tmp (RequiresApproval NetworkAccess)))"

definition bind_permission_also_requires_approval :: "path \<Rightarrow> bool" where
  "bind_permission_also_requires_approval tmp =
     expect (grant_workspace tmp Read) (\<lambda>g. expect (allow_loopback_bind_port g 4000)
       (classified_as tmp (RequiresApproval NetworkAccess)))"

definition environment_access_requires_approval :: "path \<Rightarrow> bool" where
  "environment_access_requires_approval tmp =
     expect (grant_workspace tmp Read) (\<lambda>g. expect (allow_environment g ''PATH'')
       (classified_as tmp (RequiresApproval EnvironmentAccess)))"

definition native_execution_is_the_highest_risk :: "path \<Rightarrow> bool" where
  "native_execution_is_the_highest_risk tmp =
     expect (grant_workspace tmp ReadWrite) (\<lambda>g.
       classified_as tmp (RequiresApproval NativeExecution) (allow_native_execution g))"

lemma classified_as_eq:
  assumes "is_safe_absolute_path tmp" "cg_filesystems grant = [\<lparr>fg_root = tmp, fg_access = access\<rparr>]"
  shows "classified_as tmp risk grant \<longleftrightarrow> classify_risk \<lparr>cr_id = 1, cr_actor = Agent, cr_mode = Wasi,
     cr_program = ''tool'', cr_args = [], cr_cwd = tmp, cr_grant = grant\<rparr> = risk"
proof -
  have "allows_path grant tmp"
    using assms by (simp add: allows_path_def fg_allows_def path_starts_with_def)
  then show ?thesis
    by (simp add: classified_as_def classified_request_def command_request_new_def Let_def validate_def
        contains_nul_def chars_ascii_iff list_ex_iff)
qed

lemma policy_tests_pass:
  assumes "is_safe_absolute_path tmp"
  shows "read_only_command_is_auto_approved tmp" "filesystem_write_requires_approval tmp"
    "network_access_requires_approval tmp" "bind_permission_also_requires_approval tmp"
    "native_execution_is_the_highest_risk tmp"
proof -
  have new: "grant_workspace tmp access
      = Ok (grant_empty\<lparr>cg_filesystems := [\<lparr>fg_root = tmp, fg_access = access\<rparr>]\<rparr>)" for access
    using assms by (simp add: grant_workspace_def filesystem_grant_new_def validate_path_def grant_empty_def)
  note eq = classified_as_eq [OF assms]
  show "read_only_command_is_auto_approved tmp" "filesystem_write_requires_approval tmp"
    "network_access_requires_approval tmp" "bind_permission_also_requires_approval tmp"
    "native_execution_is_the_highest_risk tmp"
    by (simp_all add: read_only_command_is_auto_approved_def filesystem_write_requires_approval_def
        network_access_requires_approval_def bind_permission_also_requires_approval_def
        native_execution_is_the_highest_risk_def new eq classify_risk_def allow_loopback_port_def
        allow_loopback_bind_port_def allow_native_execution_def allows_native_execution_def grant_empty_def)
qed


definition unallowed_names_are_never_queried :: bool where
  "unallowed_names_are_never_queried =
     (let (_, queried) = run_state (selected_environment_in grant_empty (recording (\<lambda>_. Some ''value''))) []
      in queried = [])"

lemma query_test_passes: "unallowed_names_are_never_queried"
  by (simp add: unallowed_names_are_never_queried_def selected_environment_in_def environment_names_def
      grant_empty_def)

lemma environment_tests_pass:
  "environment_selection_filters_by_allowlist" "environment_selection_drops_missing_values"
  "is_safe_absolute_path tmp \<Longrightarrow> environment_access_requires_approval tmp"
proof -
  have allow: "allow_environment g name = Ok (g\<lparr>cg_environment := finsert name (cg_environment g)\<rparr>)"
    if "name \<noteq> ''''" "CHR ''='' \<notin> set name" "\<not> list_ex (\<lambda>c. c = 0 \<or> is_whitespace c) (chars name)"
    for g name
    using that by (simp add: allow_environment_def)
  have plain: "\<not> list_ex (\<lambda>c. c = 0 \<or> is_whitespace c) (chars ''ALLOWED'')"
    "\<not> list_ex (\<lambda>c. c = 0 \<or> is_whitespace c) (chars ''PATH'')"
    "\<not> list_ex (\<lambda>c. c = 0 \<or> is_whitespace c) (chars ''MISSING'')" by (simp_all add: utf8_next_ascii is_whitespace_def)
  note allow = allow [OF _ _ plain(1)] allow [OF _ _ plain(2)] allow [OF _ _ plain(3)]
  show "environment_selection_filters_by_allowlist" "environment_selection_drops_missing_values"
    by (simp_all add: environment_selection_filters_by_allowlist_def allow grant_empty_def
        environment_selection_drops_missing_values_def selected_environment_def environment_names_def
        List.map_filter_simps)
  assume tmp: "is_safe_absolute_path tmp"
  then have "grant_workspace tmp Read
      = Ok (grant_empty\<lparr>cg_filesystems := [\<lparr>fg_root = tmp, fg_access = Read\<rparr>]\<rparr>)"
    by (simp add: grant_workspace_def filesystem_grant_new_def validate_path_def grant_empty_def)
  then show "environment_access_requires_approval tmp"
    by (simp add: environment_access_requires_approval_def allow classified_as_eq [OF tmp, of _ Read]
        classify_risk_def allows_native_execution_def grant_empty_def environment_names_def)
qed

section \<open>\<open>lib.rs\<close>\<close>

definition test_root :: "path \<Rightarrow> string \<Rightarrow> string \<Rightarrow> path" where
  "test_root tmp pid name = path_push tmp (''ferrous-'' @ name @ ''-'' @ pid)"

definition empty_grant_denies_filesystem_environment_and_network :: bool where
  "empty_grant_denies_filesystem_environment_and_network =
     (\<not> allows_path grant_empty ''/workspace/main.rs'' \<and> \<not> allows_environment grant_empty ''PATH''
      \<and> \<not> allows_loopback_port grant_empty 3000)"

definition workspace_grant_does_not_cross_path_boundaries_or_parent_segments :: "path \<Rightarrow> string \<Rightarrow> bool" where
  "workspace_grant_does_not_cross_path_boundaries_or_parent_segments tmp pid =
     (let project = test_root tmp pid ''project''
      in expect (grant_workspace project ReadWrite) (\<lambda>grant.
           allows_path grant (path_push project ''src/main.rs'')
           \<and> \<not> allows_path grant (path_push (test_root tmp pid ''project-other'') ''main.rs'')
           \<and> \<not> allows_path grant (path_push project ''../secrets.txt'')))"

text \<open>The message is matched on its words; only this error has them.\<close>

definition native_execution_requires_an_explicit_grant :: bool where
  "native_execution_requires_an_explicit_grant =
     refused (\<lambda>e. e = NativeNotGranted)
       (command_request_new 7 Agent Native ''cargo'' [''test''] ''/workspace/project'' grant_empty)"

definition output_budget_rejects_chunks_that_would_exceed_the_limit :: bool where
  "output_budget_rejects_chunks_that_would_exceed_the_limit =
     expect (limits_new 4 30) (\<lambda>limits.
       case accept (session_new 7 limits) Started of (s1, r1) \<Rightarrow> is_ok r1 \<and>
         (case accept s1 (Output Stdout (raw ''abc'')) of (s2, r2) \<Rightarrow> is_ok r2 \<and>
            refused (\<lambda>e. e = OutputLimit) (snd (accept s2 (Output Stderr (raw ''de''))))))"

definition native_backend_never_falls_back_to_ambient_execution :: "path \<Rightarrow> string \<Rightarrow> bool" where
  "native_backend_never_falls_back_to_ambient_execution tmp pid =
     (let workspace = test_root tmp pid ''native-workspace''
      in expect (grant_workspace workspace ReadWrite) (\<lambda>g.
           expect (command_request_new 8 Agent Native ''bash'' [''-lc'', ''echo unsafe''] workspace
               (allow_native_execution g)) (\<lambda>request.
             native_start native_backend_new request = Err UnsupportedOnHost)))"

text \<open>
  The host's file system is its \<open>canonicalize\<close>: the temporary directory without the
  workspace, or the directories and the link of the test.
\<close>

definition command_refused :: "runtime_error + wasi_output \<Rightarrow> bool" where
  "command_refused = refused (\<lambda>e. case e of RtCommand _ \<Rightarrow> True | _ \<Rightarrow> False)"

text \<open>\<open>parse_str\<close> is \<open>wat::parse_str\<close>; whether bytes are a component is for Wasmtime to say.\<close>

definition runtime_loads_a_valid_component_and_rejects_garbage ::
    "wasm_error + unit \<Rightarrow> 'c host \<Rightarrow> (string \<Rightarrow> wasm_error + bytes) \<Rightarrow> bool" where
  "runtime_loads_a_valid_component_and_rejects_garbage engine h parse_str =
     expect (wasi_runtime_new engine) (\<lambda>_.
       expect (parse_str ''(component)'') (\<lambda>component.
         is_ok (compile_component h component)
         \<and> \<not> is_ok (compile_component h (raw ''not a component''))))"

definition runtime_denies_a_missing_workspace_before_guest_start ::
    "'c host \<Rightarrow> 'c guest \<Rightarrow> 'c \<Rightarrow> path \<Rightarrow> string \<Rightarrow> bool" where
  "runtime_denies_a_missing_workspace_before_guest_start h guest component tmp pid =
     (let missing = test_root tmp pid ''missing-workspace-that-does-not-exist''
      in expect (grant_workspace missing ReadWrite) (\<lambda>grant.
           expect (command_request_new 9 Agent Wasi ''tool'' [] missing grant) (\<lambda>request.
             command_refused (run_wasi (h\<lparr>h_canonicalize := \<lambda>p. if p = tmp then Some tmp else None\<rparr>)
               guest component request))))"

definition runtime_denies_a_symlinked_cwd_that_escapes_the_grant ::
    "'c host \<Rightarrow> 'c guest \<Rightarrow> 'c \<Rightarrow> path \<Rightarrow> string \<Rightarrow> bool" where
  "runtime_denies_a_symlinked_cwd_that_escapes_the_grant h guest component tmp pid =
     (let root = test_root tmp pid ''symlink-escape''; outside = test_root tmp pid ''symlink-escape-outside'';
          escaped_cwd = path_push root ''escape''
      in expect (grant_workspace root ReadWrite) (\<lambda>grant.
           expect (command_request_new 10 Agent Wasi ''tool'' [] escaped_cwd grant) (\<lambda>request.
             command_refused (run_wasi (h\<lparr>h_canonicalize := linked_files root outside ''escape''\<rparr>)
               guest component request))))"

definition terminal_cannot_emit_output_before_start_or_after_exit :: bool where
  "terminal_cannot_emit_output_before_start_or_after_exit =
     expect (limits_new 1024 30) (\<lambda>limits.
       case accept (session_new 7 limits) (Output Stdout (raw ''early'')) of (s1, r1) \<Rightarrow> \<not> is_ok r1 \<and>
         (case accept s1 Started of (s2, r2) \<Rightarrow> is_ok r2 \<and>
           (case accept s2 (Exited (Some 0)) of (s3, r3) \<Rightarrow> is_ok r3 \<and>
             \<not> is_ok (snd (accept s3 Started)))))"


lemma contract_tests_pass:
  "empty_grant_denies_filesystem_environment_and_network"
  "workspace_grant_does_not_cross_path_boundaries_or_parent_segments ''/tmp'' ''42''"
  "native_execution_requires_an_explicit_grant"
  "output_budget_rejects_chunks_that_would_exceed_the_limit"
  "native_backend_never_falls_back_to_ambient_execution ''/tmp'' ''42''"
  "terminal_cannot_emit_output_before_start_or_after_exit"
proof -
  show "empty_grant_denies_filesystem_environment_and_network"
    by (simp add: empty_grant_denies_filesystem_environment_and_network_def grant_empty_def allows_path_def
        allows_environment_def allows_loopback_port_def)
  show "workspace_grant_does_not_cross_path_boundaries_or_parent_segments ''/tmp'' ''42''" by code_simp
  show "native_execution_requires_an_explicit_grant" by code_simp
  show "output_budget_rejects_chunks_that_would_exceed_the_limit"
    "terminal_cannot_emit_output_before_start_or_after_exit"
    by (simp_all add: output_budget_rejects_chunks_that_would_exceed_the_limit_def raw_def
        terminal_cannot_emit_output_before_start_or_after_exit_def limits_new_def accept_def session_new_def
        DEFAULT_LIMITS_def checked_add_len_def)
  show "native_backend_never_falls_back_to_ambient_execution ''/tmp'' ''42''" by code_simp
qed


lemma loading_test_passes:
  assumes "engine = Ok ()" and "parse_str ''(component)'' = Ok component"
    and "is_ok (h_component_new h component)" and "\<not> is_ok (h_component_new h (raw ''not a component''))"
  shows "runtime_loads_a_valid_component_and_rejects_garbage engine h parse_str"
  using assms
  by (auto simp: runtime_loads_a_valid_component_and_rejects_garbage_def wasi_runtime_new_def
      compile_component_def map_err_def is_ok_def split: sum.splits)

lemma runtime_tests_pass:
  fixes h :: "'c host"
  shows "runtime_denies_a_missing_workspace_before_guest_start h guest component ''/tmp'' ''42''"
    and "runtime_denies_a_symlinked_cwd_that_escapes_the_grant h guest component ''/tmp'' ''42''"
proof -
  have refused: "command_refused (run_wasi h guest component r)"
    if "\<not> allows_existing_path (h_canonicalize h) (cr_grant r) (cr_cwd r)" "validate r = Inr ()"
      "cr_mode r = Wasi" for h :: "'c host" and r
    using that by (simp add: run_wasi_def run_wasi_inner_def build_store_def command_refused_def)
  let ?new = "\<lambda>root. grant_empty\<lparr>cg_filesystems := [\<lparr>fg_root = root, fg_access = ReadWrite\<rparr>]\<rparr>"
  have workspace: "is_safe_absolute_path root \<Longrightarrow> grant_workspace root ReadWrite = Ok (?new root)" for root
    by (simp add: grant_workspace_def filesystem_grant_new_def validate_path_def grant_empty_def)
  have request: "command_request_new i Agent Wasi ''tool'' [] cwd (?new root) = Ok \<lparr>cr_id = i,
      cr_actor = Agent, cr_mode = Wasi, cr_program = ''tool'', cr_args = [], cr_cwd = cwd, cr_grant = ?new root\<rparr>"
    "validate \<lparr>cr_id = i, cr_actor = Agent, cr_mode = Wasi, cr_program = ''tool'', cr_args = [],
      cr_cwd = cwd, cr_grant = ?new root\<rparr> = Inr ()"
    if "is_safe_absolute_path cwd" "path_starts_with cwd root" for i cwd root
  proof -
    have "allows_path (?new root) cwd" using that by (simp add: allows_path_def fg_allows_def)
    then show "validate \<lparr>cr_id = i, cr_actor = Agent, cr_mode = Wasi, cr_program = ''tool'', cr_args = [],
      cr_cwd = cwd, cr_grant = ?new root\<rparr> = Inr ()"
      by (simp add: validate_Inr)
    then show "command_request_new i Agent Wasi ''tool'' [] cwd (?new root) = Ok \<lparr>cr_id = i,
      cr_actor = Agent, cr_mode = Wasi, cr_program = ''tool'', cr_args = [], cr_cwd = cwd, cr_grant = ?new root\<rparr>"
      by (simp add: command_request_new_def)
  qed
  have missing: "is_safe_absolute_path (test_root ''/tmp'' ''42'' ''missing-workspace-that-does-not-exist'')"
    "\<not> allows_existing_path (\<lambda>p. if p = ''/tmp'' then Some ''/tmp'' else None)
       (?new (test_root ''/tmp'' ''42'' ''missing-workspace-that-does-not-exist''))
       (test_root ''/tmp'' ''42'' ''missing-workspace-that-does-not-exist'')"
    by code_simp+
  show "runtime_denies_a_missing_workspace_before_guest_start h guest component ''/tmp'' ''42''"
    using missing by (simp add: runtime_denies_a_missing_workspace_before_guest_start_def Let_def workspace
        request path_starts_with_def refused)
  let ?root = "test_root ''/tmp'' ''42'' ''symlink-escape''"
    and ?outside = "test_root ''/tmp'' ''42'' ''symlink-escape-outside''"
  have link: "is_safe_absolute_path ?root" "is_safe_absolute_path (path_push ?root ''escape'')"
    "path_starts_with (path_push ?root ''escape'') ?root"
    "\<not> allows_existing_path (linked_files ?root ?outside ''escape'') (?new ?root) (path_push ?root ''escape'')"
    by code_simp+
  show "runtime_denies_a_symlinked_cwd_that_escapes_the_grant h guest component ''/tmp'' ''42''"
    using link by (simp add: runtime_denies_a_symlinked_cwd_that_escapes_the_grant_def Let_def workspace
        request refused)
qed

text \<open>
  Two sessions that spin on one runtime.  The test's waits force this schedule of the engine:
  the first run is in its guest before the second is requested, and 200 ms pass before its
  cancellation; the second is in its guest 300 ms before its own.
\<close>

definition spin_session :: "path \<Rightarrow> string \<Rightarrow> u64 \<Rightarrow> (command_request \<Rightarrow> bool) \<Rightarrow> bool" where
  "spin_session tmp pid i k =
     (let root = test_root tmp pid ''spin''
      in expect (grant_workspace root Read) (\<lambda>g. expect (limits_new 1048576 60) (\<lambda>l.
           expect (command_request_new i Agent Wasi ''spin'' [] root (with_limits g (with_unlimited_fuel l))) k)))"

definition passing :: "nat \<Rightarrow> nat \<Rightarrow> engine_action list" where
  "passing r n = concat (replicate n [Pass 100, Tick r])"

definition cancel_of_one_run_does_not_interrupt_a_concurrent_run :: "path \<Rightarrow> string \<Rightarrow> bool" where
  "cancel_of_one_run_does_not_interrupt_a_concurrent_run tmp pid =
     spin_session tmp pid 1 (\<lambda>request_a. spin_session tmp pid 2 (\<lambda>request_b.
       (let a_runs = foldl engine_step engine_init
              ([Request 1 Capturing (cg_limits (cr_grant request_a)), Acquire 1, Build 1 False, Spawn 1,
                Request 2 Capturing (cg_limits (cr_grant request_b)), Acquire 2] @ passing 1 2);
            a_cancelled = foldl engine_step a_runs [CancelRun 1, Tick 1];
            b_runs = foldl engine_step a_cancelled
              ([GuestReturns 1, StopTicker 1, JoinRun 1, Acquire 2, Build 2 False, Spawn 2] @ passing 2 3);
            b_cancelled = foldl engine_step b_runs [CancelRun 2, Tick 2]
        in \<not> interruptible 1 a_runs \<and> map_option er_phase (en_runs a_runs 2) = Some Waiting
           \<and> interruptible 1 a_cancelled
           \<and> map_option er_phase (en_runs b_runs 2) = Some InGuest \<and> \<not> interruptible 2 b_runs
           \<and> interruptible 2 b_cancelled)))"

lemma engine_test_passes:
  "cancel_of_one_run_does_not_interrupt_a_concurrent_run ''/tmp'' ''42''"
proof -
  let ?root = "test_root ''/tmp'' ''42'' ''spin''"
  let ?l = "with_unlimited_fuel (DEFAULT_LIMITS\<lparr>rl_max_output_bytes := 1048576, rl_timeout_seconds := 60\<rparr>)"
  let ?g = "grant_empty\<lparr>cg_filesystems := [\<lparr>fg_root = ?root, fg_access = Read\<rparr>], cg_limits := ?l\<rparr>"
  have root: "is_safe_absolute_path ?root" by code_simp
  then have "allows_path ?g ?root"
    by (simp add: allows_path_def fg_allows_def path_starts_with_def)
  then have valid: "validate \<lparr>cr_id = i, cr_actor = Agent, cr_mode = Wasi, cr_program = ''spin'', cr_args = [],
      cr_cwd = ?root, cr_grant = ?g\<rparr> = Inr ()" for i
    by (simp add: validate_Inr)
  have session: "spin_session ''/tmp'' ''42'' i k = k \<lparr>cr_id = i, cr_actor = Agent, cr_mode = Wasi,
      cr_program = ''spin'', cr_args = [], cr_cwd = ?root, cr_grant = ?g\<rparr>" for i k
    using root valid [of i]
    by (simp add: spin_session_def grant_workspace_def filesystem_grant_new_def validate_path_def limits_new_def
        with_limits_def command_request_new_def grant_empty_def DEFAULT_LIMITS_def Let_def)
  have ticks: "unat (epoch_ticks ?l) = 600"
    by (simp add: unat_epoch_ticks with_unlimited_fuel_def DEFAULT_LIMITS_def)
  have passing: "passing 1 2 = [Pass 100, Tick 1, Pass 100, Tick 1]"
    "passing 2 3 = [Pass 100, Tick 2, Pass 100, Tick 2, Pass 100, Tick 2]"
    by (simp_all add: passing_def numeral_eq_Suc)
  show ?thesis
    unfolding cancel_of_one_run_does_not_interrupt_a_concurrent_run_def session Let_def passing
    by (simp add: ticks engine_init_def on_run_def request_run_def set_run_def acquire_def build_def
        spawn_def tick_def stop_ticker_def guest_returns_def join_run_def interruptible_def)
qed

end
