(* ===== verification/Broker_Tests.thy ===== *)
theory Broker_Tests
  imports Broker Conformance
begin

text \<open>
  The unit tests of \<open>broker.rs\<close> on the model.  A test that waits for a message is run on the
  schedule it forces: the worker's turns (and the sweeper's round) that produce the message
  are written out, and what the test does while a guest runs is the turn's \<open>meanwhile\<close>.  The
  two components stand for their compiled text, and what they do is Wasmtime's: \<open>HELLO_WAT\<close>
  returns success, and \<open>SPIN_WAT\<close> runs until its epoch deadline or its fuel interrupts it.
  \<open>root t f\<close> is the directory the tests create for a grant with timeout \<open>t\<close> and fuel \<open>f\<close>.
\<close>

section \<open>The test fixtures\<close>

datatype wat = Hello | Spin

definition test_host :: "wat host" where
  "test_host = \<lparr>h_canonicalize = Some, h_env = (\<lambda>_. None), h_preopened_dir = (\<lambda>_ _ _ _. None),
     h_add_to_linker = None, h_set_fuel = (\<lambda>_. None), h_component_new = (\<lambda>_. Inl ''text''),
     h_instantiate = (\<lambda>_ _. None)\<rparr>"

definition test_backend :: "wat backend" where
  "test_backend = \<lparr>be_host = test_host,
     be_guest = (\<lambda>wat _. (case wat of Hello \<Rightarrow> GuestOk | Spin \<Rightarrow> GuestTrap ''interrupt'', [], [])),
     be_stream_guest = (\<lambda>wat _. (case wat of Hello \<Rightarrow> GuestOk | Spin \<Rightarrow> GuestTrap ''interrupt'', silent_run)),
     be_panics = (\<lambda>_. None)\<rparr>"

type_synonym test_broker = "wat action_broker"

definition limited_grant ::
    "filesystem_access \<Rightarrow> (u64 \<Rightarrow> u64 \<Rightarrow> path) \<Rightarrow> u64 \<Rightarrow> u64 \<Rightarrow> capability_error + capability_grant" where
  "limited_grant access root timeout fuel = (case grant_workspace (root timeout fuel) access of
     Inl e \<Rightarrow> Err e
   | Inr g \<Rightarrow> (case limits_new 1048576 timeout of
       Inl e \<Rightarrow> Err e
     | Inr l \<Rightarrow> (case with_fuel l fuel of Inl e \<Rightarrow> Err e | Inr l1 \<Rightarrow> Ok (with_limits g l1))))"

definition read_grant :: "(u64 \<Rightarrow> u64 \<Rightarrow> path) \<Rightarrow> u64 \<Rightarrow> u64 \<Rightarrow> capability_error + capability_grant" where
  "read_grant = limited_grant Read"

definition write_grant :: "(u64 \<Rightarrow> u64 \<Rightarrow> path) \<Rightarrow> u64 \<Rightarrow> u64 \<Rightarrow> capability_error + capability_grant" where
  "write_grant = limited_grant ReadWrite"

definition test_request ::
    "u64 \<Rightarrow> string \<Rightarrow> capability_error + capability_grant \<Rightarrow> (command_request \<Rightarrow> bool) \<Rightarrow> bool" where
  "test_request i program g k = expect g (\<lambda>grant. case cg_filesystems grant of
     [] \<Rightarrow> False
   | fs # _ \<Rightarrow> expect (command_request_new i Agent Wasi program [] (fg_root fs) grant) k)"

text \<open>Calls that must succeed, and the worker's turn.\<close>

definition with_broker :: "broker_error + test_broker \<Rightarrow> (test_broker \<Rightarrow> bool) \<Rightarrow> bool" where
  "with_broker b k = expect b k"

definition submitting :: "wat \<Rightarrow> command_request \<Rightarrow> test_broker \<Rightarrow> (nat \<Rightarrow> test_broker \<Rightarrow> bool) \<Rightarrow> bool" where
  "submitting wat r b k = (case submit wat r b of (b1, res) \<Rightarrow> expect res (\<lambda>c. k c b1))"

definition streaming_submit :: "wat \<Rightarrow> command_request \<Rightarrow> test_broker \<Rightarrow> (nat \<Rightarrow> test_broker \<Rightarrow> bool) \<Rightarrow> bool" where
  "streaming_submit wat r b k = (case submit_streaming wat r b of (b1, res) \<Rightarrow> expect res (\<lambda>c. k c b1))"

definition succeeding :: "test_broker \<times> (broker_error + unit) \<Rightarrow> (test_broker \<Rightarrow> bool) \<Rightarrow> bool" where
  "succeeding s k = (case s of (b, res) \<Rightarrow> expect res (\<lambda>_. k b))"

definition turn_while :: "(test_broker \<Rightarrow> test_broker) \<Rightarrow> test_broker \<Rightarrow> (test_broker \<Rightarrow> bool) \<Rightarrow> bool" where
  "turn_while meanwhile b k = (case worker_turn test_backend meanwhile 0 b of None \<Rightarrow> False | Some b1 \<Rightarrow> k b1)"

text \<open>The two observers compiled for the tests.\<close>

definition outstanding_sessions :: "test_broker \<Rightarrow> nat" where
  "outstanding_sessions b = fcard (fmdom (bs_handles b))"

definition pending_sessions :: "test_broker \<Rightarrow> nat" where
  "pending_sessions b = fcard (fmdom (bs_pending b))"

definition completed_with :: "i32 \<Rightarrow> message \<Rightarrow> bool" where
  "completed_with code m = (case m of Outcome (OutCompleted output) \<Rightarrow> wo_exit_code output = code | _ \<Rightarrow> False)"

definition completed_outcome :: "message \<Rightarrow> bool" where
  "completed_outcome m = (case m of Outcome (OutCompleted _) \<Rightarrow> True | _ \<Rightarrow> False)"

definition pending_outcome :: "message \<Rightarrow> bool" where
  "pending_outcome m = (case m of Outcome (OutPendingApproval _) \<Rightarrow> True | _ \<Rightarrow> False)"

definition failed_outcome :: "message \<Rightarrow> bool" where
  "failed_outcome m = (case m of Outcome (OutFailed _) \<Rightarrow> True | _ \<Rightarrow> False)"

definition denied_outcome :: "message \<Rightarrow> bool" where
  "denied_outcome m = (case m of Outcome (OutDenied _) \<Rightarrow> True | _ \<Rightarrow> False)"

section \<open>Running the fixtures\<close>

definition grant_of :: "filesystem_access \<Rightarrow> path \<Rightarrow> resource_limits \<Rightarrow> capability_grant" where
  "grant_of access r l = grant_empty\<lparr>cg_filesystems := [\<lparr>fg_root = r, fg_access = access\<rparr>], cg_limits := l\<rparr>"

definition request_of :: "u64 \<Rightarrow> string \<Rightarrow> filesystem_access \<Rightarrow> path \<Rightarrow> resource_limits \<Rightarrow> command_request" where
  "request_of i program access r l = \<lparr>cr_id = i, cr_actor = Agent, cr_mode = Wasi, cr_program = program,
     cr_args = [], cr_cwd = r, cr_grant = grant_of access r l\<rparr>"

definition limits_of :: "u64 \<Rightarrow> u64 \<Rightarrow> resource_limits" where
  "limits_of t f = DEFAULT_LIMITS\<lparr>rl_max_output_bytes := 1048576, rl_timeout_seconds := t, rl_max_fuel := f\<rparr>"

lemma limited_grant_eq:
  assumes "is_safe_absolute_path (root t f)" "t \<noteq> 0" "f \<noteq> 0"
  shows "limited_grant access root t f = Ok (grant_of access (root t f) (limits_of t f))"
  using assms by (simp add: limited_grant_def grant_workspace_def filesystem_grant_new_def validate_path_def
      limits_new_def with_fuel_def with_limits_def grant_empty_def DEFAULT_LIMITS_def grant_of_def limits_of_def)

lemma request_of_fields [simp]:
  "cr_id (request_of i program access r l) = i" "cr_mode (request_of i program access r l) = Wasi"
  "cr_program (request_of i program access r l) = program"
  "cr_grant (request_of i program access r l) = grant_of access r l"
  by (simp_all add: request_of_def)

lemma grant_of_simps [simp]:
  "cg_filesystems (grant_of access r l) = [\<lparr>fg_root = r, fg_access = access\<rparr>]"
  "cg_limits (grant_of access r l) = l"
  by (simp_all add: grant_of_def)

lemma request_of_valid:
  assumes "is_safe_absolute_path r" "program \<noteq> ''''" "CHR 0x00 \<notin> set program"
  shows "validate (request_of i program access r l) = Inr ()"
    and "test_request i program (Inr (grant_of access r l)) k = k (request_of i program access r l)"
proof -
  have "allows_path (grant_of access r l) r"
    using assms(1) by (simp add: allows_path_def fg_allows_def path_starts_with_def)
  then show valid: "validate (request_of i program access r l) = Inr ()"
    using assms by (simp add: validate_Inr request_of_def)
  then show "test_request i program (Inr (grant_of access r l)) k = k (request_of i program access r l)"
    by (simp add: test_request_def command_request_new_def request_of_def)
qed

lemma request_of_risk:
  "classify_risk (request_of i program Read r l) = AutoApprove"
  "classify_risk (request_of i program ReadWrite r l) = RequiresApproval FilesystemWrite"
  by (simp_all add: classify_risk_def allows_native_execution_def grant_of_def grant_empty_def)

lemma request_of_store:
  assumes "is_safe_absolute_path r" "program \<noteq> ''''" "CHR 0x00 \<notin> set program"
  shows "\<exists>store. build_store test_host (request_of i program access r l) env = Inr store"
proof -
  have "allows_path (grant_of access r l) r"
    using assms(1) by (simp add: allows_path_def fg_allows_def path_starts_with_def)
  then have "allows_existing_path Some (grant_of access r l) r"
    by (simp add: allows_existing_path_def canonicalize_with_existing_parent_def canonicalize_loop.simps
        path_starts_with_def)
  then show ?thesis
    using request_of_valid(1) [OF assms, of i access l]
    by (simp add: build_store_def request_of_def test_host_def Let_def)
qed

text \<open>What a run of a fixture returns, capturing or streaming.\<close>

lemma capturing_fixture:
  assumes "is_safe_absolute_path r" "program \<noteq> ''''" "CHR 0x00 \<notin> set program"
  shows "run_wasi_cancellable test_host
      (\<lambda>comp store. case be_guest test_backend comp store of (res, out, err) \<Rightarrow> (res, out, err, m))
      wat (request_of i program access r l) handle
    = (case wat of Hello \<Rightarrow> Inr \<lparr>wo_stdout = [], wo_stderr = [], wo_exit_code = 0\<rparr>
       | Spin \<Rightarrow> Inl (if is_cancelled m handle then RtCancelled else RtWasi ''interrupt''))"
proof -
  obtain store where "build_store test_host (request_of i program access r l) (h_env test_host) = Inr store"
    using request_of_store [OF assms] by blast
  then show ?thesis
    by (simp add: run_wasi_cancellable_def run_wasi_inner_def test_backend_def test_host_def split: wat.split)
qed

lemma streaming_fixture:
  assumes "is_safe_absolute_path r" "program \<noteq> ''''" "CHR 0x00 \<notin> set program"
  shows "run_wasi_events test_host
      (\<lambda>comp store. case be_stream_guest test_backend comp store of (res, actions) \<Rightarrow> (res, actions, m))
      wat (request_of i program access r l) handle []
    = Some (case wat of Hello \<Rightarrow> Inr \<lparr>wo_stdout = [], wo_stderr = [], wo_exit_code = 0\<rparr>
       | Spin \<Rightarrow> Inl (if is_cancelled m handle then RtCancelled else RtWasi ''interrupt''), [])"
proof -
  obtain store where "build_store test_host (request_of i program access r l) (h_env test_host) = Inr store"
    using request_of_store [OF assms] by blast
  then show ?thesis
    by (simp add: run_wasi_events_def run_wasi_events_impl_def Let_def silent_run test_backend_def
        test_host_def split: wat.split)
qed

section \<open>The tests\<close>

text \<open>Conformance to the tests is evaluation: every definition the tests exercise is unfolded.\<close>

lemma session_fixture:
  "accept (session_new i l) Started = (with_lifecycle (session_new i l) Running, Inr ())"
  "accept (session_new i l) (PendingApproval reason)
     = (with_lifecycle (session_new i l) WaitingApproval, Inr ())"
  "accept (with_lifecycle (session_new i l) WaitingApproval) Started
     = (with_lifecycle (session_new i l) Running, Inr ())"
  by (simp_all add: accept_def session_new_def)

lemma backend_fixture:
  "be_host test_backend = test_host" "be_panics test_backend = (\<lambda>_. None)"
  by (simp_all add: test_backend_def)

lemmas broker_evaluation =
  with_broker_def submitting_def streaming_submit_def succeeding_def turn_while_def
  read_grant_def write_grant_def limited_grant_eq request_of_valid request_of_risk
  capturing_fixture streaming_fixture session_fixture backend_fixture
  action_broker_new_def with_capacity_def with_config_def wasi_runtime_new_def
  DEFAULT_MAX_OUTSTANDING_SESSIONS_def DEFAULT_APPROVAL_TIMEOUT_def
  submit_def submit_streaming_def submit_job_def enqueue_def channel_new_def channel_send_def
  cancel_store_init_def cancel_handle_new_def cancel_handle_cancel_def is_cancelled_def
  worker_turn_def process_job_guarded_def process_job_def execute_and_release_def execute_def
  execute_capturing_def execute_streaming_def audit_of_def send_events_def
  park_job_def pending_message_def approve_def deny_def cancel_def session_cancelled_def
  close_session_def send_terminal_def terminal_message_def sink_channel_def job_entry_def
  release_def audit_record_def DEFAULT_MAX_AUDIT_ENTRIES_def audit_trail_def
  completed_with_def completed_outcome_def pending_outcome_def failed_outcome_def denied_outcome_def
  outstanding_sessions_def pending_sessions_def fcard.rep_eq

definition hello_component_reports_exit_code_zero :: "(u64 \<Rightarrow> u64 \<Rightarrow> path) \<Rightarrow> bool" where
  "hello_component_reports_exit_code_zero root =
     with_broker (action_broker_new (Inr ())) (\<lambda>broker.
     test_request 1 ''hello'' (read_grant root 30 1000000) (\<lambda>r.
     submitting Hello r broker (\<lambda>receiver b1.
     turn_while id b1 (\<lambda>b2. list_all2 (\<lambda>p m. p m) [completed_with 0] (ab_sent b2 receiver)))))"

definition requests_run_in_submission_order :: "(u64 \<Rightarrow> u64 \<Rightarrow> path) \<Rightarrow> bool" where
  "requests_run_in_submission_order root =
     with_broker (action_broker_new (Inr ())) (\<lambda>broker.
     test_request 1 ''spin-a'' (read_grant root 1 4000000000) (\<lambda>request_a.
     test_request 2 ''hello-b'' (read_grant root 30 1000000) (\<lambda>request_b.
     submitting Spin request_a broker (\<lambda>receiver_a b1.
     submitting Hello request_b b1 (\<lambda>receiver_b b2.
     ab_sent b2 receiver_b = [] \<and>
     turn_while id b2 (\<lambda>b3.
       list_all2 (\<lambda>p m. p m) [failed_outcome] (ab_sent b3 receiver_a) \<and> ab_sent b3 receiver_b = [] \<and>
       turn_while id b3 (\<lambda>b4. list_all2 (\<lambda>p m. p m) [completed_with 0] (ab_sent b4 receiver_b))))))))"

text \<open>The caller cancels while the guest of \<open>a\<close> runs.\<close>

definition cancel_interrupts_a_running_guest_and_the_queue_continues :: "(u64 \<Rightarrow> u64 \<Rightarrow> path) \<Rightarrow> bool" where
  "cancel_interrupts_a_running_guest_and_the_queue_continues root =
     with_broker (action_broker_new (Inr ())) (\<lambda>broker.
     test_request 1 ''spin-a'' (read_grant root 60 4000000000) (\<lambda>request_a.
     test_request 2 ''hello-b'' (read_grant root 30 1000000) (\<lambda>request_b.
     submitting Spin request_a broker (\<lambda>receiver_a b1.
     submitting Hello request_b b1 (\<lambda>receiver_b b2.
     turn_while (fst \<circ> cancel 1) b2 (\<lambda>b3. ab_sent b3 receiver_a = [Outcome OutCancelled] \<and>
       turn_while id b3 (\<lambda>b4. list_all2 (\<lambda>p m. p m) [completed_with 0] (ab_sent b4 receiver_b))))))))"

lemma running_tests_pass:
  assumes root: "\<And>t f. is_safe_absolute_path (root t f)"
  shows "hello_component_reports_exit_code_zero root"
    and "requests_run_in_submission_order root"
    and "cancel_interrupts_a_running_guest_and_the_queue_continues root"
proof -
  show "hello_component_reports_exit_code_zero root"
    by (simp add: hello_component_reports_exit_code_zero_def broker_evaluation root)
  show "requests_run_in_submission_order root"
    by (simp add: requests_run_in_submission_order_def broker_evaluation root)
  show "cancel_interrupts_a_running_guest_and_the_queue_continues root"
    by (simp add: cancel_interrupts_a_running_guest_and_the_queue_continues_def broker_evaluation root)
qed

text \<open>
  The tests that cancel a running or a queued session: the calls are made while the guest of
  \<open>a\<close> runs.  A cancellation that is refused changes nothing, and the test then fails.
\<close>

definition cancel_before_start_skips_a_queued_action :: "(u64 \<Rightarrow> u64 \<Rightarrow> path) \<Rightarrow> bool" where
  "cancel_before_start_skips_a_queued_action root =
     with_broker (action_broker_new (Inr ())) (\<lambda>broker.
     test_request 1 ''spin-a'' (read_grant root 60 4000000000) (\<lambda>request_a.
     test_request 2 ''hello-b'' (read_grant root 30 1000000) (\<lambda>request_b.
     submitting Spin request_a broker (\<lambda>receiver_a b1.
     submitting Hello request_b b1 (\<lambda>receiver_b b2.
     turn_while (\<lambda>b. fst (cancel 1 (fst (cancel 2 b)))) b2 (\<lambda>b3.
       ab_sent b3 receiver_a = [Outcome OutCancelled] \<and>
       turn_while id b3 (\<lambda>b4. ab_sent b4 receiver_b = [Outcome OutCancelled])))))))"

definition cancel_of_an_unknown_session_errors :: bool where
  "cancel_of_an_unknown_session_errors =
     with_broker (action_broker_new (Inr ())) (\<lambda>broker.
     refused (\<lambda>e. e = UnknownSession 999) (snd (cancel 999 broker)))"

definition cancel_is_idempotent_for_a_live_session :: "(u64 \<Rightarrow> u64 \<Rightarrow> path) \<Rightarrow> bool" where
  "cancel_is_idempotent_for_a_live_session root =
     with_broker (action_broker_new (Inr ())) (\<lambda>broker.
     test_request 1 ''spin'' (read_grant root 60 4000000000) (\<lambda>request.
     submitting Spin request broker (\<lambda>receiver b1.
     succeeding (cancel 1 b1) (\<lambda>b2. succeeding (cancel 1 b2) (\<lambda>b3.
     turn_while id b3 (\<lambda>b4. ab_sent b4 receiver = [Outcome OutCancelled]))))))"

definition completed_sessions_release_their_handles :: "(u64 \<Rightarrow> u64 \<Rightarrow> path) \<Rightarrow> bool" where
  "completed_sessions_release_their_handles root =
     with_broker (action_broker_new (Inr ())) (\<lambda>broker.
     test_request 1 ''hello'' (read_grant root 30 1000000) (\<lambda>request.
     submitting Hello request broker (\<lambda>receiver b1.
     turn_while id b1 (\<lambda>b2. length (ab_sent b2 receiver) = 1 \<and> outstanding_sessions b2 = 0))))"

definition cancel_after_completion_reports_unknown_session :: "(u64 \<Rightarrow> u64 \<Rightarrow> path) \<Rightarrow> bool" where
  "cancel_after_completion_reports_unknown_session root =
     with_broker (action_broker_new (Inr ())) (\<lambda>broker.
     test_request 1 ''hello'' (read_grant root 30 1000000) (\<lambda>request.
     submitting Hello request broker (\<lambda>receiver b1.
     turn_while id b1 (\<lambda>b2. length (ab_sent b2 receiver) = 1
       \<and> refused (\<lambda>e. e = UnknownSession 1) (snd (cancel 1 b2))))))"

definition queue_rejects_submissions_beyond_capacity :: "(u64 \<Rightarrow> u64 \<Rightarrow> path) \<Rightarrow> bool" where
  "queue_rejects_submissions_beyond_capacity root =
     with_broker (with_capacity (Inr ()) 2) (\<lambda>broker.
     test_request 1 ''spin-a'' (read_grant root 60 4000000000) (\<lambda>request_a.
     test_request 2 ''spin-b'' (read_grant root 60 4000000000) (\<lambda>request_b.
     test_request 3 ''spin-c'' (read_grant root 60 4000000000) (\<lambda>request_c.
     submitting Spin request_a broker (\<lambda>_ b1.
     submitting Spin request_b b1 (\<lambda>_ b2.
     refused (\<lambda>e. e = QueueFull) (snd (submit Spin request_c b2))))))))"

definition zero_capacity_is_rejected :: bool where
  "zero_capacity_is_rejected =
     refused (\<lambda>e. e = InvalidCapacity) (with_capacity (Inr ()) 0 :: broker_error + test_broker)"

definition hello_runs_with_unlimited_fuel :: "(u64 \<Rightarrow> u64 \<Rightarrow> path) \<Rightarrow> bool" where
  "hello_runs_with_unlimited_fuel root =
     with_broker (action_broker_new (Inr ())) (\<lambda>broker.
     expect (read_grant root 30 1000000) (\<lambda>g. expect (limits_new 1048576 30) (\<lambda>l.
     test_request 1 ''hello'' (Ok (with_limits g (with_unlimited_fuel l))) (\<lambda>request.
     submitting Hello request broker (\<lambda>receiver b1.
     turn_while id b1 (\<lambda>b2. list_all2 (\<lambda>p m. p m) [completed_with 0] (ab_sent b2 receiver)))))))"

lemma cancelling_tests_pass:
  assumes root: "\<And>t f. is_safe_absolute_path (root t f)"
  shows "cancel_before_start_skips_a_queued_action root"
    and "cancel_of_an_unknown_session_errors"
    and "cancel_is_idempotent_for_a_live_session root"
    and "completed_sessions_release_their_handles root"
    and "cancel_after_completion_reports_unknown_session root"
proof -
  show "cancel_before_start_skips_a_queued_action root"
    by (simp add: cancel_before_start_skips_a_queued_action_def broker_evaluation root)
  show "cancel_of_an_unknown_session_errors"
    by (simp add: cancel_of_an_unknown_session_errors_def broker_evaluation)
  show "cancel_is_idempotent_for_a_live_session root"
    by (simp add: cancel_is_idempotent_for_a_live_session_def broker_evaluation root)
  show "completed_sessions_release_their_handles root"
    by (simp add: completed_sessions_release_their_handles_def broker_evaluation root)
  show "cancel_after_completion_reports_unknown_session root"
    by (simp add: cancel_after_completion_reports_unknown_session_def broker_evaluation root)
qed

lemma capacity_tests_pass:
  assumes root: "\<And>t f. is_safe_absolute_path (root t f)"
  shows "queue_rejects_submissions_beyond_capacity root" and "zero_capacity_is_rejected"
    and "hello_runs_with_unlimited_fuel root"
proof -
  show "queue_rejects_submissions_beyond_capacity root"
    by (simp add: queue_rejects_submissions_beyond_capacity_def broker_evaluation root)
  show "zero_capacity_is_rejected"
    by (simp add: zero_capacity_is_rejected_def broker_evaluation)
  have "with_limits (grant_of access r l) l' = grant_of access r l'" for access r l l'
    by (simp add: with_limits_def grant_of_def)
  then show "hello_runs_with_unlimited_fuel root"
    by (simp add: hello_runs_with_unlimited_fuel_def broker_evaluation root limits_new_def)
qed

definition streaming_hello_emits_started_then_exited :: "(u64 \<Rightarrow> u64 \<Rightarrow> path) \<Rightarrow> bool" where
  "streaming_hello_emits_started_then_exited root =
     with_broker (action_broker_new (Inr ())) (\<lambda>broker.
     test_request 1 ''hello'' (read_grant root 30 1000000) (\<lambda>request.
     streaming_submit Hello request broker (\<lambda>events b1.
     turn_while id b1 (\<lambda>b2. ab_sent b2 events = [Event Started, Event (Exited (Some 0))]))))"

definition streaming_cancel_interrupts_a_running_guest :: "(u64 \<Rightarrow> u64 \<Rightarrow> path) \<Rightarrow> bool" where
  "streaming_cancel_interrupts_a_running_guest root =
     with_broker (action_broker_new (Inr ())) (\<lambda>broker.
     test_request 1 ''spin'' (read_grant root 60 4000000000) (\<lambda>request.
     streaming_submit Spin request broker (\<lambda>events b1.
     turn_while (\<lambda>b. fst (cancel 1 b)) b1 (\<lambda>b2. ab_sent b2 events = [Event Started, Event Cancelled]))))"

definition read_only_command_runs_without_approval :: "(u64 \<Rightarrow> u64 \<Rightarrow> path) \<Rightarrow> bool" where
  "read_only_command_runs_without_approval root =
     with_broker (action_broker_new (Inr ())) (\<lambda>broker.
     test_request 1 ''hello'' (read_grant root 30 1000000) (\<lambda>request.
     submitting Hello request broker (\<lambda>receiver b1.
     turn_while id b1 (\<lambda>b2. list_all2 (\<lambda>p m. p m) [completed_outcome] (ab_sent b2 receiver)))))"

text \<open>A turn on the empty queue changes nothing: nothing runs before the approval.\<close>

definition risky_command_emits_pending_approval_then_runs_after_approve :: "(u64 \<Rightarrow> u64 \<Rightarrow> path) \<Rightarrow> bool" where
  "risky_command_emits_pending_approval_then_runs_after_approve root =
     with_broker (action_broker_new (Inr ())) (\<lambda>broker.
     test_request 1 ''hello'' (write_grant root 30 1000000) (\<lambda>request.
     submitting Hello request broker (\<lambda>receiver b1.
     turn_while id b1 (\<lambda>b2. turn_while id b2 (\<lambda>b3.
       ab_sent b3 receiver = [Outcome (OutPendingApproval FilesystemWrite)] \<and>
       succeeding (approve 1 b3) (\<lambda>b4. turn_while id b4 (\<lambda>b5.
         list_all2 (\<lambda>p m. p m) [pending_outcome, completed_outcome] (ab_sent b5 receiver))))))))"

definition denied_command_never_runs :: "(u64 \<Rightarrow> u64 \<Rightarrow> path) \<Rightarrow> bool" where
  "denied_command_never_runs root =
     with_broker (action_broker_new (Inr ())) (\<lambda>broker.
     test_request 1 ''hello'' (write_grant root 30 1000000) (\<lambda>request.
     submitting Hello request broker (\<lambda>receiver b1.
     turn_while id b1 (\<lambda>b2. list_all2 (\<lambda>p m. p m) [pending_outcome] (ab_sent b2 receiver) \<and>
       succeeding (deny 1 b2) (\<lambda>b3.
         list_all2 (\<lambda>p m. p m) [pending_outcome, denied_outcome] (ab_sent b3 receiver))))))"

text \<open>The timeout is 300 ms and the job parked at the time 0.\<close>

definition approval_timeout_auto_denies :: "(u64 \<Rightarrow> u64 \<Rightarrow> path) \<Rightarrow> bool" where
  "approval_timeout_auto_denies root =
     with_broker (with_config (Inr ()) 64 300) (\<lambda>broker.
     test_request 1 ''hello'' (write_grant root 30 1000000) (\<lambda>request.
     submitting Hello request broker (\<lambda>receiver b1.
     turn_while id b1 (\<lambda>b2. list_all2 (\<lambda>p m. p m) [pending_outcome] (ab_sent b2 receiver) \<and>
       (let b3 = sweep [1] 300 b2
        in list_all2 (\<lambda>p m. p m) [pending_outcome, denied_outcome] (ab_sent b3 receiver)
           \<and> pending_sessions b3 = 0)))))"

definition cancel_of_pending_session_reports_cancelled :: "(u64 \<Rightarrow> u64 \<Rightarrow> path) \<Rightarrow> bool" where
  "cancel_of_pending_session_reports_cancelled root =
     with_broker (action_broker_new (Inr ())) (\<lambda>broker.
     test_request 1 ''hello'' (write_grant root 30 1000000) (\<lambda>request.
     submitting Hello request broker (\<lambda>receiver b1.
     turn_while id b1 (\<lambda>b2. list_all2 (\<lambda>p m. p m) [pending_outcome] (ab_sent b2 receiver) \<and>
       succeeding (cancel 1 b2) (\<lambda>b3.
         list_all2 (\<lambda>p m. p m) [pending_outcome, \<lambda>m. m = Outcome OutCancelled] (ab_sent b3 receiver)
         \<and> pending_sessions b3 = 0)))))"

definition approve_of_non_pending_session_errors :: bool where
  "approve_of_non_pending_session_errors =
     with_broker (action_broker_new (Inr ())) (\<lambda>broker.
     refused (\<lambda>e. e = NotPendingApproval 999) (snd (approve 999 broker))
     \<and> refused (\<lambda>e. e = NotPendingApproval 999) (snd (deny 999 broker)))"

lemma streaming_tests_pass:
  assumes root: "\<And>t f. is_safe_absolute_path (root t f)"
  shows "streaming_hello_emits_started_then_exited root"
    and "streaming_cancel_interrupts_a_running_guest root"
    and "read_only_command_runs_without_approval root"
proof -
  show "streaming_hello_emits_started_then_exited root"
    by (simp add: streaming_hello_emits_started_then_exited_def broker_evaluation root)
  show "streaming_cancel_interrupts_a_running_guest root"
    by (simp add: streaming_cancel_interrupts_a_running_guest_def broker_evaluation root)
  show "read_only_command_runs_without_approval root"
    by (simp add: read_only_command_runs_without_approval_def broker_evaluation root)
qed

lemma approval_tests_pass:
  assumes root: "\<And>t f. is_safe_absolute_path (root t f)"
  shows "risky_command_emits_pending_approval_then_runs_after_approve root"
    and "denied_command_never_runs root" and "approval_timeout_auto_denies root"
    and "cancel_of_pending_session_reports_cancelled root"
    and "approve_of_non_pending_session_errors"
proof -
  show "risky_command_emits_pending_approval_then_runs_after_approve root"
    by (simp add: risky_command_emits_pending_approval_then_runs_after_approve_def broker_evaluation root)
  show "denied_command_never_runs root"
    by (simp add: denied_command_never_runs_def broker_evaluation root)
  show "approval_timeout_auto_denies root"
    by (simp add: approval_timeout_auto_denies_def broker_evaluation root sweep_def sweep_one_def expired_def)
  show "cancel_of_pending_session_reports_cancelled root"
    by (simp add: cancel_of_pending_session_reports_cancelled_def broker_evaluation root)
  show "approve_of_non_pending_session_errors"
    by (simp add: approve_of_non_pending_session_errors_def broker_evaluation)
qed

definition audit_trail_records_decisions :: "(u64 \<Rightarrow> u64 \<Rightarrow> path) \<Rightarrow> bool" where
  "audit_trail_records_decisions root =
     with_broker (action_broker_new (Inr ())) (\<lambda>broker.
     test_request 1 ''hello'' (read_grant root 30 1000000) (\<lambda>req_1.
     submitting Hello req_1 broker (\<lambda>receiver b1.
     turn_while id b1 (\<lambda>b2. list_all2 (\<lambda>p m. p m) [completed_outcome] (ab_sent b2 receiver) \<and>
     test_request 2 ''hello'' (write_grant root 30 1000000) (\<lambda>req_2.
     submitting Hello req_2 b2 (\<lambda>receiver b3.
     turn_while id b3 (\<lambda>b4. succeeding (approve 2 b4) (\<lambda>b5. turn_while id b5 (\<lambda>b6.
       list_all2 (\<lambda>p m. p m) [pending_outcome, completed_outcome] (ab_sent b6 receiver) \<and>
     test_request 3 ''hello'' (write_grant root 30 1000000) (\<lambda>req_3.
     submitting Hello req_3 b6 (\<lambda>receiver b7.
     turn_while id b7 (\<lambda>b8. succeeding (deny 3 b8) (\<lambda>b9.
       list_all2 (\<lambda>p m. p m) [pending_outcome, denied_outcome] (ab_sent b9 receiver) \<and>
       (let trail = audit_trail b9
        in map ae_decision trail = [AutoApproved, Approved, DecisionDenied]
           \<and> map ae_outcome (drop 2 trail) = [AuditDenied]
           \<and> map ae_program (take 1 trail) = [''hello'']))))))))))))))"

definition streaming_risky_command_emits_pending_approval :: "(u64 \<Rightarrow> u64 \<Rightarrow> path) \<Rightarrow> bool" where
  "streaming_risky_command_emits_pending_approval root =
     with_broker (action_broker_new (Inr ())) (\<lambda>broker.
     test_request 1 ''hello'' (write_grant root 30 1000000) (\<lambda>request.
     streaming_submit Hello request broker (\<lambda>events b1.
     turn_while id b1 (\<lambda>b2. ab_sent b2 events = [Event (PendingApproval FilesystemWrite)] \<and>
       succeeding (approve 1 b2) (\<lambda>b3. turn_while id b3 (\<lambda>b4.
         ab_sent b4 events = [Event (PendingApproval FilesystemWrite), Event Started,
           Event (Exited (Some 0))]))))))"

text \<open>\<open>a\<close> is drained for at most four events, whichever way its cancellation fell.\<close>

definition streaming_cancel_before_start_skips_a_queued_action ::
    "bool \<Rightarrow> (u64 \<Rightarrow> u64 \<Rightarrow> path) \<Rightarrow> bool" where
  "streaming_cancel_before_start_skips_a_queued_action mid_flight root =
     with_broker (action_broker_new (Inr ())) (\<lambda>broker.
     test_request 1 ''spin-a'' (read_grant root 60 4000000000) (\<lambda>request_a.
     test_request 2 ''hello-b'' (read_grant root 30 1000000) (\<lambda>request_b.
     streaming_submit Spin request_a broker (\<lambda>events_a b1.
     streaming_submit Hello request_b b1 (\<lambda>events_b b2.
     (let cancels = (\<lambda>b. fst (cancel 1 (fst (cancel 2 b))))
      in turn_while (if mid_flight then cancels else id) (if mid_flight then b2 else cancels b2) (\<lambda>b3.
         turn_while id b3 (\<lambda>b4. ab_sent b4 events_b = [Event Cancelled]
           \<and> Event Cancelled \<in> set (take 4 (ab_sent b4 events_a))))))))))"

text \<open>
  The injected panic, which the test places before the look at the handle, is one in the run
  of session 1; the barrier finds the same.
\<close>

definition panicking_backend :: "wat backend" where
  "panicking_backend = test_backend\<lparr>be_panics := \<lambda>job. if cr_id (job_request job) = 1 then Some [] else None\<rparr>"

definition worker_panic_is_contained_and_the_queue_survives :: "(u64 \<Rightarrow> u64 \<Rightarrow> path) \<Rightarrow> bool" where
  "worker_panic_is_contained_and_the_queue_survives root =
     with_broker (action_broker_new (Inr ())) (\<lambda>broker.
     test_request 1 ''spin-a'' (read_grant root 30 1000000) (\<lambda>request_a.
     submitting Spin request_a broker (\<lambda>receiver_a b1.
     case worker_turn panicking_backend id 0 b1 of None \<Rightarrow> False | Some b2 \<Rightarrow>
       list_all2 (\<lambda>p m. p m) [denied_outcome] (ab_sent b2 receiver_a) \<and>
     test_request 2 ''hello-b'' (read_grant root 30 1000000) (\<lambda>request_b.
     submitting Hello request_b b2 (\<lambda>receiver_b b3.
     turn_while id b3 (\<lambda>b4. list_all2 (\<lambda>p m. p m) [completed_outcome] (ab_sent b4 receiver_b)
       \<and> refused (\<lambda>e. e = UnknownSession 1) (snd (cancel 1 b4))
       \<and> list_ex (\<lambda>entry. ae_id entry = 1 \<and> ae_outcome entry = AuditFailed) (audit_trail b4)))))))"

definition audit_trail_keeps_at_most_max_entries :: "test_broker \<Rightarrow> bool" where
  "audit_trail_keeps_at_most_max_entries state =
     (let total = DEFAULT_MAX_AUDIT_ENTRIES + 5;
          trail = audit_trail (fold (\<lambda>i. audit_record \<lparr>ae_id = word_of_nat i, ae_actor = Agent,
            ae_program = ''tool'', ae_decision = AutoApproved, ae_outcome = AuditCompleted 0\<rparr>)
            [0..<total] (state\<lparr>bs_audit := []\<rparr>))
      in length trail = DEFAULT_MAX_AUDIT_ENTRIES \<and> ae_id (hd trail) = 5
         \<and> ae_id (last trail) = word_of_nat (total - 1))"

lemma audit_tests_pass:
  assumes root: "\<And>t f. is_safe_absolute_path (root t f)"
  shows "audit_trail_records_decisions root" and "audit_trail_keeps_at_most_max_entries state"
proof -
  show "audit_trail_records_decisions root"
    by (simp add: audit_trail_records_decisions_def broker_evaluation root)
  let ?entry = "\<lambda>i. \<lparr>ae_id = word_of_nat i, ae_actor = Agent, ae_program = ''tool'',
    ae_decision = AutoApproved, ae_outcome = AuditCompleted 0\<rparr>"
  have "fold (\<lambda>i. audit_record (?entry i)) is b = fold audit_record (map ?entry is) b"
    for "is" and b :: test_broker by (simp add: fold_map comp_def)
  moreover have "last_n n (map ?entry [0..<n + 5]) = map ?entry [5..<n + 5]" for n
    by (simp add: last_n_def drop_map)
  ultimately have trail: "audit_trail (fold (\<lambda>i. audit_record (?entry i)) [0..<DEFAULT_MAX_AUDIT_ENTRIES + 5]
      (state\<lparr>bs_audit := []\<rparr>)) = map ?entry [5..<DEFAULT_MAX_AUDIT_ENTRIES + 5]"
    by (simp only: audit_keeps_latest)
  have "DEFAULT_MAX_AUDIT_ENTRIES \<noteq> 0" by (simp add: DEFAULT_MAX_AUDIT_ENTRIES_def)
  then show "audit_trail_keeps_at_most_max_entries state"
    by (simp add: audit_trail_keeps_at_most_max_entries_def trail Let_def hd_map last_map)
qed

lemma recovery_tests_pass:
  assumes root: "\<And>t f. is_safe_absolute_path (root t f)"
  shows "streaming_risky_command_emits_pending_approval root"
    and "streaming_cancel_before_start_skips_a_queued_action mid_flight root"
    and "worker_panic_is_contained_and_the_queue_survives root"
proof -
  show "streaming_risky_command_emits_pending_approval root"
    by (simp add: streaming_risky_command_emits_pending_approval_def broker_evaluation root)
  show "streaming_cancel_before_start_skips_a_queued_action mid_flight root"
    by (cases mid_flight)
      (simp_all add: streaming_cancel_before_start_skips_a_queued_action_def broker_evaluation root)
  show "worker_panic_is_contained_and_the_queue_survives root"
    by (simp add: worker_panic_is_contained_and_the_queue_survives_def panicking_backend_def
        broker_evaluation root)
qed

end
