(* ===== verification/Spec2Isabelle.thy ===== *)
theory Spec2Isabelle
  imports Prelude Rust_Text Rust_Path Capability Command Cancel Native Policy Pipe Runtime Streaming
    Broker Broker_Runs Live_Sessions Broker_Locks Interleavings Lock_Accounts Quiescence Lock_Answers
    Draining Audit_Trail Engine Engine_Threads Conformance Broker_Tests
begin

text \<open>
  A verification library for \<open>wasi-runtime\<close>, the execution boundary of Ferrous
  (\<open>src/crates/wasi-runtime\<close>): the crate that decides what a tool or an agent's command may
  touch, runs it as a WASI component inside that grant, and asks a human before anything
  risky.

  The program and its parts.  A \<open>CommandRequest\<close> (\<open>command.rs\<close>) names a program, its
  arguments, a working directory and the \<open>CapabilityGrant\<close> (\<open>capability.rs\<close>) it runs under.
  The \<open>ActionBroker\<close> (\<open>broker.rs\<close>) admits requests, queues them behind one worker, classifies
  their risk and parks the risky ones until they are approved, denied, cancelled
  (\<open>cancel.rs\<close>) or swept.  The \<open>WasiRuntime\<close> (\<open>lib.rs\<close>) turns a request into a Wasmtime store
  under the network and environment policy (\<open>policy.rs\<close>) and runs the guest, either
  capturing its output or streaming it through bounded pipes (\<open>pipe.rs\<close>), with a thread that
  drives the engine's epoch.  Native execution (\<open>native.rs\<close>) fails closed.

  The theories, each after the file it models:

    \<^item> \<open>Prelude\<close>: machine words, results, and the list and map lemmas the rest shares.
    \<^item> \<open>Rust_Text\<close>, \<open>Rust_Path\<close>: what the code uses of Rust's \<open>str\<close> and \<open>Path\<close>: UTF-8
      decoding, \<open>Path::components\<close>, \<open>starts_with\<close>, \<open>strip_prefix\<close>, \<open>push\<close>, \<open>pop\<close>, \<open>file_name\<close>.
      A path is its byte string.
    \<^item> \<open>Capability\<close> (\<open>capability.rs\<close>): limits, filesystem grants, the builder methods of
      \<open>CapabilityGrant\<close>, the lexical and the canonicalising path check.  \<open>grant_built\<close> is what
      the public constructors can build and \<open>grant_wf\<close> its invariant;
      \<open>std::fs::canonicalize\<close> is a parameter.
    \<^item> \<open>Command\<close> (\<open>command.rs\<close>): requests and the session state machine \<open>accept\<close>, against the
      grammar \<open>session_trace\<close> and the abstract lifecycle \<open>lifecycle_next\<close>.
    \<^item> \<open>Cancel\<close> (\<open>cancel.rs\<close>): the shared flag as a cell of an explicit store; locale
      \<open>one_shot_signal\<close>.
    \<^item> \<open>Native\<close> (\<open>native.rs\<close>), \<open>Policy\<close> (\<open>policy.rs\<close>): the fail-closed native backend, socket
      permissions, environment selection and risk classification.
    \<^item> \<open>Pipe\<close> (\<open>pipe.rs\<close>): the bounded pipe and both its writers; locale \<open>byte_pipe\<close>, an
      append-only byte queue with the history of what its writers were told was accepted,
      interpreted for either writer.
    \<^item> \<open>Runtime\<close> (\<open>lib.rs\<close>): \<open>build_store\<close>, the capturing run and its watchdog.  The operating
      system and Wasmtime are the fields of the record \<open>host\<close>; a \<open>WasiCtxBuilder\<close> is the list
      of the calls made on it.
    \<^item> \<open>Streaming\<close> (\<open>lib.rs\<close>): the streaming run as an interleaving of the guest's thread and
      the reader, one locked pipe operation at a time.
    \<^item> \<open>Broker\<close> (\<open>broker.rs\<close>): the broker's record and every operation on it: submit, approve,
      deny, cancel, the worker's turn with its panic barrier, the sweep, drop; locale
      \<open>outbox\<close> for the channels.
    \<^item> \<open>Broker_Runs\<close>: histories of the broker, in which callers and the sweeper act also while
      a guest runs, the invariant \<open>broker_inv\<close>, and what follows for every history.
    \<^item> \<open>Live_Sessions\<close>: histories in which no registered id is submitted again (\<open>fresh_history\<close>)
      with the invariant \<open>accounted\<close>, a worker left alone with its queue, and a drop while a
      guest runs.
    \<^item> \<open>Broker_Locks\<close> (\<open>broker.rs\<close>): the same operations one critical section, channel send or
      atomic access at a time (a streaming guest sends its output one chunk at a time while
      it runs), the system of worker, sweeper and callers that interleaves them, and the
      refinement: an operation left alone, and the worker's turn up to a guest's run and from
      its end, does what its one-step definition does, so every history is an interleaving.
    \<^item> \<open>Interleavings\<close>: what holds in every interleaving, by an invariant over the places a
      session can be in; what a channel may carry is \<open>story\<close>.
    \<^item> \<open>Lock_Accounts\<close>: careful schedules, in which no caller registers an id while it is
      registered and none drops its receiver; there the registered ids are exactly those of
      the sessions in the queue, in the pending map and in the hands of the threads
      (\<open>balanced\<close>).  And what an undelivered notice does without the second rule.
    \<^item> \<open>Quiescence\<close>: steps without further calls (\<open>quiet_step\<close>) end, by a measure on the
      queue and the programs; where they end; and a drop, which cancels every handle and
      then waits for that end.
    \<^item> \<open>Lock_Answers\<close>: along a careful schedule every session is held by the queue, the pending
      map or a thread until its end is sent, and the thread that sends it writes the audit
      entry that \<open>records\<close> this end next.
    \<^item> \<open>Draining\<close>: a round of the sweeper in a broker at rest, and what it leaves.
    \<^item> \<open>Audit_Trail\<close>: the converse of \<open>Lock_Answers\<close>: an entry traces back to a session that
      stood in the queue earlier in the schedule.
    \<^item> \<open>Engine\<close> (\<open>lib.rs\<close>): several runs on one runtime: the run lock, the shared epoch, and
      the thread of each run that advances it.
    \<^item> \<open>Engine_Threads\<close>: the reader of \<open>Streaming\<close> and the watchdog of \<open>Runtime\<close> as threads of
      \<open>Engine\<close>: they move the shared epoch as their own models say.
    \<^item> \<open>Conformance\<close>, \<open>Broker_Tests\<close>: the crate's unit tests as definitions over the model, and
      that they pass; a test that waits is run on the schedule its waits force.

  What the lemmas show.  The boundary: a grant the constructors build is well-formed, a path
  it admits lies in a granted root both as written and after resolving symbolic links, the
  guest sees that root under its own name, and a store has exactly the environment, network
  calls, directories with their permissions, working directory and limits of its grant.  The sessions: the state machine accepts exactly its
  protocol within the byte budget; pipes lose, repeat and reorder nothing of what they
  accepted; the reader
  forwards what the guest wrote, closes both pipes once it sees the budget exceeded, always
  ends after the guest, and never fires the timeout early.  The broker: no risky session
  runs unapproved in any history, every channel follows its protocol, every ended session is
  reported as it is recorded, panics are contained, decisions and sweeps close exactly what
  they name, and handles and audit trail stay bounded; if callers repeat no registered id,
  the capacity bounds the sessions and each can be cancelled; a worker left alone answers
  every queued session, and a dropped one starts no guest and interrupts the one that runs.
  The interleavings: every session is in one place, at most one guest runs and only if it
  may, each session's admission and state are those of its place, channels carry one story
  that the state machine accepts unless it ends out of order or overtaken, and what whole
  operations hide is a request for approval
  that comes after the end, and the loss of an approved session whose caller hung up in
  between.  Careful schedules: the accounts balance, so the capacity bounds the sessions and
  a cancellation reaches each of them, also the one whose guest is running; every schedule
  comes to rest, and then each session has ended and was recorded, or is parked; the audit
  trail names no session that was not queued, no end that was not told to its caller and no
  approval that was not given; one sweep
  past the deadlines gives the whole capacity back; after a drop no guest starts.  The engine: its threads
  are those of the detailed models, and runs do not disturb each other, unless a panic leaves
  a reader behind.

  Bounds and fuel.  Integers are words of their width; lengths of buffers are naturals,
  which a \<open>Vec\<close> cannot make overflow.  Recursion is structural or has a measure; the only
  loop that may not end, the worker's, is a \<open>partial_function\<close> whose result is an option,
  and its termination on a dropped broker is a theorem.  A streaming run whose
  interleaving stops before the reader's exit is \<open>None\<close>; eleven operations of the reader
  suffice once both streams have ended.

  What is not modelled.  Wasmtime and guests are parameters: that a guest obeys the store's
  configuration is Wasmtime's contract.  In \<open>Broker_Runs\<close> an operation is one step with all
  other operations inside a guest's run; \<open>Broker_Locks\<close> splits the operations, and there a
  streaming run is chosen when the guest starts: its chunks are then sent one by one among
  the steps of the other threads, and only its last look at the handle reads the signals as
  they left them; that a raised signal also ends the guest earlier is in \<open>Streaming\<close> and
  \<open>Engine\<close>.  A drop cancels its handles in one step, since it holds their lock.  The epoch
  of \<open>Engine\<close> is an unbounded natural, where the engine has 64
  bits.  Mutex poisoning is ignored by the code and by the model; clocks are unbounded.
  After a panic in a streaming run the code leaves its reader thread behind; the broker's
  model lets that thread send nothing more, an assumption named in \<open>panics_cleanly\<close>, and
  \<open>Engine\<close> shows what it does to the epoch.  Test hooks are left out: \<open>started_hook\<close> only
  times a test, and the panic that \<open>panic_next\<close> injects is one of the backend. What is
  left of the sources is the glue to Wasmtime and Tokio (\<open>StoreState\<close>, \<open>p2_stream\<close>,
  \<open>async_stream\<close>, an empty \<open>ready\<close>), which hands on what is modelled here.

  Order.  The components come in the order of their calls, the invariants of the
  interleavings after the operations they are about. Possible extensions: the runs of
  \<open>Engine\<close> and the broker's worker in one system, so that the epoch a reader left behind
  advances is seen by the broker's later sessions; schedules that repeat ids.
\<close>

section \<open>Across the components\<close>

lemma execute_capturing_Completed:
  assumes "execute_capturing be meanwhile job handle b = (Returned (OutCompleted out), job', b')"
  obtains store where
    "build_store (be_host be) (job_request job) (h_env (be_host be)) = Inr store"
    "h_instantiate (be_host be) (job_component job) store = None"
    "\<not> is_cancelled (ab_signals b) handle" "wo_exit_code out = 0 \<or> wo_exit_code out = 1"
  using assms
  by (auto simp: execute_capturing_def run_wasi_cancellable_def run_wasi_inner_def Let_def
      split: if_splits prod.splits sum.splits option.splits guest_result.splits runtime_error.splits)

section \<open>Properties\<close>

text \<open>
  C8. A completed session was confined from submission to exit: when the broker reports a
  capturing session as completed, its request was valid, its working directory really lay
  inside a grant, and it had not been cancelled before; its guest ran in a store with exactly
  the grant: the environment, the network calls (no DNS, no UDP, TCP only for granted
  loopback ports), one preopened directory for each granted root under its permissions, and
  the memory, fuel and time limits.
\<close>

theorem completed_session_was_confined:
  assumes "execute_capturing be meanwhile job handle b = (Returned (OutCompleted out), job', b')"
  shows "\<exists>store. build_store (be_host be) (job_request job) (h_env (be_host be)) = Ok store
    \<and> validate (job_request job) = Ok () \<and> cr_mode (job_request job) = Wasi
    \<and> allows_existing_path (h_canonicalize (be_host be)) (cr_grant (job_request job)) (cr_cwd (job_request job))
    \<and> env_calls (sc_builder store)
        = selected_environment (cr_grant (job_request job)) (h_env (be_host be))
    \<and> network_calls (sc_builder store) = granted_network (cr_grant (job_request job))
    \<and> list_all2 (granted_directory (be_host be))
        (enumerate 0 (cg_filesystems (cr_grant (job_request job)))) (preopens (sc_builder store))
    \<and> sc_memory_size store = rl_max_memory_bytes (cg_limits (cr_grant (job_request job)))
    \<and> sc_fuel store = rl_max_fuel (cg_limits (cr_grant (job_request job)))
    \<and> unat (sc_epoch_deadline store)
        = max (min (10 * unat (rl_timeout_seconds (cg_limits (cr_grant (job_request job))))) (2 ^ 64 - 1)) 1
    \<and> \<not> is_cancelled (ab_signals b) handle
    \<and> (wo_exit_code out = 0 \<or> wo_exit_code out = 1)"
proof -
  obtain store where s:
    "build_store (be_host be) (job_request job) (h_env (be_host be)) = Inr store"
    "\<not> is_cancelled (ab_signals b) handle" "wo_exit_code out = 0 \<or> wo_exit_code out = 1"
    using execute_capturing_Completed [OF assms] by metis
  show ?thesis using store_posture [OF s(1)] s by blast
qed

theorem completed_session_was_confined_witness:
  "\<exists>store. build_store example_host example_request (h_env example_host) = Ok store
     \<and> network_calls (sc_builder store) = granted_network (cr_grant example_request)"
proof -
  obtain sc where sc: "build_store example_host example_request (h_env example_host) = Ok sc"
    using example_store_built by blast
  have be: "be_host example_backend = example_host" "job_request example_auto_job = example_request"
    by (simp_all add: example_backend_def example_auto_job_def)
  have "\<exists>out j. execute_capturing example_backend id example_auto_job (CancelHandle 0) example_broker
      = (Returned (OutCompleted out), j, example_broker)"
    using sc example_starts be
    by (simp add: execute_capturing_def example_backend_def run_wasi_cancellable_def run_wasi_inner_def
        example_host_def Let_def)
  then obtain out j where "execute_capturing example_backend id example_auto_job (CancelHandle 0)
      example_broker = (Returned (OutCompleted out), j, example_broker)" by blast
  from completed_session_was_confined [OF this] show ?thesis unfolding be by blast
qed


text \<open>
  The sequences of the broker's grammar that the session state machine refuses: a
  cancellation or an exit before the start, a refusal or a failure after it.
\<close>

definition out_of_order :: "session_event list \<Rightarrow> bool" where
  "out_of_order es = (es \<noteq> [] \<and>
     (if Started \<in> set es then last es = Denied \<or> last es = Unsupported
      else last es = Cancelled \<or> (\<exists>code. last es = Exited code)))"

lemma running_rest_trace:
  "running_rest (map Event es) \<Longrightarrow>
     running_trace es \<longleftrightarrow> es = [] \<or> last es \<noteq> Denied \<and> last es \<noteq> Unsupported"
proof (induction es)
  case (Cons e es)
  show ?case
  proof (cases es)
    case Nil
    then show ?thesis using Cons.prems by (cases e) (auto simp: output_chunk_def ends_session_def)
  next
    case (Cons e' es')
    then have "output_chunk e" "running_rest (map Event es)" using Cons.prems by simp_all
    then show ?thesis using Cons.IH Cons by (cases e) (simp_all add: output_chunk_def)
  qed
qed simp

lemma event_rest_trace:
  assumes "event_rest (map Event es)"
  shows "started_trace es \<longleftrightarrow> \<not> out_of_order es"
proof (cases es)
  case (Cons e rest)
  show ?thesis
  proof (cases "e = Started")
    case True
    then have "running_rest (map Event rest)" using assms Cons by (simp add: event_rest_def)
    then show ?thesis using running_rest_trace [of rest] True Cons
      by (auto simp: out_of_order_def)
  next
    case False
    then have "rest = []" "ends_session (Event e)"
      using assms Cons by (auto simp: event_rest_def split: session_event.splits list.splits)
    then show ?thesis using Cons by (cases e) (auto simp: out_of_order_def ends_session_def)
  qed
qed (simp add: out_of_order_def)

lemma protocol_trace:
  assumes "channel_protocol (map Event es)"
  shows "session_trace es \<longleftrightarrow> \<not> out_of_order es"
proof (cases "\<exists>r rest. es = PendingApproval r # rest")
  case True
  then obtain r rest where es: "es = PendingApproval r # rest" by blast
  then have "event_rest (map Event rest)" using assms by (simp add: channel_protocol_def)
  moreover have "out_of_order es \<longleftrightarrow> out_of_order rest" using es by (auto simp: out_of_order_def)
  ultimately show ?thesis using event_rest_trace es by simp
next
  case False
  have "event_rest (map Event es)"
  proof (cases es)
    case (Cons e rest)
    then have "\<forall>r. e \<noteq> PendingApproval r" using False by blast
    then have "outcome_rest (map Event es) \<or> event_rest (map Event es)"
      using assms Cons by (cases e) (simp_all add: channel_protocol_def)
    then show ?thesis using Cons by (simp add: outcome_rest_def)
  qed (simp add: event_rest_def)
  moreover have "session_trace es = started_trace es"
    using False by (cases es rule: session_trace.cases) auto
  ultimately show ?thesis using event_rest_trace by simp
qed

lemma overtaken_trace: "overtaken (map Event es) \<Longrightarrow> \<not> session_trace es"
proof -
  assume over: "overtaken (map Event es)"
  then obtain e e' rest where es: "es = e # e' # rest"
    by (cases es; cases "tl es") (auto simp: overtaken_def)
  then have "rest = []" using over by (cases rest) (simp_all add: overtaken_def split: session_event.splits)
  then have "ends_session (Event e) \<and> (\<exists>r. e' = PendingApproval r)"
    using over es by (cases e') (simp_all add: overtaken_def)
  then show ?thesis using es by (cases e) (auto simp: ends_session_def)
qed

text \<open>
  C27. Whether a caller can replay its events through the session state machine: whatever the
  schedule of the lock sections, a fresh session accepts the events that a streaming channel
  has carried so far, in order, exactly if they fit its byte budget, the end was not overtaken
  by the request for approval, and they do not end out of order, that is with a cancellation
  or an exit before the start or a refusal after it.
\<close>

theorem channel_replays_through_accept:
  assumes "interleaving capacity timeout s" and "ab_sent (sy_broker s) c = map Event es"
  shows "accept_all (session_new i l) es \<noteq> None
    \<longleftrightarrow> total_bytes es \<le> unat (rl_max_output_bytes l) \<and> \<not> out_of_order es \<and> \<not> overtaken (map Event es)"
proof -
  have "story (map Event es)"
    using interleaving_inv [OF assms(1)] assms(2) unfolding lock_inv_def stories_ok_def by metis
  then have "session_trace es \<longleftrightarrow> \<not> out_of_order es \<and> \<not> overtaken (map Event es)"
    using protocol_trace [of es] overtaken_trace [of es] unfolding story_def by blast
  then show ?thesis using accept_all_language [of i l es] by auto
qed

theorem channel_replays_through_accept_witness:
  "\<exists>b :: unit monitored. ab_sent b 0 = map Event [Cancelled]
     \<and> accept_all (session_new 7 DEFAULT_LIMITS) [Cancelled] = None"
proof -
  let ?b0 = "client_step (OpSubmitStreaming () example_request) example_start"
  let ?b1 = "client_step (OpCancel 7) ?b0"
  let ?job = "new_job SinkEvents () example_request 0"
  have id: "cr_id example_request = 7" by (simp add: example_request_def)
  have sub: "ab_queue ?b0 = [?job]" "fmlookup (bs_handles ?b0) 7 = Some (CancelHandle 0)"
    "bs_pending ?b0 = fmempty" "ab_sent ?b0 0 = []" "ab_open ?b0 0"
    by (simp_all add: submit_streaming_def submit_job_eq example_valid example_start_fields Let_def id
        cancel_handle_new_def cancel_store_init_def fcard.rep_eq)
  have b1: "ab_queue ?b1 = [?job]" "fmlookup (bs_handles ?b1) 7 = Some (CancelHandle 0)"
    "is_cancelled (ab_signals ?b1) (CancelHandle 0)" "ab_sent ?b1 0 = []" "ab_open ?b1 0"
    using sub by (simp_all add: cancel_def is_cancelled_def cancel_handle_cancel_def)
  have "process_job_guarded example_backend (client_steps []) 0 ?job (?b1\<lparr>ab_queue := []\<rparr>)
      = Some (close_session 7 ?job TermCancelled AutoApproved AuditCancelled (?b1\<lparr>ab_queue := []\<rparr>))"
    using cancelled_job_closes [of "?b1\<lparr>ab_queue := []\<rparr>" ?job "CancelHandle 0" example_backend
        "client_steps []" 0] b1 example_auto
    by (simp add: new_job_def id example_auto_job_def)
  then have turn: "worker_turn example_backend (client_steps []) 0 ?b1
      = Some (close_session 7 ?job TermCancelled AutoApproved AuditCancelled (?b1\<lparr>ab_queue := []\<rparr>))"
    using b1(1) by (simp add: worker_turn_def)
  let ?b2 = "close_session 7 ?job TermCancelled AutoApproved AuditCancelled (?b1\<lparr>ab_queue := []\<rparr>)"
  have "panics_cleanly example_backend" by (simp add: panics_cleanly_def example_backend_def)
  then have reach: "reachable 2 100 ?b2"
    using reachable_worker [OF reachable_client [OF reachable_client [OF example_reachable(1)]] _ turn] by blast
  have sent: "ab_sent ?b2 0 = map Event [Cancelled]"
    using b1 by (simp add: new_job_def sink_channel_def terminal_message_def)
  have "accept_all (session_new 7 DEFAULT_LIMITS) [Cancelled] = None"
    using channel_replays_through_accept [OF reachable_interleaving [OF reach], of 0 "[Cancelled]" 7 DEFAULT_LIMITS]
      sent by (simp add: out_of_order_def system_of_def)
  then show ?thesis using sent by blast
qed

end
